(* ===== verification/Bench_Prelude.thy ===== *)
theory Bench_Prelude
  imports Main "HOL-Library.Word"
begin

text \<open>
  Shared vocabulary of the development: the machine types of the C sources, list lemmas used by
  several codecs, the notion of a stretch of code that a streaming decoder consumes, and the
  byte histogram that the RLE and LZ77 coders build to choose their marker byte.
\<close>

unbundle bit_operations_syntax

named_theorems emit_intros \<open>stretches of code a decoder consumes\<close>
named_theorems size_simps \<open>sizes of encoder outputs\<close>

type_synonym byte = "8 word"
type_synonym u32 = "32 word"

text \<open>
  \<open>out[ idx ++ ] = x\<close> with an \<open>unsigned int\<close> on the right: the value is truncated to a byte.
\<close>

abbreviation to_byte :: "nat \<Rightarrow> byte" where
  "to_byte n \<equiv> word_of_nat n"

subsection \<open>Lists\<close>

lemma replicate_Suc_append: "replicate n x @ x # xs = replicate (Suc n) x @ xs"
  by (simp add: replicate_app_Cons_same)

lemma count_list_replicate [simp]: "count_list (replicate n x) y = (if x = y then n else 0)"
  by (induction n) auto

lemma count_pos: "0 < count_list xs x \<longleftrightarrow> x \<in> set xs"
  by (metis count_list_0_iff gr0I less_irrefl)

lemma sum_count_list:
  assumes "set xs \<subseteq> A" and "finite A"
  shows "(\<Sum>a\<in>A. count_list xs a) = length xs"
  using assms(1)
proof (induction xs)
  case Nil
  show ?case by simp
next
  case (Cons x xs)
  have "(\<Sum>a\<in>A. count_list (x # xs) a) = (\<Sum>a\<in>A. (if a = x then 1 else 0) + count_list xs a)"
    by (rule sum.cong) auto
  also have "\<dots> = (\<Sum>a\<in>A. if a = x then 1 else 0) + (\<Sum>a\<in>A. count_list xs a)"
    by (rule sum.distrib)
  also have "\<dots> = 1 + length xs"
    using Cons assms(2) by simp
  finally show ?case by simp
qed

text \<open>The number of byte values.\<close>

lemma card_byte: "card (UNIV :: byte set) = 256"
  by (simp add: card_word)

lemma unat_byte_less [simp]: "unat (b :: byte) < 256"
  using unsigned_less [of b] by simp

lemma unat_to_byte [simp]: "n < 256 \<Longrightarrow> unat (to_byte n) = n"
  by (simp add: unat_of_nat)

text \<open>The masks of the byte-oriented codecs, on counts held as natural numbers.\<close>

lemma and_0xff: "(n :: nat) AND 0xff = n mod 256"
  and and_0x7f: "(n :: nat) AND 0x7f = n mod 128"
  using take_bit_eq_mask [of 8 n] take_bit_eq_mask [of 7 n]
  by (simp_all add: take_bit_eq_mod mask_eq_exp_minus_1)

lemma and_exp_nat: "(n :: nat) AND 2 ^ k = (if bit n k then 2 ^ k else 0)"
  by (rule bit_eqI) (auto simp: bit_simps)

lemma and_0x80: "(n :: nat) AND 0x80 = (if odd (n div 128) then 128 else 0)"
  using and_exp_nat [of n 7] by (simp add: bit_iff_odd)

lemma or_0x80: "(n :: nat) < 128 \<Longrightarrow> n OR 0x80 = n + 128"
  by (rule disjunctive_add_eq_or [symmetric]) (simp add: and_0x80)

subsection \<open>Streaming decoders\<close>

text \<open>
  A decoder \<open>cont\<close> takes the rest of its input and its state and returns the final state, or
  \<open>None\<close> where the C code would read past its input. \<open>emits cont c h h'\<close> says that \<open>cont\<close>,
  started in \<open>h\<close> on any input that begins with the stretch \<open>c\<close>, goes through \<open>c\<close> and goes on in
  state \<open>h'\<close> with what follows.
\<close>

definition emits :: "('c list \<Rightarrow> 'h \<Rightarrow> 'r) \<Rightarrow> 'c list \<Rightarrow> 'h \<Rightarrow> 'h \<Rightarrow> bool" where
  "emits cont c h h' \<longleftrightarrow> (\<forall>r. cont (c @ r) h = cont r h')"

lemma emitsI: "(\<And>r. cont (c @ r) h = cont r h') \<Longrightarrow> emits cont c h h'"
  by (simp add: emits_def)

lemma emitsD: "emits cont c h h' \<Longrightarrow> cont (c @ r) h = cont r h'"
  by (simp add: emits_def)

lemma emits_Nil [emit_intros]: "emits cont [] h h"
  by (simp add: emits_def)

lemma emits_append: "emits cont c h h' \<Longrightarrow> emits cont d h' h'' \<Longrightarrow> emits cont (c @ d) h h''"
  by (simp add: emits_def)

text \<open>
  The interface every streaming decoder of the codecs shares: at the end of its input it stops
  and returns its state.
\<close>

locale stream_decoder =
  fixes cont :: "'c list \<Rightarrow> 'h \<Rightarrow> 'h option"
  assumes cont_Nil: "cont [] h = Some h"
begin

lemma decodes_to: "emits cont c h h' \<Longrightarrow> cont c h = Some h'"
  using emitsD [of cont c h h' "[]"] by (simp add: cont_Nil)

lemma decodes_concat:
  "emits cont c h h' \<Longrightarrow> emits cont d h' h'' \<Longrightarrow> cont (c @ d) h = Some h''"
  by (rule decodes_to) (rule emits_append)

end

subsection \<open>The byte histogram and the marker byte\<close>

text \<open>
  \<open>RLE_Compress\<close>, \<open>LZ_Compress\<close> and \<open>LZ_CompressFast\<close> begin with the same two loops: they count
  the bytes of the input in \<open>histogram[ 256 ]\<close> and take the first least frequent byte as the
  marker.
\<close>

definition build_histogram :: "byte list \<Rightarrow> nat list" where
  "build_histogram xs = fold (\<lambda>b h. h[unat b := Suc (h ! unat b)]) xs (replicate 256 0)"

definition least_common :: "nat list \<Rightarrow> nat" where
  "least_common h = fold (\<lambda>i m. if h ! i < h ! m then i else m) [1..<256] 0"

definition find_marker :: "byte list \<Rightarrow> byte" where
  "find_marker xs = to_byte (least_common (build_histogram xs))"

lemma histogram_fold:
  "length h = 256 \<Longrightarrow>
   length (fold (\<lambda>b h. h[unat b := Suc (h ! unat b)]) xs h) = 256 \<and>
   fold (\<lambda>b h. h[unat b := Suc (h ! unat b)]) xs h ! unat c = h ! unat c + count_list xs (c :: byte)"
  by (induction xs arbitrary: h) (auto simp: nth_list_update unsigned_word_eqI)

lemma length_build_histogram [simp]: "length (build_histogram xs) = 256"
  using histogram_fold [of "replicate 256 0" xs] by (simp add: build_histogram_def)

lemma build_histogram_nth: "build_histogram xs ! unat c = count_list xs c"
  using histogram_fold [of "replicate 256 0" xs c] by (simp add: build_histogram_def)

lemma least_common_fold:
  assumes "m < n" and "\<forall>j<n. h ! m \<le> (h ! j :: nat)"
  shows "let m' = fold (\<lambda>i m. if h ! i < h ! m then i else m) [n..<n + k] m
    in m' < n + k \<and> (\<forall>j<n + k. h ! m' \<le> h ! j)"
proof (induction k)
  case 0
  from assms show ?case by simp
next
  case (Suc k)
  then show ?case by (auto simp: Let_def less_Suc_eq)
qed

lemma least_common_less: "least_common h < 256"
  and least_common_le: "j < 256 \<Longrightarrow> h ! least_common h \<le> h ! j"
  using least_common_fold [of 0 1 h 255] by (simp_all add: least_common_def Let_def)

lemma find_marker_least: "count_list xs (find_marker xs) \<le> count_list xs b"
proof -
  have "unat (find_marker xs) = least_common (build_histogram xs)"
    by (simp add: find_marker_def least_common_less)
  then have "build_histogram xs ! unat (find_marker xs) \<le> build_histogram xs ! unat b"
    by (simp add: least_common_le)
  then show ?thesis by (simp add: build_histogram_nth)
qed

text \<open>The marker occurs at most once in 256 bytes on average: the least of 256 counts.\<close>

lemma find_marker_count: "count_list xs (find_marker xs) \<le> length xs div 256"
proof -
  let ?c = "count_list xs (find_marker xs)"
  have "256 * ?c = (\<Sum>b\<in>(UNIV :: byte set). ?c)"
    by (simp add: card_byte)
  also have "\<dots> \<le> (\<Sum>b\<in>UNIV. count_list xs b)"
    by (rule sum_mono) (rule find_marker_least)
  also have "\<dots> = length xs"
    by (rule sum_count_list) auto
  finally show ?thesis by (simp add: less_eq_div_iff_mult_less_eq mult.commute)
qed

subsection \<open>Evaluation\<close>

text \<open>
  With these the simplifier evaluates a definition on a concrete input from the inside out: it
  leaves the bodies of \<open>let\<close>, \<open>case\<close>, binds and loops alone until their arguments are values.
\<close>

lemma map_weak_cong: "xs = ys \<Longrightarrow> map f xs = map f ys"
  by simp

lemma fold_weak_cong: "xs = ys \<Longrightarrow> s = t \<Longrightarrow> fold f xs s = fold f ys t"
  by simp

lemma bind_weak_cong: "x = y \<Longrightarrow> Option.bind x f = Option.bind y f"
  by simp

lemmas eval_congs = map_weak_cong fold_weak_cong let_weak_cong bind_weak_cong
  prod.case_cong_weak option.case_cong_weak

end
