(* ===== verification/Bit_Stream.thy ===== *)
theory Bit_Stream
  imports Bench_Prelude
begin

text \<open>
  Buffers seen as bit strings, for the coders of \<open>codecs/bcl/src\<close> that write and read single
  bits: the most significant bit of a byte comes first. \<open>bits_of buf\<close> is the whole buffer;
  the lemmas say what the C expressions that set or test one bit do to it. \<open>word_bits n x\<close> are
  the \<open>n\<close> low bits of a word in the order the coders write them, \<open>shift_in\<close> is the expression
  \<open>x = (x << 1) | bit\<close> with which they are read back.
\<close>

subsection \<open>A buffer as a bit string\<close>

definition bits_of :: "byte list \<Rightarrow> bool list" where
  "bits_of buf = map (\<lambda>n. bit (buf ! (n div 8)) (7 - n mod 8)) [0..<8 * length buf]"

lemma length_bits_of [simp]: "length (bits_of buf) = 8 * length buf"
  by (simp add: bits_of_def)

lemma bits_of_nth: "n < 8 * length buf \<Longrightarrow> bits_of buf ! n = bit (buf ! (n div 8)) (7 - n mod 8)"
  by (simp add: bits_of_def)

lemma bits_of_append: "bits_of (xs @ ys) = bits_of xs @ bits_of ys"
proof (intro nth_equalityI)
  fix n
  assume "n < length (bits_of (xs @ ys))"
  moreover have "(n - 8 * length xs) div 8 = n div 8 - length xs \<and> (n - 8 * length xs) mod 8 = n mod 8"
    if "8 * length xs \<le> n"
  proof -
    from that obtain m where "n = 8 * length xs + m" using le_Suc_ex by blast
    then show ?thesis by simp
  qed
  ultimately show "bits_of (xs @ ys) ! n = (bits_of xs @ bits_of ys) ! n"
    by (auto simp: bits_of_nth nth_append)
qed simp

lemma bits_of_take: "bits_of (take k buf) = take (8 * k) (bits_of buf)"
proof (cases "k \<le> length buf")
  case True
  have "bits_of buf = bits_of (take k buf) @ bits_of (drop k buf)"
    by (simp flip: bits_of_append)
  with True show ?thesis by simp
qed simp

text \<open>Setting one bit: the byte at \<open>n div 8\<close> is replaced by one that differs in bit \<open>7 - n mod 8\<close>.\<close>

lemma bits_of_update:
  assumes "n < 8 * length buf"
    and "\<And>m. m < 8 \<Longrightarrow> bit b m = (if m = 7 - n mod 8 then v else bit (buf ! (n div 8)) m)"
  shows "bits_of (buf[n div 8 := b]) = (bits_of buf)[n := v]"
proof (intro nth_equalityI)
  fix i
  assume "i < length (bits_of (buf[n div 8 := b]))"
  then have i: "i < 8 * length buf" by simp
  have "i = n" if "i div 8 = n div 8" "7 - i mod 8 = 7 - n mod 8"
  proof -
    have "i mod 8 < 8" "n mod 8 < 8" by simp_all
    with that(2) have "i mod 8 = n mod 8" by linarith
    with that(1) show ?thesis by (metis div_mult_mod_eq)
  qed
  with i assms show "bits_of (buf[n div 8 := b]) ! i = (bits_of buf)[n := v] ! i"
    by (auto simp: bits_of_nth nth_list_update)
qed simp

lemma take_bits_of_update:
  assumes "n < 8 * length buf"
    and "\<And>m. m < 8 \<Longrightarrow> bit b m = (if m = 7 - n mod 8 then v else bit (buf ! (n div 8)) m)"
  shows "take (Suc n) (bits_of (buf[n div 8 := b])) = take n (bits_of buf) @ [v]"
  using assms by (simp add: bits_of_update take_Suc_conv_app_nth)

subsection \<open>Words as bit strings\<close>

definition word_bits :: "nat \<Rightarrow> u32 \<Rightarrow> bool list" where
  "word_bits n x = map (bit x) (rev [0..<n])"

lemma length_word_bits [simp]: "length (word_bits n x) = n"
  by (simp add: word_bits_def)

lemma word_bits_0 [simp]: "word_bits 0 x = []"
  by (simp add: word_bits_def)

lemma word_bits_Suc: "word_bits (Suc n) x = bit x n # word_bits n x"
  by (simp add: word_bits_def)

definition shift_in :: "u32 \<Rightarrow> bool \<Rightarrow> u32" where
  "shift_in x b = push_bit 1 x OR of_bool b"

lemma shift_in_bits: "fold (\<lambda>b v. shift_in v b) (word_bits n x) v = push_bit n v OR take_bit n x"
proof (induction n arbitrary: v)
  case (Suc n)
  have "push_bit n (shift_in v (bit x n)) OR take_bit n x = push_bit (Suc n) v OR take_bit (Suc n) x"
    by (rule bit_word_eqI) (auto simp: shift_in_def bit_simps less_Suc_eq)
  with Suc show ?case by (simp add: word_bits_Suc)
qed simp

end
