(* ===== verification/Bcl_Rice.thy ===== *)
theory Bcl_Rice
  imports Bit_Stream "HOL-Library.Monad_Syntax"
begin

text \<open>
  The Rice coder of the Basic Compression Library, \<open>codecs/bcl/src/rice.c\<close>. Words of the six
  formats of \<open>rice.h\<close> are read from a byte buffer in the byte order of a little-endian machine.
  The encoder is \<open>None\<close> where the C code shifts a 32-bit value by 32 places, which C leaves
  undefined; \<open>hist0\<close> is what the uninitialised array \<open>hist\<close> holds. Bit positions are natural
  numbers: they stay below \<open>8 * (insize + 1)\<close>, which fits the \<open>unsigned int\<close> of the C code for
  buffers below 512 megabytes.
\<close>

subsection \<open>Formats and words\<close>

definition RICE_FMT_INT8 :: nat where "RICE_FMT_INT8 = 1"
definition RICE_FMT_UINT8 :: nat where "RICE_FMT_UINT8 = 2"
definition RICE_FMT_INT16 :: nat where "RICE_FMT_INT16 = 3"
definition RICE_FMT_UINT16 :: nat where "RICE_FMT_UINT16 = 4"
definition RICE_FMT_INT32 :: nat where "RICE_FMT_INT32 = 7"
definition RICE_FMT_UINT32 :: nat where "RICE_FMT_UINT32 = 8"

lemmas RICE_FMT_defs = RICE_FMT_INT8_def RICE_FMT_UINT8_def RICE_FMT_INT16_def
  RICE_FMT_UINT16_def RICE_FMT_INT32_def RICE_FMT_UINT32_def

definition RICE_HISTORY :: nat where "RICE_HISTORY = 16"
definition RICE_THRESHOLD :: nat where "RICE_THRESHOLD = 8"

definition Rice_wordsize :: "nat \<Rightarrow> nat option" where
  "Rice_wordsize format =
     (if format = RICE_FMT_INT8 \<or> format = RICE_FMT_UINT8 then Some 8
      else if format = RICE_FMT_INT16 \<or> format = RICE_FMT_UINT16 then Some 16
      else if format = RICE_FMT_INT32 \<or> format = RICE_FMT_UINT32 then Some 32
      else None)"

text \<open>The \<open>idx\<close>-th word of \<open>n\<close> bytes, zero-extended, and the bytes of a word.\<close>

definition le_word :: "byte list \<Rightarrow> u32" where
  "le_word bs = foldr (\<lambda>b w. ucast b OR push_bit 8 w) bs 0"

definition nth_word :: "nat \<Rightarrow> byte list \<Rightarrow> nat \<Rightarrow> u32" where
  "nth_word n ptr idx = le_word (take n (drop (n * idx) ptr))"

definition bytes_le :: "nat \<Rightarrow> u32 \<Rightarrow> byte list" where
  "bytes_le n x = map (\<lambda>j. ucast (drop_bit (8 * j) x)) [0..<n]"

text \<open>\<open>x = sx < 0 ? -1-(sx<<1) : sx<<1\<close> and its inverse \<open>(x & 1) ? -(int)((x+1)>>1) : (int)(x>>1)\<close>.\<close>

definition Rice_fold_sign :: "u32 \<Rightarrow> u32" where
  "Rice_fold_sign sx = (if sx <s 0 then - 1 - push_bit 1 sx else push_bit 1 sx)"

definition Rice_unfold_sign :: "u32 \<Rightarrow> u32" where
  "Rice_unfold_sign x = (if x AND 1 \<noteq> 0 then - drop_bit 1 (x + 1) else drop_bit 1 x)"

definition Rice_ReadWord :: "byte list \<Rightarrow> nat \<Rightarrow> nat \<Rightarrow> u32" where
  "Rice_ReadWord ptr idx format =
     (if format = RICE_FMT_INT8 then Rice_fold_sign (signed_take_bit 7 (nth_word 1 ptr idx))
      else if format = RICE_FMT_UINT8 then nth_word 1 ptr idx
      else if format = RICE_FMT_INT16 then Rice_fold_sign (signed_take_bit 15 (nth_word 2 ptr idx))
      else if format = RICE_FMT_UINT16 then nth_word 2 ptr idx
      else if format = RICE_FMT_INT32 then Rice_fold_sign (nth_word 4 ptr idx)
      else if format = RICE_FMT_UINT32 then nth_word 4 ptr idx
      else 0)"

text \<open>The bytes that are stored at the next word of the output.\<close>

definition Rice_WriteWord :: "nat \<Rightarrow> u32 \<Rightarrow> byte list" where
  "Rice_WriteWord format x =
     (if format = RICE_FMT_INT8 then bytes_le 1 (Rice_unfold_sign x)
      else if format = RICE_FMT_UINT8 then bytes_le 1 x
      else if format = RICE_FMT_INT16 then bytes_le 2 (Rice_unfold_sign x)
      else if format = RICE_FMT_UINT16 then bytes_le 2 x
      else if format = RICE_FMT_INT32 then bytes_le 4 (Rice_unfold_sign x)
      else if format = RICE_FMT_UINT32 then bytes_le 4 x
      else [])"

fun Rice_NumBits_loop :: "u32 \<Rightarrow> nat \<Rightarrow> nat" where
  "Rice_NumBits_loop x n =
     (if x AND 0x80000000 = 0 \<and> 0 < n then Rice_NumBits_loop (push_bit 1 x) (n - 1) else n)"

declare Rice_NumBits_loop.simps [simp del]

definition Rice_NumBits :: "u32 \<Rightarrow> nat" where
  "Rice_NumBits x = Rice_NumBits_loop x 32"

subsection \<open>The bit stream\<close>

record rice_bitstream =
  BytePtr :: "byte list"
  BitPos :: nat
  NumBytes :: nat

definition Rice_InitBitstream :: "byte list \<Rightarrow> nat \<Rightarrow> rice_bitstream" where
  "Rice_InitBitstream buf bytes = \<lparr>BytePtr = buf, BitPos = 0, NumBytes = bytes\<rparr>"

definition Rice_ReadBit :: "rice_bitstream \<Rightarrow> u32 \<times> rice_bitstream" where
  "Rice_ReadBit stream =
     (let idx = BitPos stream div 8
      in if idx < NumBytes stream then
           let bit = 7 - BitPos stream mod 8;
               x = drop_bit bit (ucast (BytePtr stream ! idx)) AND 1
           in (x, stream\<lparr>BitPos := BitPos stream + 1\<rparr>)
         else (0, stream))"

definition Rice_WriteBit :: "rice_bitstream \<Rightarrow> u32 \<Rightarrow> rice_bitstream" where
  "Rice_WriteBit stream x =
     (let idx = BitPos stream div 8
      in if idx < NumBytes stream then
           let bit = 7 - BitPos stream mod 8;
               mask = 0xff XOR push_bit bit 1;
               set = push_bit bit (x AND 1);
               b = ucast ((ucast (BytePtr stream ! idx) AND mask) OR set)
           in stream\<lparr>BytePtr := (BytePtr stream)[idx := b], BitPos := BitPos stream + 1\<rparr>
         else stream)"

subsection \<open>Words on the bit stream\<close>

definition Rice_EncodeWord :: "u32 \<Rightarrow> nat \<Rightarrow> rice_bitstream \<Rightarrow> rice_bitstream option" where
  "Rice_EncodeWord x k stream =
     (if 32 \<le> k then None
      else
        let q = drop_bit k x;
            stream =
              (if RICE_THRESHOLD < unat q then
                 let stream = fold (\<lambda>_ s. Rice_WriteBit s 1) [0..<RICE_THRESHOLD] stream;
                     q = q - word_of_nat RICE_THRESHOLD;
                     o' = Rice_NumBits q;
                     stream = fold (\<lambda>_ s. Rice_WriteBit s 1) [0..<o'] stream;
                     stream = Rice_WriteBit stream 0
                 in fold (\<lambda>j s. Rice_WriteBit s (drop_bit j q AND 1)) (rev [0..<o' - 1]) stream
               else
                 Rice_WriteBit (fold (\<lambda>_ s. Rice_WriteBit s 1) [0..<unat q] stream) 0)
        in Some (fold (\<lambda>j s. Rice_WriteBit s (drop_bit j x AND 1)) (rev [0..<k]) stream))"

lemma Rice_ReadBit_advance:
  "Rice_ReadBit s = (x, s') \<Longrightarrow> x \<noteq> 0 \<Longrightarrow> 8 * NumBytes s' - BitPos s' < 8 * NumBytes s - BitPos s"
  by (auto simp: Rice_ReadBit_def Let_def split: if_splits)

function Rice_read_ones :: "rice_bitstream \<Rightarrow> nat \<Rightarrow> nat \<times> rice_bitstream" where
  "Rice_read_ones stream q =
     (case Rice_ReadBit stream of
        (x, stream') \<Rightarrow> if x \<noteq> 0 then Rice_read_ones stream' (q + 1) else (q, stream'))"
  by pat_completeness auto
termination
  by (relation "measure (\<lambda>(s, q). 8 * NumBytes s - BitPos s)") (auto dest: Rice_ReadBit_advance [OF sym])

declare Rice_read_ones.simps [simp del]

fun Rice_read_bits :: "nat \<Rightarrow> u32 \<Rightarrow> rice_bitstream \<Rightarrow> u32 \<times> rice_bitstream" where
  "Rice_read_bits 0 x stream = (x, stream)"
| "Rice_read_bits (Suc n) x stream =
     (case Rice_ReadBit stream of
        (b, stream) \<Rightarrow> Rice_read_bits n (push_bit 1 x OR b) stream)"

definition Rice_DecodeWord :: "nat \<Rightarrow> rice_bitstream \<Rightarrow> u32 \<times> rice_bitstream" where
  "Rice_DecodeWord k stream =
     (case Rice_read_ones stream 0 of
        (q, stream) \<Rightarrow>
          (case (if RICE_THRESHOLD < q then
                   let o' = q - RICE_THRESHOLD
                   in case Rice_read_bits (o' - 1) 1 stream of
                        (x, stream) \<Rightarrow> (x + word_of_nat RICE_THRESHOLD, stream)
                 else (word_of_nat q, stream)) of
             (x, stream) \<Rightarrow> Rice_read_bits k x stream))"

subsection \<open>The encoder\<close>

text \<open>The initial \<open>k\<close>: the rounded mean number of bits of the first words, at least 1.\<close>

definition Rice_initial_k :: "byte list \<Rightarrow> nat \<Rightarrow> nat \<Rightarrow> nat" where
  "Rice_initial_k ins incount format =
     (let i = min RICE_HISTORY incount;
          k = sum_list (map (\<lambda>i. Rice_NumBits (Rice_ReadWord ins i format)) [0..<i]);
          k = (k + i div 2) div i
      in if k = 0 then 1 else k)"

text \<open>\<open>Revise optimum k?\<close>, the same lines in the encoder and the decoder.\<close>

definition Rice_revise_k :: "nat \<Rightarrow> nat \<Rightarrow> (nat \<Rightarrow> nat) \<Rightarrow> nat" where
  "Rice_revise_k i k hist =
     (if RICE_HISTORY \<le> i
      then (sum_list (map hist [0..<RICE_HISTORY]) + RICE_HISTORY div 2) div RICE_HISTORY
      else k)"

text \<open>The encoding loop returns \<open>i\<close> and the stream.\<close>

function Rice_Compress_loop ::
  "byte list \<Rightarrow> nat \<Rightarrow> nat \<Rightarrow> nat \<Rightarrow> nat \<Rightarrow> nat \<Rightarrow> (nat \<Rightarrow> nat) \<Rightarrow> rice_bitstream
    \<Rightarrow> (nat \<times> rice_bitstream) option" where
  "Rice_Compress_loop ins insize format incount i k hist stream =
     (if i < incount \<and> BitPos stream div 8 \<le> insize then
        let k = Rice_revise_k i k hist;
            x = Rice_ReadWord ins i format
        in do {
             stream \<leftarrow> Rice_EncodeWord x k stream;
             Rice_Compress_loop ins insize format incount (i + 1) k
               (hist(i mod RICE_HISTORY := Rice_NumBits x)) stream
           }
      else Some (i, stream))"
  by pat_completeness auto
termination
  by (relation "measure (\<lambda>(ins, insize, format, incount, i, k, hist, stream). incount - i)") auto

declare Rice_Compress_loop.simps [simp del]

text \<open>The fallback: a zero byte, then the words as they are.\<close>

definition Rice_raw_word :: "nat \<Rightarrow> u32 \<Rightarrow> rice_bitstream \<Rightarrow> rice_bitstream" where
  "Rice_raw_word wordsize x stream =
     fold (\<lambda>j s. Rice_WriteBit s (drop_bit j x AND 1)) (rev [0..<wordsize]) stream"

definition Rice_raw :: "byte list \<Rightarrow> nat \<Rightarrow> nat \<Rightarrow> nat \<Rightarrow> rice_bitstream \<Rightarrow> rice_bitstream" where
  "Rice_raw ins format wordsize incount stream =
     fold (\<lambda>i s. Rice_raw_word wordsize (Rice_ReadWord ins i format) s) [0..<incount]
       (stream\<lparr>BytePtr := (BytePtr stream)[0 := 0], BitPos := 8\<rparr>)"

text \<open>\<open>out\<close> is the output buffer as it is handed over; the result is the part of it that is used.\<close>

definition Rice_Compress ::
  "(nat \<Rightarrow> nat) \<Rightarrow> byte list \<Rightarrow> byte list \<Rightarrow> nat \<Rightarrow> nat \<Rightarrow> byte list option" where
  "Rice_Compress hist0 ins out insize format =
     (case Rice_wordsize format of
        None \<Rightarrow> Some []
      | Some wordsize \<Rightarrow>
          let incount = insize div (wordsize div 8)
          in if incount = 0 then Some []
             else
               let k = Rice_initial_k ins incount format;
                   stream = Rice_InitBitstream (out[0 := to_byte k]) (insize + 1);
                   stream = stream\<lparr>BitPos := 8\<rparr>
               in do {
                    (i, stream) \<leftarrow>
                      Rice_Compress_loop ins insize format incount 0 k hist0 stream;
                    let stream = (if i < incount then Rice_raw ins format wordsize incount stream
                                  else stream);
                    Some (take ((BitPos stream + 7) div 8) (BytePtr stream))
                  })"

subsection \<open>The decoder\<close>

fun Rice_raw_loop :: "nat \<Rightarrow> nat \<Rightarrow> nat \<Rightarrow> rice_bitstream \<Rightarrow> byte list \<Rightarrow> byte list" where
  "Rice_raw_loop format wordsize 0 stream out = out"
| "Rice_raw_loop format wordsize (Suc n) stream out =
     (case Rice_read_bits wordsize 0 stream of
        (x, stream) \<Rightarrow> Rice_raw_loop format wordsize n stream (out @ Rice_WriteWord format x))"

function Rice_Uncompress_loop ::
  "nat \<Rightarrow> nat \<Rightarrow> nat \<Rightarrow> nat \<Rightarrow> (nat \<Rightarrow> nat) \<Rightarrow> rice_bitstream \<Rightarrow> byte list \<Rightarrow> byte list" where
  "Rice_Uncompress_loop format outcount i k hist stream out =
     (if i < outcount then
        let k = Rice_revise_k i k hist
        in case Rice_DecodeWord k stream of
             (x, stream) \<Rightarrow>
               Rice_Uncompress_loop format outcount (i + 1) k
                 (hist(i mod RICE_HISTORY := Rice_NumBits x)) stream
                 (out @ Rice_WriteWord format x)
      else out)"
  by pat_completeness auto
termination
  by (relation "measure (\<lambda>(format, outcount, i, k, hist, stream, out). outcount - i)") auto

declare Rice_Uncompress_loop.simps [simp del]

text \<open>\<open>None\<close> is the read of \<open>in[ 0 ]\<close> from an empty input.\<close>

definition Rice_Uncompress ::
  "(nat \<Rightarrow> nat) \<Rightarrow> byte list \<Rightarrow> nat \<Rightarrow> nat \<Rightarrow> byte list option" where
  "Rice_Uncompress hist0 ins outsize format =
     (case Rice_wordsize format of
        None \<Rightarrow> Some []
      | Some wordsize \<Rightarrow>
          let outcount = outsize div (wordsize div 8)
          in if outcount = 0 then Some []
             else
               let stream = Rice_InitBitstream ins (length ins)
               in case ins of
                    [] \<Rightarrow> None
                  | b # _ \<Rightarrow>
                      let k = unat b;
                          stream = stream\<lparr>BitPos := 8\<rparr>
                      in if k = 0 then Some (Rice_raw_loop format wordsize outcount stream [])
                         else Some (Rice_Uncompress_loop format outcount 0 k hist0 stream []))"

subsection \<open>Writing bits\<close>

text \<open>
  \<open>Rice_wrote s bs s'\<close>: the stream got the bits \<open>bs\<close>, as far as its buffer holds them; the rest
  is dropped, as \<open>_Rice_WriteBit\<close> does.
\<close>

definition Rice_ok :: "rice_bitstream \<Rightarrow> bool" where
  "Rice_ok s \<longleftrightarrow> NumBytes s \<le> length (BytePtr s) \<and> BitPos s \<le> 8 * NumBytes s"

definition Rice_bits :: "rice_bitstream \<Rightarrow> bool list" where
  "Rice_bits s = take (BitPos s) (bits_of (BytePtr s))"

definition Rice_wrote :: "rice_bitstream \<Rightarrow> bool list \<Rightarrow> rice_bitstream \<Rightarrow> bool" where
  "Rice_wrote s bs s' \<longleftrightarrow>
     Rice_ok s' \<and> NumBytes s' = NumBytes s \<and> length (BytePtr s') = length (BytePtr s) \<and>
     Rice_bits s' = take (8 * NumBytes s) (Rice_bits s @ bs)"

lemma length_Rice_bits: "Rice_ok s \<Longrightarrow> length (Rice_bits s) = BitPos s"
  by (auto simp: Rice_ok_def Rice_bits_def)

lemma Rice_wrote_pos:
  "Rice_ok s \<Longrightarrow> Rice_wrote s bs s' \<Longrightarrow> BitPos s' = min (8 * NumBytes s) (BitPos s + length bs)"
  using length_Rice_bits [of s] length_Rice_bits [of s'] by (simp add: Rice_wrote_def)

lemma Rice_wrote_Nil: "Rice_ok s \<Longrightarrow> Rice_wrote s [] s"
  using length_Rice_bits [of s] by (simp add: Rice_wrote_def Rice_ok_def)

lemma take_take_append: "take n (take n xs @ ys) = take n (xs @ ys)"
  by (cases "length xs \<le> n") simp_all

lemma Rice_wrote_trans: "Rice_wrote s a s' \<Longrightarrow> Rice_wrote s' b s'' \<Longrightarrow> Rice_wrote s (a @ b) s''"
  by (simp only: Rice_wrote_def take_take_append append_assoc simp_thms)

lemma Rice_set_bit:
  fixes b :: byte
  assumes "m < 8" and "j < 8"
  shows "bit (ucast ((ucast b AND (mask 8 XOR push_bit j 1)) OR push_bit j (x AND 1) :: u32) :: byte) m
    = (if m = j then odd x else bit b m)"
  using assms by (auto simp: bit_simps bit_0 possible_bit_word)

lemma Rice_wrote_WriteBit:
  assumes "Rice_ok s"
  shows "Rice_wrote s [odd x] (Rice_WriteBit s x)"
proof (cases "BitPos s div 8 < NumBytes s")
  case True
  let ?j = "7 - BitPos s mod 8"
  let ?b = "ucast ((ucast (BytePtr s ! (BitPos s div 8)) AND (0xff XOR push_bit ?j 1))
    OR push_bit ?j (x AND 1) :: u32) :: byte"
  have ff: "(0xff :: u32) = mask 8" by (simp add: mask_eq_exp_minus_1)
  have n: "BitPos s < 8 * length (BytePtr s)" using True assms by (auto simp: Rice_ok_def)
  have "bit ?b m = (if m = ?j then odd x else bit (BytePtr s ! (BitPos s div 8)) m)" if "m < 8" for m
    unfolding ff using that by (intro Rice_set_bit) auto
  from take_bits_of_update [OF n this] True assms n show ?thesis
    by (auto simp: Rice_wrote_def Rice_WriteBit_def Let_def Rice_ok_def Rice_bits_def)
next
  case False
  then have full: "BitPos s = 8 * NumBytes s" using assms by (auto simp: Rice_ok_def)
  with assms length_Rice_bits [OF assms] show ?thesis
    by (simp add: Rice_wrote_def Rice_WriteBit_def)
qed

lemma Rice_wrote_ok: "Rice_wrote s bs s' \<Longrightarrow> Rice_ok s'"
  by (simp add: Rice_wrote_def)

lemma Rice_wrote_fold:
  assumes "Rice_ok s" and "\<And>j. j \<in> set js \<Longrightarrow> odd (f j) = g j"
  shows "Rice_wrote s (map g js) (fold (\<lambda>j s. Rice_WriteBit s (f j)) js s)"
  using assms
proof (induction js arbitrary: s)
  case (Cons j js)
  have "Rice_wrote s [g j] (Rice_WriteBit s (f j))"
    using Rice_wrote_WriteBit [OF Cons.prems(1), of "f j"] Cons.prems(2) by simp
  with Cons.IH [of "Rice_WriteBit s (f j)"] Cons.prems(2) show ?case
    using Rice_wrote_trans [of s "[g j]"] Rice_wrote_ok by simp
qed (simp add: Rice_wrote_Nil)

lemma Rice_wrote_ones:
  "Rice_ok s \<Longrightarrow> Rice_wrote s (replicate n True) (fold (\<lambda>_ s. Rice_WriteBit s 1) [0..<n] s)"
  using Rice_wrote_fold [of s "[0..<n]" "\<lambda>_. 1" "\<lambda>_. True"] by (simp add: map_replicate_const)

lemma Rice_wrote_word_bits:
  "Rice_ok s \<Longrightarrow> Rice_wrote s (word_bits n x) (fold (\<lambda>j s. Rice_WriteBit s (drop_bit j x AND 1)) (rev [0..<n]) s)"
  unfolding word_bits_def
  by (rule Rice_wrote_fold) (simp_all add: bit_iff_odd_drop_bit even_and_iff)

text \<open>The code of a word.\<close>

definition Rice_code :: "nat \<Rightarrow> u32 \<Rightarrow> bool list" where
  "Rice_code k x =
     (let q = drop_bit k x
      in if 8 < unat q then
           replicate (8 + Rice_NumBits (q - 8)) True @ [False]
             @ word_bits (Rice_NumBits (q - 8) - 1) (q - 8) @ word_bits k x
         else replicate (unat q) True @ [False] @ word_bits k x)"

lemma Rice_EncodeWord_wrote:
  assumes "Rice_ok s" and "k < 32"
  shows "\<exists>s'. Rice_EncodeWord x k s = Some s' \<and> Rice_wrote s (Rice_code k x) s'"
proof -
  let ?q = "drop_bit k x"
  have k: "32 \<le> k \<longleftrightarrow> False" using assms(2) by simp
  show ?thesis
  proof (cases "8 < unat ?q")
    case True
    let ?n = "Rice_NumBits (?q - 8)"
    define s1 where "s1 = fold (\<lambda>_ s. Rice_WriteBit s 1) [0..<8] s"
    define s2 where "s2 = fold (\<lambda>_ s. Rice_WriteBit s 1) [0..<?n] s1"
    define s3 where "s3 = Rice_WriteBit s2 0"
    define s4 where "s4 = fold (\<lambda>j s. Rice_WriteBit s (drop_bit j (?q - 8) AND 1)) (rev [0..<?n - 1]) s3"
    define s5 where "s5 = fold (\<lambda>j s. Rice_WriteBit s (drop_bit j x AND 1)) (rev [0..<k]) s4"
    have 1: "Rice_wrote s (replicate 8 True) s1"
      unfolding s1_def by (rule Rice_wrote_ones [OF assms(1)])
    have 2: "Rice_wrote s1 (replicate ?n True) s2"
      unfolding s2_def by (rule Rice_wrote_ones [OF Rice_wrote_ok [OF 1]])
    have 3: "Rice_wrote s2 [False] s3"
      using Rice_wrote_WriteBit [OF Rice_wrote_ok [OF 2], of 0] by (simp add: s3_def)
    have 4: "Rice_wrote s3 (word_bits (?n - 1) (?q - 8)) s4"
      unfolding s4_def by (rule Rice_wrote_word_bits [OF Rice_wrote_ok [OF 3]])
    have 5: "Rice_wrote s4 (word_bits k x) s5"
      unfolding s5_def by (rule Rice_wrote_word_bits [OF Rice_wrote_ok [OF 4]])
    have "Rice_EncodeWord x k s = Some s5"
      by (simp only: Rice_EncodeWord_def RICE_THRESHOLD_def Let_def True k if_True if_False
          s1_def s2_def s3_def s4_def s5_def of_nat_numeral)
    moreover have "Rice_wrote s (Rice_code k x) s5"
      using Rice_wrote_trans [OF Rice_wrote_trans [OF Rice_wrote_trans [OF Rice_wrote_trans [OF 1 2] 3] 4] 5] True
      by (simp add: Rice_code_def Let_def replicate_add)
    ultimately show ?thesis by blast
  next
    case False
    define s1 where "s1 = fold (\<lambda>_ s. Rice_WriteBit s 1) [0..<unat ?q] s"
    define s2 where "s2 = Rice_WriteBit s1 0"
    define s3 where "s3 = fold (\<lambda>j s. Rice_WriteBit s (drop_bit j x AND 1)) (rev [0..<k]) s2"
    have 1: "Rice_wrote s (replicate (unat ?q) True) s1"
      unfolding s1_def by (rule Rice_wrote_ones [OF assms(1)])
    have 2: "Rice_wrote s1 [False] s2"
      using Rice_wrote_WriteBit [OF Rice_wrote_ok [OF 1], of 0] by (simp add: s2_def)
    have 3: "Rice_wrote s2 (word_bits k x) s3"
      unfolding s3_def by (rule Rice_wrote_word_bits [OF Rice_wrote_ok [OF 2]])
    have "Rice_EncodeWord x k s = Some s3"
      by (simp only: Rice_EncodeWord_def RICE_THRESHOLD_def Let_def False k if_True if_False
          s1_def s2_def s3_def)
    moreover have "Rice_wrote s (Rice_code k x) s3"
      using Rice_wrote_trans [OF Rice_wrote_trans [OF 1 2] 3] False
      by (simp add: Rice_code_def Let_def)
    ultimately show ?thesis by blast
  qed
qed

subsection \<open>Words and their bytes\<close>

lemma int_min_bit: "bit (0x80000000 :: u32) n \<longleftrightarrow> n = 31"
proof -
  have e: "(0x80000000 :: u32) = 2 ^ 31" by simp
  show ?thesis unfolding e bit_exp_iff by (auto simp: possible_bit_word)
qed

lemma Rice_fold_sign_bit:
  "bit (Rice_fold_sign sx) n = (n < 32 \<and> (if n = 0 then bit sx 31 else bit sx (n - 1) \<noteq> bit sx 31))"
proof -
  have neg: "sx <s 0 \<longleftrightarrow> bit sx 31"
    using bit_last_iff [of sx] by (simp add: word_sless_alt)
  have minus: "- 1 - y = NOT y" for y :: u32
    by (simp add: not_eq_complement)
  show ?thesis
    unfolding Rice_fold_sign_def neg minus if_distrib [of "\<lambda>y. bit y n"] bit_not_iff bit_push_bit_iff
      possible_bit_word
    using bit_imp_le_length [of sx "n - 1"] by (cases n) auto
qed

lemma drop_bit_Suc_odd:
  fixes x :: u32
  assumes "odd x" and "x \<noteq> - 1"
  shows "drop_bit 1 (x + 1) = drop_bit 1 x + 1"
proof -
  have "unat (x + 1) = Suc (unat x)"
    using assms(2) by (metis Suc_eq_plus1 add.commute eq_neg_iff_add_eq_0 unatSuc)
  moreover have "odd (unat x)" using assms(1) by (simp add: bit_unsigned_iff possible_bit_nat flip: bit_0)
  ultimately have "unat (drop_bit 1 (x + 1)) = Suc (unat (drop_bit 1 x))"
    unfolding unat_drop_bit_eq by (auto simp: drop_bit_Suc elim: oddE)
  then have "word_of_nat (unat (drop_bit 1 (x + 1))) = (word_of_nat (Suc (unat (drop_bit 1 x))) :: u32)"
    by (rule arg_cong)
  then show ?thesis
    unfolding of_nat_Suc of_nat_unat by (simp add: add.commute)
qed

lemma Rice_unfold_sign_bit:
  assumes "x \<noteq> - 1"
  shows "bit (Rice_unfold_sign x) n = (n < 32 \<and> (if n = 31 then odd x else bit x (Suc n) \<noteq> odd x))"
proof -
  have o: "x AND 1 \<noteq> 0 \<longleftrightarrow> odd x"
    by (simp add: and_one_eq odd_iff_mod_2_eq_one)
  have minus: "- (y + 1) = NOT y" for y :: u32
    by (simp add: not_eq_complement)
  have "Rice_unfold_sign x = (if odd x then NOT (drop_bit 1 x) else drop_bit 1 x)"
  proof (cases "odd x")
    case True
    show ?thesis unfolding Rice_unfold_sign_def o drop_bit_Suc_odd [OF True assms] minus by (rule refl)
  next
    case False
    then show ?thesis unfolding Rice_unfold_sign_def o by (simp only: if_False)
  qed
  then have "bit (Rice_unfold_sign x) n = (if odd x then n < 32 \<and> \<not> bit x (Suc n) else bit x (Suc n))"
    by (simp only: bit_not_iff bit_drop_bit_eq possible_bit_word len_of_numeral_defs if_distrib [of "\<lambda>y. bit y n"] comp_def
        plus_1_eq_Suc) simp
  with bit_imp_le_length [of x "Suc n"] show ?thesis by auto
qed

lemma Rice_unfold_fold:
  assumes "sx \<noteq> 0x80000000"
  shows "Rice_unfold_sign (Rice_fold_sign sx) = sx"
proof -
  have "Rice_fold_sign sx \<noteq> - 1"
  proof
    assume all: "Rice_fold_sign sx = - 1"
    then have "bit sx 31" using Rice_fold_sign_bit [of sx 0] by simp
    moreover have "\<not> bit sx n" if "n < 31" for n
      using Rice_fold_sign_bit [of sx "Suc n"] that all \<open>bit sx 31\<close> by simp
    ultimately have "bit sx n \<longleftrightarrow> n = 31" if "n < 32" for n
      using that by (cases "n = 31") auto
    then have "sx = 0x80000000"
      by (intro bit_word_eqI) (simp add: int_min_bit del: bit_numeral_word_iff)
    with assms show False by simp
  qed
  then show ?thesis
    by (intro bit_word_eqI) (auto simp: Rice_unfold_sign_bit Rice_fold_sign_bit simp flip: bit_0 dest: bit_imp_le_length)
qed

lemma Rice_fold_sign_fits: "m < 31 \<Longrightarrow> take_bit (Suc m) (Rice_fold_sign (signed_take_bit m y)) = Rice_fold_sign (signed_take_bit m y)"
  by (intro bit_word_eqI) (auto simp: Rice_fold_sign_bit bit_simps min_def)

lemma le_word_bit:
  "bit (le_word bs) n = (n < 32 \<and> n < 8 * length bs \<and> bit (bs ! (n div 8)) (n mod 8))"
proof (induction bs arbitrary: n)
  case (Cons b bs)
  have "le_word (b # bs) = ucast b OR push_bit 8 (le_word bs)"
    by (simp add: le_word_def)
  then show ?case
    using Cons.IH [of "n - 8"] bit_imp_le_length [of b n]
    by (cases "n < 8") (auto simp: bit_simps nth_Cons' le_div_geq le_mod_geq simp del: bit_ucast_iff)
qed (simp add: le_word_def)

lemma bytes_le_word:
  assumes "n \<le> 4" and "n * Suc idx \<le> length ptr"
    and "\<And>m. m < 8 * n \<Longrightarrow> bit x m = bit (nth_word n ptr idx) m"
  shows "bytes_le n x = take n (drop (n * idx) ptr)"
proof (intro nth_equalityI)
  fix j
  assume "j < length (bytes_le n x)"
  then have j: "j < n" by (simp add: bytes_le_def)
  show "bytes_le n x ! j = take n (drop (n * idx) ptr) ! j"
  proof (rule bit_word_eqI)
    fix m
    assume "m < LENGTH(8)"
    then have "m < 8" by simp
    then have "(8 * j + m) div 8 = j" "(8 * j + m) mod 8 = m" by simp_all
    moreover have "8 * j + m < 8 * n" "8 * j + m < 32" using j \<open>m < 8\<close> assms(1) by linarith+
    ultimately show "bit (bytes_le n x ! j) m = bit (take n (drop (n * idx) ptr) ! j) m"
      using j \<open>m < 8\<close> assms
      by (simp add: bytes_le_def bit_simps nth_word_def le_word_bit)
  qed
qed (use assms in \<open>simp add: bytes_le_def\<close>)

lemma Rice_WriteWord_ReadWord:
  assumes "Rice_wordsize format = Some ws" and "ws div 8 * Suc i \<le> length ins"
    and "format = RICE_FMT_INT32 \<longrightarrow> nth_word 4 ins i \<noteq> 0x80000000"
  shows "Rice_WriteWord format (Rice_ReadWord ins i format)
    = take (ws div 8) (drop (ws div 8 * i) ins)"
proof -
  have signed: "bytes_le n (Rice_unfold_sign (Rice_fold_sign (signed_take_bit m (nth_word n ins i))))
      = take n (drop (n * i) ins)"
    if "n * Suc i \<le> length ins" "m = 8 * n - 1" "0 < n" "n < 4" for n m
  proof -
    have m: "min m 31 = m" "m < 32" using that by simp_all
    have "signed_take_bit m (nth_word n ins i) \<noteq> 0x80000000"
    proof
      assume "signed_take_bit m (nth_word n ins i) = 0x80000000"
      then have "bit (signed_take_bit m (nth_word n ins i)) 31 \<and> \<not> bit (signed_take_bit m (nth_word n ins i)) m"
        using that by (simp only: int_min_bit) auto
      then show False using m(2) by (simp add: bit_signed_take_bit_iff m possible_bit_word)
    qed
    then show ?thesis
      using that by (subst Rice_unfold_fold)
        (auto intro!: bytes_le_word simp: bit_signed_take_bit_iff min_absorb2 possible_bit_word)
  qed
  have "bytes_le n (nth_word n ins i) = take n (drop (n * i) ins)"
    if "n * Suc i \<le> length ins" "n \<le> 4" for n
    using that by (intro bytes_le_word) auto
  with signed [of 1 7] signed [of 2 15] assms show ?thesis
    by (auto simp: Rice_wordsize_def Rice_WriteWord_def Rice_ReadWord_def RICE_FMT_defs Rice_unfold_fold
        split: if_splits)
qed

lemma nth_word_fits: "take_bit (8 * n) (nth_word n ins i) = nth_word n ins i"
  by (intro bit_word_eqI) (auto simp: nth_word_def le_word_bit bit_take_bit_iff)

lemma Rice_ReadWord_fits:
  assumes "Rice_wordsize format = Some ws"
  shows "take_bit ws (Rice_ReadWord ins i format) = Rice_ReadWord ins i format"
  using assms Rice_fold_sign_fits [of 7 "nth_word 1 ins i"] Rice_fold_sign_fits [of 15 "nth_word 2 ins i"]
    nth_word_fits [of 1 ins i] nth_word_fits [of 2 ins i]
  by (auto simp: Rice_wordsize_def Rice_ReadWord_def RICE_FMT_defs take_bit_word_eq_self split: if_splits)

subsection \<open>Reading bits\<close>

definition Rice_at :: "rice_bitstream \<Rightarrow> bool list \<Rightarrow> bool" where
  "Rice_at s bs \<longleftrightarrow> Rice_ok s \<and> drop (BitPos s) (take (8 * NumBytes s) (bits_of (BytePtr s))) = bs"

lemma Rice_ReadBit_at:
  assumes "Rice_at s (b # r)"
  shows "\<exists>s'. Rice_ReadBit s = (of_bool b, s') \<and> Rice_at s' r"
proof -
  let ?l = "take (8 * NumBytes s) (bits_of (BytePtr s))"
  have ok: "Rice_ok s" and d: "drop (BitPos s) ?l = b # r"
    using assms by (auto simp: Rice_at_def)
  have "BitPos s < length ?l"
    using d by (metis drop_eq_Nil leI list.distinct(1))
  with ok have pos: "BitPos s < 8 * NumBytes s" and len: "NumBytes s \<le> length (BytePtr s)"
    by (auto simp: Rice_ok_def)
  have "b = ?l ! BitPos s"
    using d \<open>BitPos s < length ?l\<close> by (metis hd_drop_conv_nth list.sel(1))
  then have b: "b = bit (BytePtr s ! (BitPos s div 8)) (7 - BitPos s mod 8)"
    using pos len by (simp add: bits_of_nth)
  have "drop (Suc (BitPos s)) ?l = r"
    using d by (metis drop_Suc list.sel(3) tl_drop)
  moreover have "drop_bit j (ucast y) AND 1 = (of_bool (bit y j) :: u32)" for y :: byte and j
    using bit_imp_le_length [of y j]
    by (intro bit_word_eqI)
      (simp only: bit_and_iff bit_1_iff bit_drop_bit_eq comp_def bit_of_bool_iff bit_ucast_iff
        possible_bit_word, auto)
  ultimately show ?thesis
    using ok pos by (auto simp: Rice_ReadBit_def Rice_at_def Rice_ok_def b Let_def)
qed

lemma Rice_read_ones_at:
  "Rice_at s (replicate n True @ False # r) \<Longrightarrow> \<exists>s'. Rice_read_ones s q = (q + n, s') \<and> Rice_at s' r"
proof (induction n arbitrary: s q)
  case 0
  then show ?case
    using Rice_ReadBit_at [of s False r] by (auto simp: Rice_read_ones.simps)
next
  case (Suc n)
  then obtain s' where s': "Rice_ReadBit s = (1, s')" "Rice_at s' (replicate n True @ False # r)"
    using Rice_ReadBit_at [of s True "replicate n True @ False # r"] by auto
  from Suc.IH [OF s'(2), of "Suc q"] s'(1) show ?case
    by (simp add: Rice_read_ones.simps [of s q])
qed

lemma Rice_read_bits_at:
  "Rice_at s (bs @ r) \<Longrightarrow>
   \<exists>s'. Rice_read_bits (length bs) x s = (fold (\<lambda>b v. shift_in v b) bs x, s') \<and> Rice_at s' r"
proof (induction bs arbitrary: s x)
  case (Cons b bs)
  then show ?case
    using Rice_ReadBit_at [of s b "bs @ r"] by (fastforce simp: shift_in_def)
qed simp

lemma Rice_read_word_bits:
  "Rice_at s (word_bits n x @ r) \<Longrightarrow>
   \<exists>s'. Rice_read_bits n v s = (push_bit n v OR take_bit n x, s') \<and> Rice_at s' r"
  using Rice_read_bits_at [of s "word_bits n x" r v] by (simp add: shift_in_bits)


subsection \<open>Decoding a word\<close>

lemma Rice_NumBits_loop_spec:
  assumes "n \<le> 32" and "Rice_NumBits_loop (push_bit (32 - n) x) n = m"
  shows "m \<le> n \<and> take_bit n x = take_bit m x \<and> (0 < m \<longrightarrow> bit x (m - 1))"
  using assms
proof (induction n arbitrary: m)
  case 0
  then show ?case by (simp add: Rice_NumBits_loop.simps)
next
  case (Suc n)
  let ?y = "push_bit (32 - Suc n) x"
  have top: "y AND 0x80000000 = 0 \<longleftrightarrow> \<not> bit y 31" for y :: u32
  proof -
    have "bit (y AND 0x80000000) j = (j = 31 \<and> bit y 31)" for j
      by (simp only: bit_and_iff int_min_bit) blast
    then show ?thesis by (simp add: bit_eq_iff [of "y AND 0x80000000" 0])
  qed
  have bit: "bit ?y 31 \<longleftrightarrow> bit x n"
    using Suc.prems(1) by (simp only: bit_push_bit_iff possible_bit_word) auto
  show ?case
  proof (cases "bit x n")
    case True
    then have "m = Suc n"
      using Suc.prems(2) unfolding Rice_NumBits_loop.simps [of ?y] top bit by simp
    with True show ?thesis by simp
  next
    case False
    have "push_bit 1 ?y = push_bit (32 - n) x"
    proof -
      have "1 + (32 - Suc n) = 32 - n" using Suc.prems(1) by simp
      then show ?thesis by (simp only: push_bit_push_bit)
    qed
    then have "Rice_NumBits_loop (push_bit (32 - n) x) n = m"
      using Suc.prems(2) False unfolding Rice_NumBits_loop.simps [of ?y] top bit by simp
    with Suc.IH [of m] Suc.prems(1) have IH: "m \<le> n" "take_bit n x = take_bit m x" "0 < m \<longrightarrow> bit x (m - 1)"
      by simp_all
    have "take_bit (Suc n) x = take_bit n x"
      using False by (intro bit_word_eqI) (auto simp: bit_take_bit_iff less_Suc_eq)
    with IH show ?thesis by simp
  qed
qed

lemma Rice_NumBits_le: "Rice_NumBits x \<le> 32"
  and Rice_NumBits_take: "take_bit (Rice_NumBits x) x = x"
  and Rice_NumBits_top: "x \<noteq> 0 \<Longrightarrow> 0 < Rice_NumBits x \<and> bit x (Rice_NumBits x - 1)"
proof -
  have s: "Rice_NumBits x \<le> 32 \<and> take_bit 32 x = take_bit (Rice_NumBits x) x
      \<and> (0 < Rice_NumBits x \<longrightarrow> bit x (Rice_NumBits x - 1))"
    by (rule Rice_NumBits_loop_spec) (simp_all add: Rice_NumBits_def)
  then show "Rice_NumBits x \<le> 32" by blast
  from s show t: "take_bit (Rice_NumBits x) x = x"
    by (simp add: take_bit_word_eq_self)
  show "x \<noteq> 0 \<Longrightarrow> 0 < Rice_NumBits x \<and> bit x (Rice_NumBits x - 1)"
    using s t by (cases "Rice_NumBits x = 0") auto
qed

lemma Rice_NumBits_0: "Rice_NumBits 0 = 0"
proof (rule ccontr)
  have "Rice_NumBits 0 \<le> 32 \<and> take_bit 32 (0 :: u32) = take_bit (Rice_NumBits 0) 0
      \<and> (0 < Rice_NumBits 0 \<longrightarrow> bit (0 :: u32) (Rice_NumBits 0 - 1))"
    by (rule Rice_NumBits_loop_spec) (simp_all add: Rice_NumBits_def)
  then show "Rice_NumBits 0 \<noteq> 0 \<Longrightarrow> False" by simp
qed

lemma Rice_NumBits_least: "take_bit n x = x \<Longrightarrow> Rice_NumBits x \<le> n"
proof (rule ccontr)
  assume x: "take_bit n x = x" and "\<not> Rice_NumBits x \<le> n"
  then have "x \<noteq> 0" "n \<le> Rice_NumBits x - 1" 
    by (auto simp: Rice_NumBits_0)
  with Rice_NumBits_top have "bit x (Rice_NumBits x - 1)" by blast
  with x \<open>n \<le> Rice_NumBits x - 1\<close> show False by (metis bit_take_bit_iff leD)
qed

lemma Rice_DecodeWord_at:
  assumes "Rice_at s (Rice_code k x @ r)"
  shows "\<exists>s'. Rice_DecodeWord k s = (x, s') \<and> Rice_at s' r"
proof -
  let ?q = "drop_bit k x"
  have x: "push_bit k ?q OR take_bit k x = x"
    by (intro bit_word_eqI) (auto simp: bit_simps)
  show ?thesis
  proof (cases "8 < unat ?q")
    case False
    with assms obtain s1 where 1: "Rice_read_ones s 0 = (unat ?q, s1)" "Rice_at s1 (word_bits k x @ r)"
      using Rice_read_ones_at [of s "unat ?q" "word_bits k x @ r" 0] by (auto simp: Rice_code_def Let_def)
    from Rice_read_word_bits [OF 1(2), of ?q] show ?thesis
      using False 1(1) by (simp add: Rice_DecodeWord_def RICE_THRESHOLD_def x)
  next
    case True
    let ?p = "?q - 8"
    let ?n = "Rice_NumBits ?p"
    have "?p \<noteq> 0" using True by auto
    then have n: "0 < ?n" "bit ?p (?n - 1)" using Rice_NumBits_top [of ?p] by auto
    have p: "push_bit (?n - 1) 1 OR take_bit (?n - 1) ?p = ?p"
    proof (rule bit_word_eqI)
      fix j assume "j < LENGTH(32)"
      have "bit ?p j \<longleftrightarrow> j < ?n \<and> bit ?p j"
        by (metis Rice_NumBits_take bit_take_bit_iff)
      moreover have "j < ?n \<longleftrightarrow> j < ?n - 1 \<or> j = ?n - 1" using n(1) by linarith
      ultimately show "bit (push_bit (?n - 1) 1 OR take_bit (?n - 1) ?p) j = bit ?p j"
        using n(2) bit_imp_le_length [OF n(2)]
        by (simp only: bit_or_iff bit_push_bit_iff bit_take_bit_iff bit_1_iff possible_bit_word) auto
    qed
    from assms True obtain s1 where 1: "Rice_read_ones s 0 = (8 + ?n, s1)"
      "Rice_at s1 (word_bits (?n - 1) ?p @ word_bits k x @ r)"
      using Rice_read_ones_at [of s "8 + ?n" "word_bits (?n - 1) ?p @ word_bits k x @ r" 0]
      by (auto simp: Rice_code_def Let_def)
    from Rice_read_word_bits [OF 1(2), of 1] obtain s2 where
      2: "Rice_read_bits (?n - 1) 1 s1 = (?p, s2)" "Rice_at s2 (word_bits k x @ r)"
      unfolding p by blast
    from Rice_read_word_bits [OF 2(2), of ?q] show ?thesis
      using n(1) 1(1) 2(1) by (simp add: Rice_DecodeWord_def RICE_THRESHOLD_def x)
  qed
qed

subsection \<open>The encoder and the decoder meet\<close>

text \<open>The bits of the words of the input from the \<open>i\<close>-th on, with the history the loops keep.\<close>

fun Rice_codes :: "u32 list \<Rightarrow> nat \<Rightarrow> nat \<Rightarrow> (nat \<Rightarrow> nat) \<Rightarrow> bool list" where
  "Rice_codes [] i k hist = []"
| "Rice_codes (x # xs) i k hist =
     (let k = Rice_revise_k i k hist
      in Rice_code k x @ Rice_codes xs (i + 1) k (hist(i mod RICE_HISTORY := Rice_NumBits x)))"

text \<open>The history agrees on the words seen so far, whatever the array held at first.\<close>

definition Rice_hist_eq :: "nat \<Rightarrow> (nat \<Rightarrow> nat) \<Rightarrow> (nat \<Rightarrow> nat) \<Rightarrow> bool" where
  "Rice_hist_eq i h h' \<longleftrightarrow> (\<forall>j. j < min i RICE_HISTORY \<longrightarrow> h j = h' j)"

lemma Rice_hist_eq_0: "Rice_hist_eq 0 h h'"
  by (simp add: Rice_hist_eq_def)

lemma Rice_hist_eq_revise: "Rice_hist_eq i h h' \<Longrightarrow> Rice_revise_k i k h = Rice_revise_k i k h'"
  by (auto simp: Rice_hist_eq_def Rice_revise_k_def intro!: arg_cong [where f = "\<lambda>s. (s + _) div _"]
      arg_cong [where f = sum_list])

lemma Rice_hist_eq_step:
  "Rice_hist_eq i h h' \<Longrightarrow>
   Rice_hist_eq (Suc i) (h(i mod RICE_HISTORY := n)) (h'(i mod RICE_HISTORY := n))"
  by (cases "i < RICE_HISTORY") (auto simp: Rice_hist_eq_def less_Suc_eq)

lemma Rice_EncodeWord_Some: "Rice_EncodeWord x k s = Some s' \<Longrightarrow> k < 32"
  by (auto simp: Rice_EncodeWord_def split: if_splits)

lemma Rice_Compress_loop_wrote:
  assumes "Rice_Compress_loop ins insize format n i k hist s = Some (i', s')" and "Rice_ok s"
    and "i \<le> n" and "NumBytes s = insize + 1"
  shows "i \<le> i' \<and> i' \<le> n \<and> (i' < n \<longrightarrow> BitPos s' = 8 * NumBytes s) \<and>
    Rice_wrote s (Rice_codes (map (\<lambda>i. Rice_ReadWord ins i format) [i..<i']) i k hist) s'"
  using assms
proof (induction ins insize format n i k hist s rule: Rice_Compress_loop.induct)
  case (1 ins insize format n i k hist s)
  let ?k = "Rice_revise_k i k hist"
  let ?x = "Rice_ReadWord ins i format"
  let ?h = "hist(i mod RICE_HISTORY := Rice_NumBits ?x)"
  show ?case
  proof (cases "i < n \<and> BitPos s div 8 \<le> insize")
    case True
    with 1(2) obtain s1 where s1: "Rice_EncodeWord ?x ?k s = Some s1"
      and rest: "Rice_Compress_loop ins insize format n (i + 1) ?k ?h s1 = Some (i', s')"
      by (subst (asm) Rice_Compress_loop.simps) (auto simp: Let_def bind_eq_Some_conv)
    from Rice_EncodeWord_wrote [OF 1(3) Rice_EncodeWord_Some [OF s1], of ?x] s1
    have w: "Rice_wrote s (Rice_code ?k ?x) s1" by simp
    then have nb: "NumBytes s1 = NumBytes s" by (simp add: Rice_wrote_def)
    then have "i + 1 \<le> i' \<and> i' \<le> n \<and> (i' < n \<longrightarrow> BitPos s' = 8 * NumBytes s1) \<and>
      Rice_wrote s1 (Rice_codes (map (\<lambda>i. Rice_ReadWord ins i format) [i + 1..<i']) (i + 1) ?k ?h) s'"
      by (intro 1(1) [OF True refl refl s1 rest Rice_wrote_ok [OF w]]) (use True 1(5) in simp_all)
    then have IH: "i + 1 \<le> i'" "i' \<le> n" "i' < n \<longrightarrow> BitPos s' = 8 * NumBytes s"
      "Rice_wrote s1 (Rice_codes (map (\<lambda>i. Rice_ReadWord ins i format) [i + 1..<i']) (i + 1) ?k ?h) s'"
      unfolding nb by iprover+
    from IH(1) have "[i..<i'] = i # [i + 1..<i']" by (simp add: upt_conv_Cons)
    with IH Rice_wrote_trans [OF w IH(4)] show ?thesis by (simp add: Let_def del: fun_upd_apply)
  next
    case False
    with 1(2) have "i' = i" "s' = s"
      by (subst (asm) Rice_Compress_loop.simps; simp)+
    with False 1(3-5) show ?thesis
      by (auto simp: Rice_wrote_Nil Rice_ok_def)
  qed
qed

lemma Rice_Uncompress_loop_at:
  assumes "Rice_at s (Rice_codes xs i k hist @ r)" and "Rice_hist_eq i hist hist'"
  shows "Rice_Uncompress_loop format (i + length xs) i k hist' s out
    = out @ concat (map (Rice_WriteWord format) xs)"
  using assms
proof (induction xs arbitrary: i k hist hist' s out)
  case Nil
  then show ?case by (simp add: Rice_Uncompress_loop.simps)
next
  case (Cons x xs)
  let ?k = "Rice_revise_k i k hist"
  have k: "Rice_revise_k i k hist' = ?k"
    using Rice_hist_eq_revise [OF Cons.prems(2)] by simp
  obtain s1 where s1: "Rice_DecodeWord ?k s = (x, s1)"
    "Rice_at s1 (Rice_codes xs (Suc i) ?k (hist(i mod RICE_HISTORY := Rice_NumBits x)) @ r)"
    using Rice_DecodeWord_at [of s ?k x] Cons.prems(1) by (auto simp: Let_def)
  from Cons.IH [OF s1(2) Rice_hist_eq_step [OF Cons.prems(2)]] s1(1) show ?case
    by (subst Rice_Uncompress_loop.simps) (simp add: k Let_def del: fun_upd_apply)
qed

lemma Rice_raw_loop_at:
  assumes "Rice_at s (concat (map (word_bits ws) xs) @ r)" and "\<forall>x\<in>set xs. take_bit ws x = x"
  shows "Rice_raw_loop format ws (length xs) s out = out @ concat (map (Rice_WriteWord format) xs)"
  using assms
proof (induction xs arbitrary: s out)
  case (Cons x xs)
  then obtain s1 where "Rice_read_bits ws 0 s = (x, s1)" "Rice_at s1 (concat (map (word_bits ws) xs) @ r)"
    using Rice_read_word_bits [of s ws x "concat (map (word_bits ws) xs) @ r" 0] by auto
  with Cons show ?case by simp
qed simp

lemma Rice_raw_wrote:
  assumes "Rice_ok s"
  shows "Rice_wrote s (concat (map (\<lambda>i. word_bits ws (Rice_ReadWord ins i format)) is))
    (fold (\<lambda>i s. Rice_raw_word ws (Rice_ReadWord ins i format) s) is s)"
  using assms
proof (induction "is" arbitrary: s)
  case (Cons i "is")
  let ?s = "Rice_raw_word ws (Rice_ReadWord ins i format) s"
  have w: "Rice_wrote s (word_bits ws (Rice_ReadWord ins i format)) ?s"
    unfolding Rice_raw_word_def by (rule Rice_wrote_word_bits [OF Cons.prems])
  from Rice_wrote_trans [OF w Cons.IH [OF Rice_wrote_ok [OF w]]] show ?case by simp
qed (simp add: Rice_wrote_Nil)

subsection \<open>The whole block\<close>

definition Rice_words :: "byte list \<Rightarrow> nat \<Rightarrow> nat \<Rightarrow> u32 list" where
  "Rice_words ins n format = map (\<lambda>i. Rice_ReadWord ins i format) [0..<n]"

lemma Rice_words_bytes:
  assumes "Rice_wordsize format = Some ws" and "ws div 8 * n \<le> length ins"
    and "format = RICE_FMT_INT32 \<longrightarrow> (\<forall>i<n. nth_word 4 ins i \<noteq> 0x80000000)"
  shows "concat (map (Rice_WriteWord format) (Rice_words ins n format)) = take (ws div 8 * n) ins"
  using assms(2,3)
proof (induction n)
  case (Suc n)
  have "Rice_WriteWord format (Rice_ReadWord ins n format) = take (ws div 8) (drop (ws div 8 * n) ins)"
    using Suc.prems by (intro Rice_WriteWord_ReadWord [OF assms(1)]) auto
  moreover have "take (ws div 8 * Suc n) ins = take (ws div 8 * n) ins @ take (ws div 8) (drop (ws div 8 * n) ins)"
    by (simp add: take_add [symmetric] add.commute)
  ultimately show ?case using Suc by (simp add: Rice_words_def)
qed (simp add: Rice_words_def)

lemma byte_of_bits:
  assumes "take 8 (bits_of xs) = take 8 (bits_of ys)" and "xs \<noteq> []" and "ys \<noteq> []"
  shows "xs ! 0 = ys ! 0"
proof (rule bit_word_eqI)
  fix m
  assume "m < LENGTH(8)"
  then have m: "7 - m < 8" "7 - (7 - m) = m" by auto
  have "7 - m < 8 * length xs" "7 - m < 8 * length ys"
    using assms(2,3) m(1) by (cases xs; cases ys; simp)+
  with m assms(1) show "bit (xs ! 0) m = bit (ys ! 0) m"
    using bits_of_nth [of "7 - m" xs] bits_of_nth [of "7 - m" ys]
      nth_take [of "7 - m" 8 "bits_of xs"] nth_take [of "7 - m" 8 "bits_of ys"] by simp
qed

text \<open>The part of the buffer that the encoder returns, and what a reader finds in it.\<close>

definition Rice_used :: "rice_bitstream \<Rightarrow> byte list" where
  "Rice_used s = take ((BitPos s + 7) div 8) (BytePtr s)"

definition Rice_holds :: "byte list \<Rightarrow> bool list \<Rightarrow> bool" where
  "Rice_holds z bs \<longleftrightarrow> (\<exists>r. Rice_at \<lparr>BytePtr = z, BitPos = 8, NumBytes = length z\<rparr> (bs @ r))"

lemma Rice_wrote_used:
  assumes w: "Rice_wrote s bs s'" and ok: "Rice_ok s" and pos: "BitPos s = 8"
  shows "Rice_used s' \<noteq> []" and "hd (Rice_used s') = BytePtr s ! 0"
    and "length (Rice_used s') = (min (8 * NumBytes s) (8 + length bs) + 7) div 8"
proof -
  have len: "NumBytes s \<le> length (BytePtr s)" "8 \<le> 8 * NumBytes s"
    "length (BytePtr s') = length (BytePtr s)" "NumBytes s' = NumBytes s"
    using ok w pos by (auto simp: Rice_ok_def Rice_wrote_def)
  have pos': "BitPos s' = min (8 * NumBytes s) (8 + length bs)"
    using Rice_wrote_pos [OF ok w] pos by simp
  with len have ge: "8 \<le> BitPos s'" by simp
  have "take 8 (Rice_bits s') = take 8 (Rice_bits s)"
    using w len(2) length_Rice_bits [OF ok] pos by (simp add: Rice_wrote_def)
  then have "take 8 (bits_of (BytePtr s')) = take 8 (bits_of (BytePtr s))"
    using ge pos by (simp add: Rice_bits_def)
  then have "BytePtr s' ! 0 = BytePtr s ! 0"
    by (rule byte_of_bits) (use len in auto)
  moreover have "0 < (BitPos s' + 7) div 8" "BytePtr s' \<noteq> []" using ge len by auto
  ultimately show "Rice_used s' \<noteq> []" and "hd (Rice_used s') = BytePtr s ! 0"
    by (auto simp: Rice_used_def hd_conv_nth)
  show "length (Rice_used s') = (min (8 * NumBytes s) (8 + length bs) + 7) div 8"
    using len by (auto simp: Rice_used_def pos' min_def)
qed

lemma Rice_wrote_holds:
  assumes w: "Rice_wrote s bs s'" and ok: "Rice_ok s" and pos: "BitPos s = 8"
    and fits: "8 + length bs \<le> 8 * NumBytes s"
  shows "Rice_holds (Rice_used s') bs"
proof -
  let ?z = "Rice_used s'"
  have pos': "BitPos s' = 8 + length bs"
    using Rice_wrote_pos [OF ok w] fits pos by simp
  have "Rice_bits s' = Rice_bits s @ bs"
    using w fits length_Rice_bits [OF ok] pos by (simp add: Rice_wrote_def)
  then have bits: "take (8 + length bs) (bits_of (BytePtr s')) = take 8 (bits_of (BytePtr s)) @ bs"
    using pos pos' by (simp add: Rice_bits_def)
  have lz: "length ?z = (8 + length bs + 7) div 8"
    using Rice_wrote_used(3) [OF w ok pos] fits by simp
  then have lz': "8 + length bs \<le> 8 * length ?z" by linarith
  have "bits_of ?z = take (8 * length ?z) (bits_of (BytePtr s'))"
    using lz pos' by (simp add: Rice_used_def bits_of_take)
  then obtain r where "bits_of ?z = take (8 + length bs) (bits_of (BytePtr s')) @ r"
    using lz' by (metis le_Suc_ex take_add)
  moreover have "length (take 8 (bits_of (BytePtr s))) = 8"
    using ok fits by (simp add: Rice_ok_def)
  ultimately have "drop 8 (bits_of ?z) = bs @ r" unfolding bits by simp
  with lz' show ?thesis by (auto simp: Rice_holds_def Rice_at_def Rice_ok_def)
qed

text \<open>The two ways the encoder ends.\<close>

lemma Rice_mean_le:
  fixes s :: nat
  assumes "s \<le> m * i" and "0 < i"
  shows "(s + i div 2) div i \<le> m"
proof -
  have "s + i div 2 < (m + 1) * i" using assms by simp
  then have "(s + i div 2) div i < m + 1" using assms(2) by (simp add: div_less_iff_less_mult)
  then show ?thesis by simp
qed

lemma Rice_initial_k_le:
  assumes "\<forall>i<n. Rice_NumBits (Rice_ReadWord ins i format) \<le> m" and "0 < n" and "0 < m"
  shows "Rice_initial_k ins n format \<le> m"
proof -
  let ?i = "min RICE_HISTORY n"
  let ?s = "sum_list (map (\<lambda>i. Rice_NumBits (Rice_ReadWord ins i format)) [0..<?i])"
  have "?s \<le> m * ?i"
    using sum_list_mono [of "[0..<?i]" "\<lambda>i. Rice_NumBits (Rice_ReadWord ins i format)" "\<lambda>_. m"] assms(1)
    by (simp add: sum_list_triv mult.commute)
  then have "(?s + ?i div 2) div ?i \<le> m"
    by (rule Rice_mean_le) (use assms(2) in \<open>simp add: RICE_HISTORY_def\<close>)
  with assms(3) show ?thesis by (simp add: Rice_initial_k_def Let_def)
qed

lemma Rice_initial_k_range:
  "0 < Rice_initial_k ins n format" "0 < n \<Longrightarrow> Rice_initial_k ins n format \<le> 32"
  using Rice_initial_k_le [of n ins format 32]
  by (simp_all add: Rice_NumBits_le) (simp add: Rice_initial_k_def Let_def)

lemma Rice_Compress_cases:
  assumes "Rice_Compress hist ins out insize format = Some z" and "Rice_wordsize format = Some ws"
    and n: "n = insize div (ws div 8)" "0 < n" and "insize < length out"
  obtains (coded) s s' where "Rice_ok s" "BitPos s = 8" "NumBytes s = insize + 1"
      "BytePtr s ! 0 = to_byte (Rice_initial_k ins n format)"
      "Rice_wrote s (Rice_codes (Rice_words ins n format) 0 (Rice_initial_k ins n format) hist) s'"
      "z = Rice_used s'"
  | (raw) s s' where "Rice_ok s" "BitPos s = 8" "NumBytes s = insize + 1"
      "BytePtr s ! 0 = 0"
      "Rice_wrote s (concat (map (word_bits ws) (Rice_words ins n format))) s'"
      "z = Rice_used s'"
proof -
  let ?k = "Rice_initial_k ins n format"
  define s where "s = \<lparr>BytePtr = out[0 := to_byte ?k], BitPos = 8, NumBytes = insize + 1\<rparr>"
  have ok: "Rice_ok s" using assms(5) by (simp add: s_def Rice_ok_def)
  from assms(1) n obtain i s1 where
    loop: "Rice_Compress_loop ins insize format n 0 ?k hist s = Some (i, s1)" and
    z: "z = Rice_used (if i < n then Rice_raw ins format ws n s1 else s1)"
    unfolding Rice_Compress_def assms(2) Rice_used_def
    by (auto simp: Let_def bind_eq_Some_conv s_def Rice_InitBitstream_def)
  from Rice_Compress_loop_wrote [OF loop ok] have w: "i \<le> n"
    "Rice_wrote s (Rice_codes (map (\<lambda>i. Rice_ReadWord ins i format) [0..<i]) 0 ?k hist) s1"
    by (simp_all add: s_def)
  show thesis
  proof (cases "i < n")
    case False
    with w(1) have "i = n" by simp
    moreover have "out \<noteq> []" using assms(5) by auto
    ultimately show thesis
      using w(2) z ok assms(5) by (intro coded [of s s1]) (auto simp: s_def Rice_words_def)
  next
    case True
    let ?s = "s1\<lparr>BytePtr := (BytePtr s1)[0 := 0], BitPos := 8\<rparr>"
    have len: "NumBytes s1 = insize + 1" "length (BytePtr s1) = length out"
      using w(2) by (simp_all add: Rice_wrote_def s_def)
    have "out \<noteq> []" using assms(5) by auto
    with len have ok': "Rice_ok ?s" and "NumBytes ?s = insize + 1" "BytePtr ?s ! 0 = 0"
      using assms(5) by (auto simp: Rice_ok_def)
    with True z Rice_raw_wrote [OF ok', of ws ins format "[0..<n]"] show thesis
      by (intro raw [of ?s]) (auto simp: Rice_raw_def Rice_words_def comp_def)
  qed
qed

lemma Rice_Uncompress_holds:
  assumes "Rice_wordsize format = Some ws" and "n = insize div (ws div 8)" "0 < n" and "z \<noteq> []"
    and "if hd z = 0 then Rice_holds z (concat (map (word_bits ws) (Rice_words ins n format)))
      else Rice_holds z (Rice_codes (Rice_words ins n format) 0 (unat (hd z)) hist)"
  shows "Rice_Uncompress hist' z insize format
    = Some (concat (map (Rice_WriteWord format) (Rice_words ins n format)))"
proof -
  let ?s = "\<lparr>BytePtr = z, BitPos = 8, NumBytes = length z\<rparr>"
  let ?w = "Rice_words ins n format"
  have len: "length ?w = n" by (simp add: Rice_words_def)
  have un: "Rice_Uncompress hist' z insize format
    = Some (if hd z = 0 then Rice_raw_loop format ws n ?s []
        else Rice_Uncompress_loop format n 0 (unat (hd z)) hist' ?s [])"
    unfolding Rice_Uncompress_def assms(1) using assms(2-4)
    by (cases z) (auto simp: Let_def Rice_InitBitstream_def unsigned_eq_0_iff)
  show ?thesis
  proof (cases "hd z = 0")
    case True
    with assms(5) obtain r where "Rice_at ?s (concat (map (word_bits ws) ?w) @ r)"
      by (auto simp: Rice_holds_def)
    from Rice_raw_loop_at [OF this] have "Rice_raw_loop format ws n ?s [] = concat (map (Rice_WriteWord format) ?w)"
      using Rice_ReadWord_fits [OF assms(1)] by (simp add: len) (simp add: Rice_words_def)
    with un True show ?thesis by simp
  next
    case False
    with assms(5) obtain r where "Rice_at ?s (Rice_codes ?w 0 (unat (hd z)) hist @ r)"
      by (auto simp: Rice_holds_def)
    from Rice_Uncompress_loop_at [OF this Rice_hist_eq_0] have
      "Rice_Uncompress_loop format n 0 (unat (hd z)) hist' ?s [] = concat (map (Rice_WriteWord format) ?w)"
      by (simp add: len)
    with un False show ?thesis by simp
  qed
qed

lemma Rice_Compress_Nil:
  assumes "\<not> (\<exists>ws. Rice_wordsize format = Some ws \<and> 0 < insize div (ws div 8))"
  shows "Rice_Compress hist ins out insize format = Some [] \<and> Rice_Uncompress hist' z insize format = Some []"
  using assms by (cases "Rice_wordsize format") (simp_all add: Rice_Compress_def Rice_Uncompress_def Let_def)

lemma Rice_Compress_wrote_length:
  assumes "Rice_Compress hist ins out insize format = Some z" and "insize < length out"
  shows "length z \<le> insize + 1"
proof (cases "Rice_wordsize format")
  case None
  with assms(1) show ?thesis by (simp add: Rice_Compress_def)
next
  case (Some ws)
  show ?thesis
  proof (cases "insize div (ws div 8) = 0")
    case True
    with Some assms(1) show ?thesis by (simp add: Rice_Compress_def Let_def)
  next
    case False
    then have "0 < insize div (ws div 8)" by simp
    with assms(1) Some refl show ?thesis using assms(2)
    proof (cases rule: Rice_Compress_cases)
      case (coded s s')
      from Rice_wrote_used(3) [OF coded(5,1,2)] coded(3,6) show ?thesis by simp
    next
      case (raw s s')
      from Rice_wrote_used(3) [OF raw(5,1,2)] raw(3,6) show ?thesis by simp
    qed
  qed
qed

lemma Rice_Compress_holds:
  assumes c: "Rice_Compress hist ins out insize format = Some z" and ws: "Rice_wordsize format = Some ws"
    and n: "n = insize div (ws div 8)" "0 < n" and "insize < length out"
    and short: "length z \<le> insize \<or> hd z = 0"
  shows "z \<noteq> [] \<and> (if hd z = 0 then Rice_holds z (concat (map (word_bits ws) (Rice_words ins n format)))
      else Rice_holds z (Rice_codes (Rice_words ins n format) 0 (unat (hd z)) hist))"
  using c ws n \<open>insize < length out\<close>
proof (cases rule: Rice_Compress_cases)
  case (coded s s')
  let ?k = "Rice_initial_k ins n format"
  let ?c = "Rice_codes (Rice_words ins n format) 0 ?k hist"
  have k: "unat (to_byte ?k) = ?k"
    using Rice_initial_k_range(2) [OF n(2), of ins format] by (intro unat_to_byte) simp
  then have "to_byte ?k \<noteq> 0"
    using Rice_initial_k_range(1) [of ins n format] by (metis less_irrefl unsigned_0)
  note used = Rice_wrote_used [OF coded(5,1,2)]
  have hd: "z \<noteq> []" "hd z = to_byte ?k" using used(1,2) coded(4,6) by simp_all
  with short \<open>to_byte ?k \<noteq> 0\<close> have "length z \<le> insize" by simp
  with used(3) coded(3,6) have "(min (8 * (insize + 1)) (8 + length ?c) + 7) div 8 \<le> insize" by simp
  then have "8 + length ?c \<le> 8 * NumBytes s" using coded(3) by (simp add: min_def split: if_splits)
  from Rice_wrote_holds [OF coded(5,1,2) this] hd k \<open>to_byte ?k \<noteq> 0\<close> coded(6) show ?thesis by simp
next
  case (raw s s')
  have "length (concat (map (word_bits ws) (Rice_words ins n format))) = n * ws"
    by (simp add: Rice_words_def length_concat comp_def sum_list_triv)
  moreover have "n * ws \<le> 8 * insize"
  proof -
    have "ws = 8 * (ws div 8)" using ws by (auto simp: Rice_wordsize_def split: if_splits)
    moreover have "n * (ws div 8) \<le> insize" using n(1) by simp
    ultimately show ?thesis by (metis mult.left_commute mult_le_mono2)
  qed
  ultimately have "8 + length (concat (map (word_bits ws) (Rice_words ins n format))) \<le> 8 * NumBytes s"
    using raw(3) by simp
  from Rice_wrote_holds [OF raw(5,1,2) this] Rice_wrote_used(1,2) [OF raw(5,1,2)] raw(4,6)
  show ?thesis by simp
qed

definition Rice_block_bytes :: "nat \<Rightarrow> nat \<Rightarrow> nat" where
  "Rice_block_bytes insize format =
     (case Rice_wordsize format of None \<Rightarrow> 0 | Some ws \<Rightarrow> ws div 8 * (insize div (ws div 8)))"


lemma Rice_revise_k_le:
  assumes "\<forall>j<min i RICE_HISTORY. hist j \<le> m" and "k \<le> m"
  shows "Rice_revise_k i k hist \<le> m"
proof (cases "RICE_HISTORY \<le> i")
  case True
  have "sum_list (map hist [0..<RICE_HISTORY]) \<le> m * RICE_HISTORY"
    using sum_list_mono [of "[0..<RICE_HISTORY]" hist "\<lambda>_. m"] assms(1) True
    by (simp add: sum_list_triv mult.commute)
  with True show ?thesis
    using Rice_mean_le [of _ m RICE_HISTORY] by (simp add: Rice_revise_k_def RICE_HISTORY_def)
qed (simp add: Rice_revise_k_def assms(2))

lemma Rice_Compress_loop_total:
  assumes "Rice_ok s" and "\<forall>j<min i RICE_HISTORY. hist j \<le> 31" and "k \<le> 31"
    and "\<forall>j<n. Rice_NumBits (Rice_ReadWord ins j format) \<le> 31"
  shows "\<exists>r. Rice_Compress_loop ins insize format n i k hist s = Some r"
  using assms
proof (induction ins insize format n i k hist s rule: Rice_Compress_loop.induct)
  case (1 ins insize format n i k hist s)
  let ?k = "Rice_revise_k i k hist"
  let ?x = "Rice_ReadWord ins i format"
  show ?case
  proof (cases "i < n \<and> BitPos s div 8 \<le> insize")
    case True
    have k: "?k \<le> 31" by (rule Rice_revise_k_le [OF 1(3,4)])
    then obtain s1 where s1: "Rice_EncodeWord ?x ?k s = Some s1" "Rice_wrote s (Rice_code ?k ?x) s1"
      using Rice_EncodeWord_wrote [OF 1(2), of ?k ?x] by auto
    have "\<exists>r. Rice_Compress_loop ins insize format n (i + 1) ?k
        (hist(i mod RICE_HISTORY := Rice_NumBits ?x)) s1 = Some r"
    proof (rule 1(1) [OF True refl refl s1(1) Rice_wrote_ok [OF s1(2)] _ k 1(5)])
      show "\<forall>j<min (i + 1) RICE_HISTORY. (hist(i mod RICE_HISTORY := Rice_NumBits ?x)) j \<le> 31"
        using 1(3,5) True by (cases "i < RICE_HISTORY") (auto simp: less_Suc_eq)
    qed
    with True s1(1) show ?thesis
      by (subst Rice_Compress_loop.simps) (simp add: Let_def)
  next
    case False
    then show ?thesis by (subst Rice_Compress_loop.simps) auto
  qed
qed

lemma Rice_NumBits_31: "\<not> bit x 31 \<Longrightarrow> Rice_NumBits x \<le> 31"
proof (rule Rice_NumBits_least)
  assume x: "\<not> bit x 31"
  show "take_bit 31 x = x"
  proof (rule bit_word_eqI)
    fix n assume "n < LENGTH(32)"
    then have "n < 31 \<or> n = 31" by auto
    with x show "bit (take_bit 31 x) n = bit x n" by (auto simp: bit_take_bit_iff)
  qed
qed


subsection \<open>Concrete blocks\<close>

lemma Rice_read_bits_numeral:
  "Rice_read_bits (numeral v) x s =
     (case Rice_ReadBit s of (b, s) \<Rightarrow> Rice_read_bits (pred_numeral v) (push_bit 1 x OR b) s)"
  by (simp add: numeral_eq_Suc)

lemmas Rice_word_eval = RICE_FMT_defs Rice_ReadWord_def Rice_WriteWord_def nth_word_def le_word_def
  bytes_le_def Rice_fold_sign_def Rice_unfold_sign_def upt_rec

lemmas Rice_eval = Rice_word_eval Rice_wordsize_def Rice_initial_k_def Rice_revise_k_def
  RICE_HISTORY_def RICE_THRESHOLD_def Rice_InitBitstream_def Rice_EncodeWord_def Rice_WriteBit_def
  Rice_NumBits_def Rice_NumBits_loop.simps Let_def Rice_read_bits_numeral Rice_Compress_def
  Rice_Uncompress_def Rice_Compress_loop.simps Rice_Uncompress_loop.simps Rice_DecodeWord_def
  Rice_read_ones.simps Rice_ReadBit_def

lemma Rice_Compress_example:
  "Rice_Compress (\<lambda>_. 0) [1, 2, 3, 4, 1, 0, 1] [0, 0, 0, 0, 0, 0, 0, 0] 7 RICE_FMT_UINT8
    = Some [1, 101, 196, 64]"
  by (simp add: Rice_eval cong: eval_congs)




text \<open>Two limits of the 32-bit formats: the least signed integer is written back as zero, and a
  block whose words all have 32 information bits makes the encoder shift by 32 places.\<close>

theorem Rice_limits:
  "Rice_WriteWord RICE_FMT_INT32 (Rice_ReadWord [0, 0, 0, 0x80] 0 RICE_FMT_INT32) = [0, 0, 0, 0] \<and>
   Rice_Compress (\<lambda>_. 0) [0, 0, 0, 0x80] [0, 0, 0, 0, 0] 4 RICE_FMT_UINT32 = None"
proof
  show "Rice_WriteWord RICE_FMT_INT32 (Rice_ReadWord [0, 0, 0, 0x80] 0 RICE_FMT_INT32) = [0, 0, 0, 0]"
    by (simp add: Rice_word_eval)
  show "Rice_Compress (\<lambda>_. 0) [0, 0, 0, 0x80] [0, 0, 0, 0, 0] 4 RICE_FMT_UINT32 = None"
    by (simp add: Rice_eval cong: eval_congs)
qed

end
