(* ===== verification/Bcl_Bits.thy ===== *)
theory Bcl_Bits
  imports Bit_Stream "HOL-Library.Monad_Syntax"
begin

text \<open>
  The bit streams of \<open>codecs/bcl/src/huffman.c\<close> and \<open>shannonfano.c\<close>: the two files have the same
  four functions under the prefixes \<open>_Huffman\<close> and \<open>_SF\<close>. A pointer into the buffer is the buffer
  and an index; \<open>None\<close> is an access outside the buffer, or the shift by \<open>bits - 1\<close> when that
  is not between 0 and 31, which C leaves undefined. The lemmas read the stream as a bit string:
  \<open>bs_wrote s bs s'\<close> says that writing added the bits \<open>bs\<close>, \<open>bs_at s bs\<close> that the bits \<open>bs\<close> are
  still to be read.
\<close>

subsection \<open>Operations\<close>

record bitstream =
  bsBuf :: "byte list"
  bsPtr :: nat
  bsPos :: nat

definition Huffman_InitBitstream :: "byte list \<Rightarrow> bitstream" where
  "Huffman_InitBitstream buf = \<lparr>bsBuf = buf, bsPtr = 0, bsPos = 0\<rparr>"

text \<open>\<open>bit = (bit+1) & 7; if( !bit ) ++ buf;\<close> and the new stream state.\<close>

definition bs_advance :: "bitstream \<Rightarrow> bitstream" where
  "bs_advance s =
     (let bit = (bsPos s + 1) AND 7
      in s\<lparr>bsPtr := (if bit = 0 then bsPtr s + 1 else bsPtr s), bsPos := bit\<rparr>)"

definition Huffman_ReadBit :: "bitstream \<Rightarrow> (u32 \<times> bitstream) option" where
  "Huffman_ReadBit s =
     (if bsPtr s < length (bsBuf s) then
        let b = ucast (bsBuf s ! bsPtr s) :: u32;
            x = (if b AND push_bit (7 - bsPos s) 1 \<noteq> 0 then 1 else 0)
        in Some (x, bs_advance s)
      else None)"

definition Huffman_Read8Bits :: "bitstream \<Rightarrow> (u32 \<times> bitstream) option" where
  "Huffman_Read8Bits s =
     (if bsPtr s + 1 < length (bsBuf s) then
        let x = push_bit (bsPos s) (ucast (bsBuf s ! bsPtr s))
              OR drop_bit (8 - bsPos s) (ucast (bsBuf s ! (bsPtr s + 1)))
        in Some (x, s\<lparr>bsPtr := bsPtr s + 1\<rparr>)
      else None)"

definition bs_put :: "bitstream \<Rightarrow> bool \<Rightarrow> bitstream" where
  "bs_put s v =
     (let b = ucast (bsBuf s ! bsPtr s) :: u32;
          bit = 7 - bsPos s;
          b = (b AND (0xff XOR push_bit bit 1)) + push_bit bit (if v then 1 else 0)
      in bs_advance (s\<lparr>bsBuf := (bsBuf s)[bsPtr s := ucast b]\<rparr>))"

fun Huffman_WriteBits_loop :: "u32 \<Rightarrow> nat \<Rightarrow> u32 \<Rightarrow> bitstream \<Rightarrow> bitstream option" where
  "Huffman_WriteBits_loop msk 0 x s = Some s"
| "Huffman_WriteBits_loop msk (Suc n) x s =
     (if bsPtr s < length (bsBuf s)
      then Huffman_WriteBits_loop msk n (push_bit 1 x) (bs_put s (x AND msk \<noteq> 0))
      else None)"

definition Huffman_WriteBits :: "bitstream \<Rightarrow> u32 \<Rightarrow> nat \<Rightarrow> bitstream option" where
  "Huffman_WriteBits s x bits =
     (if bits = 0 \<or> 32 < bits then None
      else Huffman_WriteBits_loop (push_bit (bits - 1) 1) bits x s)"

text \<open>\<open>total_bytes\<close>: the bytes that hold what was written.\<close>

definition bs_total_bytes :: "bitstream \<Rightarrow> nat" where
  "bs_total_bytes s = (if 0 < bsPos s then bsPtr s + 1 else bsPtr s)"

subsection \<open>Positions\<close>

definition bs_pos :: "bitstream \<Rightarrow> nat" where
  "bs_pos s = 8 * bsPtr s + bsPos s"

definition bs_ok :: "bitstream \<Rightarrow> bool" where
  "bs_ok s \<longleftrightarrow> bsPos s < 8 \<and> bs_pos s \<le> 8 * length (bsBuf s)"

lemma and_7: "(n :: nat) AND 7 = n mod 8"
  using take_bit_eq_mask [of 3 n] by (simp add: take_bit_eq_mod mask_eq_exp_minus_1)

lemma split_8: "i = 8 * q + r \<Longrightarrow> r < 8 \<Longrightarrow> i div 8 = q \<and> i mod 8 = (r :: nat)"
  by simp

lemma bs_pos_div: "bsPos s < 8 \<Longrightarrow> bs_pos s div 8 = bsPtr s \<and> bs_pos s mod 8 = bsPos s"
  by (simp add: bs_pos_def)

lemma bs_pos_update [simp]: "bs_pos (s\<lparr>bsBuf := buf\<rparr>) = bs_pos s"
  by (simp add: bs_pos_def)

lemma bs_advance_simps [simp]:
  "bsBuf (bs_advance s) = bsBuf s"
  "bsPos s < 8 \<Longrightarrow> bs_pos (bs_advance s) = bs_pos s + 1"
  "bsPos (bs_advance s) < 8"
proof -
  show "bs_pos (bs_advance s) = bs_pos s + 1" if "bsPos s < 8"
  proof (cases "bsPos s = 7")
    case False
    then have "Suc (bsPos s) mod 8 = Suc (bsPos s)" using that by simp
    then show ?thesis by (simp add: bs_advance_def Let_def and_7 bs_pos_def)
  qed (simp add: bs_advance_def Let_def and_7 bs_pos_def)
qed (simp_all add: bs_advance_def Let_def and_7)

lemma bs_in: "bs_ok s \<Longrightarrow> bsPtr s < length (bsBuf s) \<longleftrightarrow> bs_pos s < 8 * length (bsBuf s)"
  by (auto simp: bs_ok_def bs_pos_def)

lemma word_eq_0_bits: "(w :: u32) = 0 \<longleftrightarrow> (\<forall>j. \<not> bit w j)"
  using bit_eq_iff [of w 0] bit_imp_le_length [of w] by auto

subsection \<open>Writing\<close>

definition bs_bits :: "bitstream \<Rightarrow> bool list" where
  "bs_bits s = take (bs_pos s) (bits_of (bsBuf s))"

definition bs_wrote :: "bitstream \<Rightarrow> bool list \<Rightarrow> bitstream \<Rightarrow> bool" where
  "bs_wrote s bs s' \<longleftrightarrow>
     bs_ok s' \<and> length (bsBuf s') = length (bsBuf s) \<and> bs_bits s' = bs_bits s @ bs"

lemma length_bs_bits: "bs_ok s \<Longrightarrow> length (bs_bits s) = bs_pos s"
  by (simp add: bs_ok_def bs_bits_def)

lemma bs_wrote_ok: "bs_wrote s bs s' \<Longrightarrow> bs_ok s'"
  by (simp add: bs_wrote_def)

lemma bs_wrote_pos: "bs_ok s \<Longrightarrow> bs_wrote s bs s' \<Longrightarrow> bs_pos s' = bs_pos s + length bs"
  using length_bs_bits [of s] length_bs_bits [of s'] by (simp add: bs_wrote_def)

lemma bs_wrote_Nil: "bs_ok s \<Longrightarrow> bs_wrote s [] s"
  by (simp add: bs_wrote_def)

lemma bs_wrote_trans: "bs_wrote s a s' \<Longrightarrow> bs_wrote s' b s'' \<Longrightarrow> bs_wrote s (a @ b) s''"
  by (simp add: bs_wrote_def)

lemma bs_put_bit:
  fixes b :: byte
  assumes "m < 8" and "j < 8"
  shows "bit (ucast ((ucast b AND (0xff XOR push_bit j 1)) + push_bit j (if v then 1 else 0) :: u32) :: byte) m
    = (if m = j then v else bit b m)"
proof -
  have ff: "(0xff :: u32) = mask 8" by (simp add: mask_eq_exp_minus_1)
  have o: "push_bit j (if v then 1 else 0 :: u32) = (if v then push_bit j 1 else 0)" by simp
  have "(ucast b AND (mask 8 XOR push_bit j 1)) + (if v then push_bit j 1 else 0 :: u32)
    = (ucast b AND (mask 8 XOR push_bit j 1)) OR (if v then push_bit j 1 else 0)"
    using assms by (intro disjunctive_add_eq_or bit_word_eqI) (auto simp: bit_simps)
  then show ?thesis
    unfolding ff o using assms by (auto simp: bit_simps bit_0 possible_bit_word)
qed

lemma bs_wrote_put:
  assumes "bs_ok s" and "bsPtr s < length (bsBuf s)"
  shows "bs_wrote s [v] (bs_put s v)"
proof -
  let ?n = "bs_pos s"
  let ?b = "ucast ((ucast (bsBuf s ! bsPtr s) AND (0xff XOR push_bit (7 - bsPos s) 1))
    + push_bit (7 - bsPos s) (if v then 1 else 0) :: u32) :: byte"
  have pos: "?n div 8 = bsPtr s" "?n mod 8 = bsPos s" "bsPos s < 8"
    using assms bs_pos_div [of s] by (auto simp: bs_ok_def)
  have n: "?n < 8 * length (bsBuf s)" using assms bs_in by blast
  have "bit ?b m = (if m = 7 - ?n mod 8 then v else bit (bsBuf s ! (?n div 8)) m)" if "m < 8" for m
    unfolding pos using that by (intro bs_put_bit) auto
  note bits = take_bits_of_update [OF n this]
  have put: "bs_put s v = bs_advance (s\<lparr>bsBuf := (bsBuf s)[bsPtr s := ?b]\<rparr>)"
    by (simp only: bs_put_def Let_def)
  from bits show ?thesis
    using pos n unfolding put by (simp add: bs_wrote_def bs_ok_def bs_bits_def)
qed

lemma Huffman_WriteBits_loop_wrote:
  assumes "bs_ok s" and "m < 32" and "n \<le> Suc m"
    and "Huffman_WriteBits_loop (push_bit m 1) n (push_bit (Suc m - n) x) s = Some s'"
  shows "bs_wrote s (word_bits n x) s'"
  using assms
proof (induction n arbitrary: s)
  case 0
  then show ?case by (simp add: bs_wrote_Nil)
next
  case (Suc n)
  let ?x = "push_bit (Suc m - Suc n) x"
  have "push_bit 1 ?x = push_bit (Suc m - n) x"
  proof -
    have "1 + (Suc m - Suc n) = Suc m - n" using Suc.prems(3) by simp
    then show ?thesis by (simp only: push_bit_push_bit)
  qed
  moreover have "?x AND push_bit m 1 \<noteq> 0 \<longleftrightarrow> bit x n"
  proof -
    have "bit (?x AND push_bit m 1) j = (j = m \<and> bit x n)" for j
      using Suc.prems(2,3) by (auto simp only: bit_and_iff bit_push_bit_iff bit_1_iff possible_bit_word) auto
    then show ?thesis unfolding word_eq_0_bits by blast
  qed
  ultimately have "bsPtr s < length (bsBuf s)"
    and "Huffman_WriteBits_loop (push_bit m 1) n (push_bit (Suc m - n) x) (bs_put s (bit x n)) = Some s'"
    using Suc.prems(4) by (simp_all split: if_splits)
  with bs_wrote_put [OF Suc.prems(1) this(1), of "bit x n"] Suc.IH [of "bs_put s (bit x n)"] Suc.prems
  show ?case using bs_wrote_trans [of s "[bit x n]"] by (simp add: bs_wrote_ok word_bits_Suc)
qed

lemma Huffman_WriteBits_wrote:
  assumes "bs_ok s" and "Huffman_WriteBits s x n = Some s'"
  shows "bs_wrote s (word_bits n x) s'"
  using assms Huffman_WriteBits_loop_wrote [OF assms(1), of "n - 1" n x s']
  by (auto simp: Huffman_WriteBits_def split: if_splits)

lemma Huffman_WriteBits_loop_total:
  "bs_ok s \<Longrightarrow> bs_pos s + n \<le> 8 * length (bsBuf s) \<Longrightarrow> \<exists>s'. Huffman_WriteBits_loop msk n x s = Some s'"
proof (induction n arbitrary: x s)
  case (Suc n)
  then have p: "bsPtr s < length (bsBuf s)" using bs_in [of s] by simp
  have w: "bs_wrote s [v] (bs_put s v)" for v by (rule bs_wrote_put [OF Suc.prems(1) p])
  show ?case
    using p Suc.IH [OF bs_wrote_ok [OF w]] bs_wrote_pos [OF Suc.prems(1) w] w Suc.prems(2)
    by (simp add: bs_wrote_def)
qed simp

lemma Huffman_WriteBits_total:
  assumes "bs_ok s" and "0 < n" and "n \<le> 32" and "bs_pos s + n \<le> 8 * length (bsBuf s)"
  obtains s' where "Huffman_WriteBits s x n = Some s'" and "bs_wrote s (word_bits n x) s'"
proof -
  obtain s' where "Huffman_WriteBits s x n = Some s'"
    using Huffman_WriteBits_loop_total [OF assms(1,4)] assms(2,3) by (auto simp: Huffman_WriteBits_def)
  with Huffman_WriteBits_wrote [OF assms(1)] that show thesis by blast
qed

subsection \<open>Reading\<close>

definition bs_at :: "bitstream \<Rightarrow> bool list \<Rightarrow> bool" where
  "bs_at s bs \<longleftrightarrow> bs_ok s \<and> drop (bs_pos s) (bits_of (bsBuf s)) = bs"

lemma bs_at_Cons:
  assumes "bs_at s (b # r)"
  shows "bsPtr s < length (bsBuf s)" and "b = bit (bsBuf s ! bsPtr s) (7 - bsPos s)"
    and "drop (Suc (bs_pos s)) (bits_of (bsBuf s)) = r"
proof -
  have ok: "bs_ok s" and d: "drop (bs_pos s) (bits_of (bsBuf s)) = b # r"
    using assms by (auto simp: bs_at_def)
  then have n: "bs_pos s < length (bits_of (bsBuf s))"
    by (metis drop_eq_Nil leI list.distinct(1))
  with ok show "bsPtr s < length (bsBuf s)" by (simp add: bs_in)
  have "b = bits_of (bsBuf s) ! bs_pos s"
    using d n by (metis hd_drop_conv_nth list.sel(1))
  then show "b = bit (bsBuf s ! bsPtr s) (7 - bsPos s)"
    using n ok bs_pos_div [of s] by (simp add: bits_of_nth bs_ok_def)
  show "drop (Suc (bs_pos s)) (bits_of (bsBuf s)) = r"
    using d by (metis drop_Suc list.sel(3) tl_drop)
qed

lemma Huffman_ReadBit_at:
  assumes "bs_at s (b # r)"
  obtains s' where "Huffman_ReadBit s = Some (of_bool b, s')" and "bs_at s' r"
proof -
  have ok: "bs_ok s" using assms by (simp add: bs_at_def)
  note at = bs_at_Cons [OF assms]
  have "(ucast y AND push_bit j 1 \<noteq> (0 :: u32)) = bit y j" if "j < 8" for y :: byte and j
  proof -
    have "bit (ucast y AND push_bit j 1 :: u32) i = (i = j \<and> bit y j)" for i
      using that by (auto simp only: bit_and_iff bit_push_bit_iff bit_1_iff possible_bit_word bit_ucast_iff) auto
    then show ?thesis unfolding word_eq_0_bits by blast
  qed
  then have "Huffman_ReadBit s = Some (of_bool b, bs_advance s)"
    using at(1,2) by (simp add: Huffman_ReadBit_def)
  moreover have "bs_at (bs_advance s) r"
    using at(1,3) ok bs_in [OF ok] by (simp add: bs_at_def bs_ok_def)
  ultimately show thesis by (rule that)
qed

text \<open>The eight bits from a position on are in two neighbouring bytes.\<close>

lemma bs_bit_split:
  assumes "bsPos s < 8" "m < 8"
  shows "(bs_pos s + (7 - m)) div 8 = (if bsPos s \<le> m then bsPtr s else bsPtr s + 1)"
    and "7 - (bs_pos s + (7 - m)) mod 8 = (if bsPos s \<le> m then m - bsPos s else m + 8 - bsPos s)"
proof -
  let ?i = "bs_pos s + (7 - m)"
  have "?i div 8 = (if bsPos s \<le> m then bsPtr s else bsPtr s + 1) \<and>
    ?i mod 8 = (if bsPos s \<le> m then bsPos s + 7 - m else bsPos s - (m + 1))"
  proof (cases "bsPos s \<le> m")
    case True
    then have "?i = 8 * bsPtr s + (bsPos s + 7 - m)" "bsPos s + 7 - m < 8"
      using assms by (simp_all add: bs_pos_def)
    from split_8 [OF this] True show ?thesis by simp
  next
    case False
    then have "?i = 8 * (bsPtr s + 1) + (bsPos s - (m + 1))" "bsPos s - (m + 1) < 8"
      using assms by (simp_all add: bs_pos_def)
    from split_8 [OF this] False show ?thesis by simp
  qed
  then show "?i div 8 = (if bsPos s \<le> m then bsPtr s else bsPtr s + 1)"
    "7 - ?i mod 8 = (if bsPos s \<le> m then m - bsPos s else m + 8 - bsPos s)"
    using assms by auto
qed

lemma Huffman_Read8Bits_at:
  assumes "bs_at s (word_bits 8 x @ b # r)"
  obtains y s' where "Huffman_Read8Bits s = Some (y, s')" and "ucast y = (ucast x :: byte)"
    and "bs_at s' (b # r)"
proof -
  have ok: "bs_ok s" and d: "drop (bs_pos s) (bits_of (bsBuf s)) = word_bits 8 x @ b # r"
    using assms by (auto simp: bs_at_def)
  have "length (drop (bs_pos s) (bits_of (bsBuf s))) = 9 + length r"
    unfolding d by simp
  then have len: "bs_pos s + 8 < 8 * length (bsBuf s)" by simp
  then have in_buf: "bsPtr s + 1 < length (bsBuf s)" by (simp add: bs_pos_def)
  let ?y = "push_bit (bsPos s) (ucast (bsBuf s ! bsPtr s))
              OR drop_bit (8 - bsPos s) (ucast (bsBuf s ! (bsPtr s + 1))) :: u32"
  have pos: "bsPos s < 8" using ok by (simp add: bs_ok_def)
  have x: "bit x m = bits_of (bsBuf s) ! (bs_pos s + (7 - m))" if "m < 8" for m
  proof -
    have "drop (bs_pos s) (bits_of (bsBuf s)) ! (7 - m) = bit x m"
      unfolding d using that less_imp_diff_less [of 7 8 m]
      by (simp add: nth_append word_bits_def rev_nth)
    with len that show ?thesis by simp
  qed
  have "bit (ucast ?y :: byte) m = bit (ucast x :: byte) m" if "m < 8" for m
  proof -
    have "bit x m = bit (bsBuf s ! ((bs_pos s + (7 - m)) div 8)) (7 - (bs_pos s + (7 - m)) mod 8)"
      using x [OF that] len that by (simp add: bits_of_nth)
    note xi = this [unfolded bs_bit_split [OF pos that]]
    have "bit x m = (if bsPos s \<le> m then bit (bsBuf s ! bsPtr s) (m - bsPos s)
        else bit (bsBuf s ! (bsPtr s + 1)) (m + 8 - bsPos s))"
      unfolding xi by simp
    moreover have "8 - bsPos s + m = m + 8 - bsPos s" using pos by simp
    ultimately show ?thesis
      using that pos bit_imp_le_length [of "bsBuf s ! (bsPtr s + 1)" "m + 8 - bsPos s"]
        bit_imp_le_length [of "bsBuf s ! bsPtr s" "m - bsPos s"]
      by (auto simp: bit_simps possible_bit_word)
  qed
  then have "ucast ?y = (ucast x :: byte)" by (intro bit_word_eqI) simp
  moreover have "bs_at (s\<lparr>bsPtr := bsPtr s + 1\<rparr>) (b # r)"
  proof -
    have "bs_pos (s\<lparr>bsPtr := bsPtr s + 1\<rparr>) = 8 + bs_pos s" by (simp add: bs_pos_def)
    moreover have "drop (8 + bs_pos s) (bits_of (bsBuf s)) = b # r"
      using d by (simp flip: drop_drop)
    ultimately show ?thesis using len pos by (simp add: bs_at_def bs_ok_def)
  qed
  ultimately show thesis
    using that [of ?y "s\<lparr>bsPtr := bsPtr s + 1\<rparr>"] in_buf by (simp add: Huffman_Read8Bits_def)
qed

end
