(* ===== verification/Bcl_Symbols.thy ===== *)
theory Bcl_Symbols
  imports Bcl_Bits "HOL-Library.Multiset"
begin

text \<open>
  The symbol table of \<open>huffman.c\<close> and \<open>shannonfano.c\<close>, the bubble sort both files use on it, the
  loop that writes the codes of a block, and the loop that reads symbols until the block is full.
  Symbols and counts are natural numbers; counts stay below the block size, which is taken to be
  below \<open>2 ^ 31\<close>.
\<close>

record huff_sym =
  symSymbol :: nat
  symCount :: nat
  symCode :: u32
  symBits :: nat

subsection \<open>The histogram\<close>

definition Huffman_Hist :: "byte list \<Rightarrow> huff_sym list" where
  "Huffman_Hist ins =
     fold (\<lambda>b tab. tab[unat b := (tab ! unat b)\<lparr>symCount := symCount (tab ! unat b) + 1\<rparr>]) ins
       (map (\<lambda>k. \<lparr>symSymbol = k, symCount = 0, symCode = 0, symBits = 0\<rparr>) [0..<256])"

lemma Huffman_Hist_fold:
  "length tab = 256 \<Longrightarrow>
   length (fold (\<lambda>b tab. tab[unat b := (tab ! unat b)\<lparr>symCount := symCount (tab ! unat b) + 1\<rparr>]) ins tab) = 256 \<and>
   fold (\<lambda>b tab. tab[unat b := (tab ! unat b)\<lparr>symCount := symCount (tab ! unat b) + 1\<rparr>]) ins tab ! unat c
     = (tab ! unat c)\<lparr>symCount := symCount (tab ! unat c) + count_list ins (c :: byte)\<rparr>"
  by (induction ins arbitrary: tab) (auto simp: nth_list_update unsigned_word_eqI)

lemma length_Huffman_Hist [simp]: "length (Huffman_Hist ins) = 256"
  unfolding Huffman_Hist_def by (rule conjunct1 [OF Huffman_Hist_fold]) simp

lemma Huffman_Hist_nth:
  "Huffman_Hist ins ! unat c
    = \<lparr>symSymbol = unat c, symCount = count_list ins c, symCode = 0, symBits = 0\<rparr>"
proof -
  let ?t = "map (\<lambda>k. \<lparr>symSymbol = k, symCount = 0, symCode = 0, symBits = 0\<rparr>) [0..<256]"
  have "Huffman_Hist ins ! unat c = (?t ! unat c)\<lparr>symCount := symCount (?t ! unat c) + count_list ins c\<rparr>"
    unfolding Huffman_Hist_def by (rule conjunct2 [OF Huffman_Hist_fold]) simp
  then show ?thesis by simp
qed

lemma Huffman_Hist_index:
  "k < 256 \<Longrightarrow> Huffman_Hist ins ! k
    = \<lparr>symSymbol = k, symCount = count_list ins (to_byte k), symCode = 0, symBits = 0\<rparr>"
  using Huffman_Hist_nth [of ins "to_byte k"] by simp

subsection \<open>Bubble sort\<close>

text \<open>
  One pass swaps neighbours whose keys are in the wrong order and tells whether it swapped; passes
  are made until one swaps nothing. The key is the symbol, or the negated count where the code
  sorts by falling counts.
\<close>

fun bubble_pass :: "('a \<Rightarrow> int) \<Rightarrow> 'a list \<Rightarrow> 'a list \<times> bool" where
  "bubble_pass key (x # y # r) =
     (if key x > key y then case bubble_pass key (x # r) of (r', _) \<Rightarrow> (y # r', True)
      else case bubble_pass key (y # r) of (r', swaps) \<Rightarrow> (x # r', swaps))"
| "bubble_pass key xs = (xs, False)"

text \<open>The pairs in the wrong order, which every swap makes fewer.\<close>

fun inversions :: "('a \<Rightarrow> int) \<Rightarrow> 'a list \<Rightarrow> nat" where
  "inversions key [] = 0"
| "inversions key (x # xs) = size (filter_mset (\<lambda>y. key x > key y) (mset xs)) + inversions key xs"

lemma bubble_pass_mset: "bubble_pass key xs = (ys, s) \<Longrightarrow> mset ys = mset xs"
  by (induction key xs arbitrary: ys s rule: bubble_pass.induct)
    (auto split: if_splits prod.splits)

lemma bubble_pass_inversions:
  "bubble_pass key xs = (ys, s) \<Longrightarrow> inversions key ys + of_bool s \<le> inversions key xs"
proof (induction key xs arbitrary: ys s rule: bubble_pass.induct)
  case (1 key x y r)
  show ?case
  proof (cases "key x > key y")
    case True
    obtain r' s' where p: "bubble_pass key (x # r) = (r', s')" by fastforce
    with 1(3) True have "ys = y # r'" "s" by auto
    with 1(1) [OF True p] bubble_pass_mset [OF p] True show ?thesis by simp
  next
    case False
    obtain r' s' where p: "bubble_pass key (y # r) = (r', s')" by fastforce
    with 1(3) False have "ys = x # r'" "s = s'" by auto
    with 1(2) [OF False p] bubble_pass_mset [OF p] show ?thesis by simp
  qed
qed auto

function bubble_sort :: "('a \<Rightarrow> int) \<Rightarrow> 'a list \<Rightarrow> 'a list" where
  "bubble_sort key xs =
     (case bubble_pass key xs of (ys, swaps) \<Rightarrow> if swaps then bubble_sort key ys else ys)"
  by pat_completeness auto
termination
  by (relation "measure (\<lambda>(key, xs). inversions key xs)")
    (auto dest!: bubble_pass_inversions [OF sym])

declare bubble_sort.simps [simp del]

lemma mset_bubble_sort: "mset (bubble_sort key xs) = mset xs"
proof (induction key xs rule: bubble_sort.induct)
  case (1 key xs)
  obtain ys s where p: "bubble_pass key xs = (ys, s)" by fastforce
  with 1 bubble_pass_mset [OF p] show ?case
    by (subst bubble_sort.simps) simp
qed

lemma bubble_pass_sorted:
  "bubble_pass key xs = (ys, s) \<Longrightarrow> \<not> s \<Longrightarrow> ys = xs \<and> sorted (map key xs)"
proof (induction key xs arbitrary: ys s rule: bubble_pass.induct)
  case (1 key x y r)
  obtain r' s' where p: "bubble_pass key (y # r) = (r', s')" by fastforce
  from 1(3,4) have "\<not> key x > key y" by (auto split: if_splits prod.splits)
  with 1(3,4) p have "ys = x # r'" "\<not> s'" by auto
  with 1(2) [OF \<open>\<not> key x > key y\<close> p] \<open>\<not> key x > key y\<close> show ?case by fastforce
qed auto

lemma bubble_pass_id: "sorted (map key xs) \<Longrightarrow> bubble_pass key xs = (xs, False)"
  by (induction key xs rule: bubble_pass.induct) auto

lemma sorted_bubble_sort: "sorted (map key (bubble_sort key xs))"
proof (induction key xs rule: bubble_sort.induct)
  case (1 key xs)
  obtain ys s where p: "bubble_pass key xs = (ys, s)" by fastforce
  with 1 bubble_pass_sorted [OF p] show ?case
    by (subst bubble_sort.simps) simp
qed

lemma bubble_sort_id: "sorted (map key xs) \<Longrightarrow> bubble_sort key xs = xs"
  by (subst bubble_sort.simps) (simp add: bubble_pass_id)

text \<open>After the sort by symbols the entry of symbol \<open>a\<close> is at place \<open>a\<close>.\<close>

lemma bubble_sort_symbols:
  assumes "mset (map symSymbol tab) = mset [0..<n]"
  shows "map symSymbol (bubble_sort (\<lambda>e. int (symSymbol e)) tab) = [0..<n]"
proof -
  let ?t = "bubble_sort (\<lambda>e. int (symSymbol e)) tab"
  have "sorted (map symSymbol ?t)"
    using sorted_bubble_sort [of "\<lambda>e. int (symSymbol e)" tab] by (simp add: sorted_map)
  moreover have "mset (map symSymbol ?t) = mset [0..<n]"
    using assms by (simp only: mset_map mset_bubble_sort)
  ultimately show ?thesis
    by (metis properties_for_sort sort_upt)
qed

subsection \<open>Codes\<close>

text \<open>A code is kept as a word and a length; this is the word that a path down the tree gives.\<close>

definition code_step :: "bool \<Rightarrow> u32 \<Rightarrow> u32" where
  "code_step b code = push_bit 1 code + (if b then 1 else 0)"

definition code_word :: "bool list \<Rightarrow> u32" where
  "code_word p = fold code_step p 0"

lemma code_step_bits: "code_step b v = shift_in v b"
proof -
  have "push_bit 1 v + (if b then 1 else 0) = push_bit 1 v OR (if b then 1 else 0)"
  proof (rule disjunctive_add_eq_or)
    have "\<not> bit (push_bit 1 v AND (if b then 1 else 0)) j" for j
      by (cases b) (simp_all only: bit_and_iff bit_push_bit_iff bit_1_iff bit_0_eq if_True if_False, auto)
    then show "push_bit 1 v AND (if b then 1 else 0) = 0" unfolding word_eq_0_bits by blast
  qed
  then show ?thesis by (cases b) (simp_all only: code_step_def shift_in_def of_bool_eq if_True if_False)
qed

lemma code_word_snoc: "code_word (p @ [b]) = shift_in (code_word p) b"
  by (simp add: code_word_def code_step_bits)

lemma word_bits_code_word: "length p \<le> 32 \<Longrightarrow> word_bits (length p) (code_word p) = p"
proof (induction p rule: rev_induct)
  case (snoc b p)
  have "word_bits (Suc (length p)) (shift_in v b) = word_bits (length p) v @ [b]"
    if "length p < 32" for v
  proof (intro nth_equalityI)
    fix i
    assume "i < length (word_bits (Suc (length p)) (shift_in v b))"
    then have i: "i \<le> length p" by simp
    have "bit (shift_in v b) (length p - i) = (if i = length p then b else bit v (length p - i - 1))"
    proof -
      have "bit (shift_in v b) j = ((1 \<le> j \<and> j < 32 \<and> bit v (j - 1)) \<or> b \<and> j = 0)" for j
        by (simp only: shift_in_def bit_or_iff bit_push_bit_iff bit_of_bool_iff possible_bit_word) auto
      from this [of "length p - i"] show ?thesis
        using that i by (cases "i = length p") (auto simp: Suc_le_eq)
    qed
    moreover have "word_bits (Suc (length p)) (shift_in v b) ! i = bit (shift_in v b) (length p - i)"
      using i by (simp add: word_bits_def rev_nth del: upt_Suc)
    moreover have "word_bits (length p) v ! i = bit v (length p - i - 1)" if "i < length p"
      using that by (simp add: word_bits_def rev_nth)
    ultimately show "word_bits (Suc (length p)) (shift_in v b) ! i = (word_bits (length p) v @ [b]) ! i"
      using i by (auto simp: nth_append)
  qed simp
  with snoc show ?case by (simp add: code_word_snoc)
qed simp

text \<open>The encoding loop: \<open>WriteBits( &stream, sym[symbol].Code, sym[symbol].Bits )\<close> for each byte.\<close>

fun Huffman_encode :: "huff_sym list \<Rightarrow> byte list \<Rightarrow> bitstream \<Rightarrow> bitstream option" where
  "Huffman_encode tab [] s = Some s"
| "Huffman_encode tab (b # bs) s =
     do {
       s \<leftarrow> Huffman_WriteBits s (symCode (tab ! unat b)) (symBits (tab ! unat b));
       Huffman_encode tab bs s
     }"

text \<open>\<open>path b\<close> is the code of \<open>b\<close> that the table holds.\<close>

definition table_holds :: "huff_sym list \<Rightarrow> (byte \<Rightarrow> bool list) \<Rightarrow> byte set \<Rightarrow> bool" where
  "table_holds tab path A \<longleftrightarrow>
     (\<forall>b\<in>A. symCode (tab ! unat b) = code_word (path b) \<and> symBits (tab ! unat b) = length (path b))"

lemma Huffman_encode_wrote:
  assumes "table_holds tab path A" and "set bs \<subseteq> A" and "bs_ok s"
    and "Huffman_encode tab bs s = Some s'"
  shows "bs_wrote s (concat (map path bs)) s' \<and> (\<forall>b\<in>set bs. path b \<noteq> [] \<and> length (path b) \<le> 32)"
  using assms(2-)
proof (induction bs arbitrary: s)
  case Nil
  then show ?case by (simp add: bs_wrote_Nil)
next
  case (Cons b bs)
  from Cons.prems(3) obtain s1 where
    s1: "Huffman_WriteBits s (symCode (tab ! unat b)) (symBits (tab ! unat b)) = Some s1"
    and rest: "Huffman_encode tab bs s1 = Some s'"
    by (auto simp: bind_eq_Some_conv)
  have b: "symCode (tab ! unat b) = code_word (path b)" "symBits (tab ! unat b) = length (path b)"
    using assms(1) Cons.prems(1) by (auto simp: table_holds_def)
  then have len: "path b \<noteq> []" "length (path b) \<le> 32"
    using s1 by (auto simp: Huffman_WriteBits_def split: if_splits)
  have "bs_wrote s (path b) s1"
    using Huffman_WriteBits_wrote [OF Cons.prems(2) s1] b len by (simp add: word_bits_code_word)
  with Cons.IH [OF _ _ rest] Cons.prems(1) len show ?case
    by (auto intro: bs_wrote_trans bs_wrote_ok)
qed

lemma Huffman_encode_total:
  assumes "table_holds tab path A" and "set bs \<subseteq> A" and "bs_ok s"
    and "\<forall>b\<in>set bs. path b \<noteq> [] \<and> length (path b) \<le> 32"
    and "bs_pos s + (\<Sum>b\<leftarrow>bs. length (path b)) \<le> 8 * length (bsBuf s)"
  shows "\<exists>s'. Huffman_encode tab bs s = Some s'"
  using assms(2-)
proof (induction bs arbitrary: s)
  case (Cons b bs)
  have b: "symCode (tab ! unat b) = code_word (path b)" "symBits (tab ! unat b) = length (path b)"
    using assms(1) Cons.prems(1) by (auto simp: table_holds_def)
  obtain s1 where s1: "Huffman_WriteBits s (code_word (path b)) (length (path b)) = Some s1"
    and w: "bs_wrote s (word_bits (length (path b)) (code_word (path b))) s1"
    using Huffman_WriteBits_total [OF Cons.prems(2), of "length (path b)" "code_word (path b)"] Cons.prems(3,4)
    by auto
  have "bs_pos s1 = bs_pos s + length (path b)" "length (bsBuf s1) = length (bsBuf s)"
    using bs_wrote_pos [OF Cons.prems(2) w] w by (simp_all add: bs_wrote_def)
  with Cons.IH [of s1] Cons.prems s1 b bs_wrote_ok [OF w] show ?case by simp
qed simp

subsection \<open>Reading symbols\<close>

text \<open>The decoding loop, for a way \<open>walk\<close> down a tree of type \<open>'d\<close> from its root to a leaf.\<close>

fun Huffman_decode ::
  "('d \<Rightarrow> bitstream \<Rightarrow> (u32 \<times> bitstream) option) \<Rightarrow> 'd \<Rightarrow> nat \<Rightarrow> bitstream \<Rightarrow> byte list option" where
  "Huffman_decode walk root 0 s = Some []"
| "Huffman_decode walk root (Suc n) s =
     do {
       (x, s) \<leftarrow> walk root s;
       r \<leftarrow> Huffman_decode walk root n s;
       Some (ucast x # r)
     }"

text \<open>
  What the decoding loop needs of a tree: the path to a symbol, read from the stream, leads the
  walk to that symbol.
\<close>

locale symbol_reader =
  fixes walk :: "'d \<Rightarrow> bitstream \<Rightarrow> (u32 \<times> bitstream) option"
    and path :: "'d \<Rightarrow> byte \<Rightarrow> bool list option"
  assumes walk_path: "path d b = Some p \<Longrightarrow> bs_at s (p @ r) \<Longrightarrow>
    \<exists>x s'. walk d s = Some (x, s') \<and> ucast x = b \<and> bs_at s' r"
begin

lemma decode_all:
  "\<forall>b\<in>set bs. path d b = Some (code b) \<Longrightarrow> bs_at s (concat (map code bs) @ r) \<Longrightarrow>
   Huffman_decode walk d (length bs) s = Some bs"
proof (induction bs arbitrary: s)
  case (Cons b bs)
  then obtain x s' where "walk d s = Some (x, s')" "ucast x = b" "bs_at s' (concat (map code bs) @ r)"
    using walk_path [of d b "code b" s "concat (map code bs) @ r"] by auto
  with Cons show ?case by simp
qed simp

end

text \<open>What a reader finds in the bytes the encoder returns.\<close>

lemma bs_wrote_read:
  assumes w: "bs_wrote (Huffman_InitBitstream out) bs s"
  shows "\<exists>r. bs_at (Huffman_InitBitstream (take (bs_total_bytes s) (bsBuf s))) (bs @ r)"
proof -
  have ok0: "bs_ok (Huffman_InitBitstream out)"
    by (simp add: bs_ok_def bs_pos_def Huffman_InitBitstream_def)
  have ok: "bs_ok s" by (rule bs_wrote_ok [OF w])
  have "bs_bits s = bs"
    using w by (simp add: bs_wrote_def bs_bits_def Huffman_InitBitstream_def bs_pos_def)
  then have "take (bs_pos s) (bits_of (bsBuf s)) = bs" by (simp add: bs_bits_def)
  moreover have "bs_pos s \<le> 8 * bs_total_bytes s"
    using ok by (simp add: bs_ok_def bs_pos_def bs_total_bytes_def)
  ultimately have "take (bs_pos s) (take (8 * bs_total_bytes s) (bits_of (bsBuf s))) = bs"
    by (simp add: min.absorb1)
  then have "bits_of (take (bs_total_bytes s) (bsBuf s))
    = bs @ drop (bs_pos s) (take (8 * bs_total_bytes s) (bits_of (bsBuf s)))"
    unfolding bits_of_take using append_take_drop_id [of "bs_pos s"] by metis
  then show ?thesis
    by (auto simp: bs_at_def bs_ok_def bs_pos_def Huffman_InitBitstream_def)
qed

end
