(* ===== verification/Bcl_ShannonFano.thy ===== *)
theory Bcl_ShannonFano
  imports Bcl_Symbols
begin

text \<open>
  The Shannon-Fano coder of the Basic Compression Library, \<open>codecs/bcl/src/shannonfano.c\<close>. Its
  bit stream functions are those of \<open>huffman.c\<close> under other names, and so are the table type and
  the encoding loop. \<open>None\<close> is an access outside a buffer or array, a null pointer, or an
  undefined shift.
\<close>

subsection \<open>Bit stream and symbols\<close>

definition SF_InitBitstream :: "byte list \<Rightarrow> bitstream" where
  "SF_InitBitstream = Huffman_InitBitstream"

definition SF_ReadBit :: "bitstream \<Rightarrow> (u32 \<times> bitstream) option" where
  "SF_ReadBit = Huffman_ReadBit"

definition SF_Read8Bits :: "bitstream \<Rightarrow> (u32 \<times> bitstream) option" where
  "SF_Read8Bits = Huffman_Read8Bits"

definition SF_WriteBits :: "bitstream \<Rightarrow> u32 \<Rightarrow> nat \<Rightarrow> bitstream option" where
  "SF_WriteBits = Huffman_WriteBits"

lemmas SF_bitstream = SF_InitBitstream_def SF_ReadBit_def SF_Read8Bits_def SF_WriteBits_def

text \<open>The histogram, most frequent symbol first.\<close>

definition SF_Hist :: "byte list \<Rightarrow> huff_sym list" where
  "SF_Hist ins = bubble_sort (\<lambda>e. - int (symCount e)) (Huffman_Hist ins)"

subsection \<open>The encoder\<close>

definition SF_size :: "huff_sym list \<Rightarrow> nat \<Rightarrow> nat \<Rightarrow> nat" where
  "SF_size tab first lst = (\<Sum>k\<leftarrow>[first..<Suc lst]. symCount (tab ! k))"

text \<open>\<open>for( k = first; size_a < ((size+1)>>1) && k < last; ++ k ) size_a += sym[k].Count\<close>\<close>

function SF_cut :: "huff_sym list \<Rightarrow> nat \<Rightarrow> nat \<Rightarrow> nat \<Rightarrow> nat \<Rightarrow> nat \<times> nat" where
  "SF_cut tab sz lst k size_a =
     (if size_a < (sz + 1) div 2 \<and> k < lst
      then SF_cut tab sz lst (k + 1) (size_a + symCount (tab ! k))
      else (k, size_a))"
  by pat_completeness auto
termination
  by (relation "measure (\<lambda>(tab, sz, lst, k, size_a). lst - k)") auto

declare SF_cut.simps [simp del]

lemma SF_cut_spec:
  assumes "SF_cut tab sz lst k size_a = (k', size_a')" and "k \<le> lst"
  shows "k \<le> k' \<and> k' \<le> lst \<and> size_a' = size_a + (\<Sum>i\<leftarrow>[k..<k']. symCount (tab ! i))
    \<and> (size_a < (sz + 1) div 2 \<and> k < lst \<longrightarrow> k < k')"
  using assms
proof (induction tab sz lst k size_a rule: SF_cut.induct)
  case (1 tab sz lst k size_a)
  show ?case
  proof (cases "size_a < (sz + 1) div 2 \<and> k < lst")
    case True
    with 1(2) have "SF_cut tab sz lst (k + 1) (size_a + symCount (tab ! k)) = (k', size_a')"
      by (subst (asm) SF_cut.simps) simp
    from 1(1) [OF True this] True show ?thesis by (auto simp: upt_conv_Cons)
  next
    case False
    with 1(2,3) show ?thesis by (subst (asm) SF_cut.simps) auto
  qed
qed

lemma SF_cut_range:
  assumes "SF_cut tab (SF_size tab first lst) lst first 0 = (k, size_a)" and "first \<le> lst"
  shows "first \<le> k \<and> k \<le> lst \<and> size_a = (\<Sum>i\<leftarrow>[first..<k]. symCount (tab ! i))
    \<and> (0 < SF_size tab first lst \<and> first < lst \<longrightarrow> first < k)"
  using SF_cut_spec [OF assms] by auto

function SF_MakeTree ::
  "huff_sym list \<Rightarrow> bitstream \<Rightarrow> u32 \<Rightarrow> nat \<Rightarrow> nat \<Rightarrow> nat \<Rightarrow> (huff_sym list \<times> bitstream) option" where
  "SF_MakeTree tab s code bits first lst =
     (if length tab \<le> lst then None
      else if first = lst then
        do {
          s \<leftarrow> SF_WriteBits s 1 1;
          s \<leftarrow> SF_WriteBits s (word_of_nat (symSymbol (tab ! first))) 8;
          Some (tab[first := (tab ! first)\<lparr>symCode := code, symBits := bits\<rparr>], s)
        }
      else
        do {
          s \<leftarrow> SF_WriteBits s 0 1;
          let sz = SF_size tab first lst;
          let (k, size_a) = SF_cut tab sz lst first 0;
          (tab, s) \<leftarrow>
            (if 0 < size_a then
               do {
                 s \<leftarrow> SF_WriteBits s 1 1;
                 SF_MakeTree tab s (push_bit 1 code + 0) (bits + 1) first (k - 1)
               }
             else do { s \<leftarrow> SF_WriteBits s 0 1; Some (tab, s) });
          let size_b = sz - size_a;
          if 0 < size_b then
            do {
              s \<leftarrow> SF_WriteBits s 1 1;
              SF_MakeTree tab s (push_bit 1 code + 1) (bits + 1) k lst
            }
          else do { s \<leftarrow> SF_WriteBits s 0 1; Some (tab, s) }
        })"
  by pat_completeness auto
termination
proof (relation "measure (\<lambda>(tab, s, code, bits, first, lst). lst - first)", goal_cases)
  case 1
  show ?case by simp
next
  case (2 tab s code bits first lst s1 sz p k size_a s2)
  then have cut: "SF_cut tab (SF_size tab first lst) lst first 0 = (k, size_a)" and "first \<noteq> lst" "0 < size_a" by auto
  have "first \<le> lst"
    using cut \<open>0 < size_a\<close> by (cases "first \<le> lst") (auto simp: SF_size_def SF_cut.simps)
  from SF_cut_range [OF cut this] \<open>0 < size_a\<close> \<open>first \<noteq> lst\<close> show ?case by (cases "k = first") auto
next
  case (3 tab s code bits first lst s1 sz p k size_a q tab' s2 size_b s3)
  then have cut: "SF_cut tab (SF_size tab first lst) lst first 0 = (k, size_a)" and "first \<noteq> lst"
    "0 < SF_size tab first lst" by auto
  have "first \<le> lst"
    using \<open>0 < SF_size tab first lst\<close> by (cases "first \<le> lst") (auto simp: SF_size_def)
  from SF_cut_range [OF cut this] \<open>first \<noteq> lst\<close> \<open>0 < SF_size tab first lst\<close> \<open>first \<le> lst\<close> show ?case by auto
qed

declare SF_MakeTree.simps [simp del]

text \<open>\<open>for( last_symbol = 255; sym[last_symbol].Count == 0; -- last_symbol )\<close>\<close>

fun SF_last_symbol :: "huff_sym list \<Rightarrow> nat \<Rightarrow> nat option" where
  "SF_last_symbol tab n =
     (if symCount (tab ! n) = 0 then (case n of 0 \<Rightarrow> None | Suc m \<Rightarrow> SF_last_symbol tab m) else Some n)"

declare SF_last_symbol.simps [simp del]

definition SF_Compress :: "byte list \<Rightarrow> byte list \<Rightarrow> byte list option" where
  "SF_Compress ins out =
     (if length ins < 1 then Some []
      else do {
        let s = SF_InitBitstream out;
        let tab = SF_Hist ins;
        last_symbol \<leftarrow> SF_last_symbol tab 255;
        let last_symbol = (if last_symbol = 0 then last_symbol + 1 else last_symbol);
        (tab, s) \<leftarrow> SF_MakeTree tab s 0 0 0 last_symbol;
        let tab = bubble_sort (\<lambda>e. int (symSymbol e)) tab;
        s \<leftarrow> Huffman_encode tab ins s;
        Some (take (bs_total_bytes s) (bsBuf s))
      })"

subsection \<open>The decoder\<close>

datatype sf_treenode = SFNull | SFLeaf u32 | SFNode sf_treenode sf_treenode

definition SF_MAX_TREE_NODES :: nat where "SF_MAX_TREE_NODES = 511"

text \<open>As in the Huffman decoder the first argument bounds the depth; a deeper tree has more nodes than the array.\<close>

fun SF_RecoverTree :: "nat \<Rightarrow> nat \<Rightarrow> bitstream \<Rightarrow> (sf_treenode \<times> nat \<times> bitstream) option" where
  "SF_RecoverTree 0 nodenum s = None"
| "SF_RecoverTree (Suc depth) nodenum s =
     (if nodenum < SF_MAX_TREE_NODES then
        do {
          let nodenum = nodenum + 1;
          (x, s) \<leftarrow> SF_ReadBit s;
          if x \<noteq> 0 then
            do {
              (symbol, s) \<leftarrow> SF_Read8Bits s;
              Some (SFLeaf symbol, nodenum, s)
            }
          else
            do {
              (x, s) \<leftarrow> SF_ReadBit s;
              (ta, nodenum, s) \<leftarrow>
                (if x \<noteq> 0 then SF_RecoverTree depth nodenum s else Some (SFNull, nodenum, s));
              (x, s) \<leftarrow> SF_ReadBit s;
              (tb, nodenum, s) \<leftarrow>
                (if x \<noteq> 0 then SF_RecoverTree depth nodenum s else Some (SFNull, nodenum, s));
              Some (SFNode ta tb, nodenum, s)
            }
        }
      else None)"

fun SF_walk :: "sf_treenode \<Rightarrow> bitstream \<Rightarrow> (u32 \<times> bitstream) option" where
  "SF_walk SFNull s = None"
| "SF_walk (SFLeaf x) s = Some (x, s)"
| "SF_walk (SFNode ta tb) s =
     do {
       (b, s) \<leftarrow> SF_ReadBit s;
       if b \<noteq> 0 then SF_walk tb s else SF_walk ta s
     }"

definition SF_Uncompress :: "byte list \<Rightarrow> nat \<Rightarrow> byte list option" where
  "SF_Uncompress ins outsize =
     (if length ins < 1 then Some []
      else do {
        (root, node_count, s) \<leftarrow> SF_RecoverTree SF_MAX_TREE_NODES 0 (SF_InitBitstream ins);
        Huffman_decode SF_walk root outsize s
      })"

subsection \<open>Trees over a stretch of the table\<close>

datatype sf_tree = SEmpty | SLeaf nat | SNode sf_tree sf_tree

fun sf_leaves :: "sf_tree \<Rightarrow> nat list" where
  "sf_leaves SEmpty = []"
| "sf_leaves (SLeaf i) = [i]"
| "sf_leaves (SNode ta tb) = sf_leaves ta @ sf_leaves tb"

fun sf_nodes :: "sf_tree \<Rightarrow> nat" where
  "sf_nodes SEmpty = 0"
| "sf_nodes (SLeaf i) = 1"
| "sf_nodes (SNode ta tb) = 1 + sf_nodes ta + sf_nodes tb"

text \<open>The description of a tree, and of a branch.\<close>

fun sf_bits :: "(nat \<Rightarrow> nat) \<Rightarrow> sf_tree \<Rightarrow> bool list"
  and sf_branch :: "(nat \<Rightarrow> nat) \<Rightarrow> sf_tree \<Rightarrow> bool list" where
  "sf_bits f SEmpty = []"
| "sf_bits f (SLeaf i) = True # word_bits 8 (word_of_nat (f i))"
| "sf_bits f (SNode ta tb) = False # sf_branch f ta @ sf_branch f tb"
| "sf_branch f t = (if t = SEmpty then [False] else True # sf_bits f t)"

fun sf_path :: "sf_tree \<Rightarrow> nat \<Rightarrow> bool list" where
  "sf_path (SNode ta tb) i =
     (if i \<in> set (sf_leaves ta) then False # sf_path ta i else True # sf_path tb i)"
| "sf_path _ i = []"

lemma sf_bits_cong:
  "(\<And>i. i \<in> set (sf_leaves t) \<Longrightarrow> f i = g i) \<Longrightarrow> sf_bits f t = sf_bits g t"
  by (induction t) auto

definition sf_set :: "huff_sym list \<Rightarrow> sf_tree \<Rightarrow> u32 \<Rightarrow> nat \<Rightarrow> huff_sym list \<Rightarrow> bool" where
  "sf_set tab t code bits tab' \<longleftrightarrow>
     length tab' = length tab \<and>
     (\<forall>i<length tab. tab' ! i = (if i \<in> set (sf_leaves t)
        then (tab ! i)\<lparr>symCode := fold code_step (sf_path t i) code, symBits := bits + length (sf_path t i)\<rparr>
        else tab ! i))"

lemma sf_set_keeps:
  "sf_set tab t code bits tab' \<Longrightarrow> i < length tab \<Longrightarrow>
   symSymbol (tab' ! i) = symSymbol (tab ! i) \<and> symCount (tab' ! i) = symCount (tab ! i)"
  by (auto simp: sf_set_def)

lemma sf_set_SNode:
  assumes "sf_set tab ta (push_bit 1 code + 0) (bits + 1) tab1"
    and "sf_set tab1 tb (push_bit 1 code + 1) (bits + 1) tab'"
    and "set (sf_leaves ta) \<inter> set (sf_leaves tb) = {}"
  shows "sf_set tab (SNode ta tb) code bits tab'"
  using assms by (auto simp: sf_set_def code_step_def)

lemma sf_set_SEmpty [simp]: "sf_set tab SEmpty code bits tab' \<longleftrightarrow> tab' = tab"
  by (auto simp: sf_set_def intro: nth_equalityI)

lemma SF_write_bit:
  assumes "SF_WriteBits s x 1 = Some s'" and "bs_ok s"
  shows "bs_wrote s [bit x 0] s'"
  using Huffman_WriteBits_wrote [of s x 1 s'] assms by (simp add: SF_bitstream word_bits_def)

lemma SF_leaf_wrote:
  assumes "SF_MakeTree tab s code bits first first = Some (tab', s')" and "bs_ok s"
  shows "first < length tab" and "bs_wrote s (sf_bits (\<lambda>i. symSymbol (tab ! i)) (SLeaf first)) s'"
    and "sf_set tab (SLeaf first) code bits tab'"
proof -
  from assms(1) show len: "first < length tab"
    by (subst (asm) SF_MakeTree.simps) (auto split: if_splits)
  from assms(1) len obtain s1 where 1: "SF_WriteBits s 1 1 = Some s1"
    and 2: "SF_WriteBits s1 (word_of_nat (symSymbol (tab ! first))) 8 = Some s'"
    and tab': "tab' = tab[first := (tab ! first)\<lparr>symCode := code, symBits := bits\<rparr>]"
    by (subst (asm) SF_MakeTree.simps) (auto simp: bind_eq_Some_conv)
  note w = SF_write_bit [OF 1 assms(2)]
  from bs_wrote_trans [OF w Huffman_WriteBits_wrote [OF bs_wrote_ok [OF w] 2 [unfolded SF_bitstream]]]
  show "bs_wrote s (sf_bits (\<lambda>i. symSymbol (tab ! i)) (SLeaf first)) s'" by simp
  show "sf_set tab (SLeaf first) code bits tab'"
    using len by (auto simp: sf_set_def tab' nth_list_update)
qed

fun sf_full :: "sf_tree \<Rightarrow> bool" where
  "sf_full SEmpty \<longleftrightarrow> False"
| "sf_full (SLeaf i) \<longleftrightarrow> True"
| "sf_full (SNode ta tb) \<longleftrightarrow> sf_full ta \<and> sf_full tb"

lemma sf_full_nodes: "sf_full t \<Longrightarrow> Suc (sf_nodes t) = 2 * length (sf_leaves t)"
  by (induction t) auto

lemma sf_full_path: "sf_full t \<Longrightarrow> length (sf_path t i) < length (sf_leaves t)"
proof (induction t)
  case (SNode ta tb)
  then have "length (sf_path ta i) < length (sf_leaves ta)" "length (sf_path tb i) < length (sf_leaves tb)"
    by simp_all
  then show ?case by simp
qed simp_all

lemma length_sf_branch: "length (sf_branch f t) = 1 + length (sf_bits f t)"
  by simp

lemma length_sf_bits: "length (sf_bits f t) = 6 * length (sf_leaves t) + 3 * sf_nodes t"
  by (induction t) (simp_all add: length_sf_branch del: sf_branch.simps)

lemma upt_append: "i \<le> k \<Longrightarrow> k \<le> j \<Longrightarrow> [i..<Suc j] = [i..<k] @ [k..<Suc j]"
  by (metis le_SucI upt_add_eq_append le_add_diff_inverse)

text \<open>Where all counts are positive the cut leaves two non-empty branches.\<close>

lemma SF_cut_proper:
  assumes "first < lst" and pos: "\<And>i. first \<le> i \<Longrightarrow> i \<le> lst \<Longrightarrow> 0 < symCount (tab ! i)"
  obtains k a where "SF_cut tab (SF_size tab first lst) lst first 0 = (k, a)"
    and "first < k" "k \<le> lst" "0 < a" "0 < SF_size tab first lst - a"
proof -
  obtain k a where cut: "SF_cut tab (SF_size tab first lst) lst first 0 = (k, a)" by fastforce
  have "0 < SF_size tab first lst"
    using pos [of first] assms(1) unfolding SF_size_def by (subst upt_conv_Cons) auto
  then have k: "first < k" "k \<le> lst" "a = (\<Sum>i\<leftarrow>[first..<k]. symCount (tab ! i))"
    using SF_cut_range [OF cut less_imp_le] assms(1) by auto
  have a: "0 < a" using k pos [of first] unfolding k(3) by (subst upt_conv_Cons) auto
  have "SF_size tab first lst = a + (\<Sum>i\<leftarrow>[k..<Suc lst]. symCount (tab ! i))"
    unfolding SF_size_def upt_append [OF less_imp_le [OF k(1)] k(2)] k(3) by simp
  moreover have "0 < (\<Sum>i\<leftarrow>[k..<Suc lst]. symCount (tab ! i))"
    using k pos [of k] by (subst upt_conv_Cons) auto
  ultimately show thesis using that [OF cut k(1,2) a] by simp
qed

lemma SF_MakeTree_wrote:
  assumes "SF_MakeTree tab s code bits first lst = Some (tab', s')" and "bs_ok s" and "first \<le> lst"
    and "\<And>i. first \<le> i \<Longrightarrow> i \<le> lst \<Longrightarrow> 0 < symCount (tab ! i)"
  shows "\<exists>t. t \<noteq> SEmpty \<and> sf_full t \<and> sf_leaves t = [first..<Suc lst] \<and>
    lst < length tab \<and> bs_wrote s (sf_bits (\<lambda>i. symSymbol (tab ! i)) t) s' \<and> sf_set tab t code bits tab'"
  using assms
proof (induction "lst - first" arbitrary: tab s code bits first lst tab' s' rule: less_induct)
  case less
  show ?case
  proof (cases "first = lst")
    case True
    with SF_leaf_wrote [of tab s code bits first tab' s'] less.prems show ?thesis
      by (intro exI [of _ "SLeaf first"]) simp
  next
    case False
    then have lt: "first < lst" using less.prems(3) by simp
    obtain k a where cut: "SF_cut tab (SF_size tab first lst) lst first 0 = (k, a)" and
      k: "first < k" "k \<le> lst" and a: "0 < a" and b: "0 < SF_size tab first lst - a"
      using SF_cut_proper [OF lt less.prems(4)] by blast
    have len: "lst < length tab"
      using less.prems(1) by (subst (asm) SF_MakeTree.simps) (auto split: if_splits)
    from less.prems(1) obtain s1 s2 tab1 s3 s4 where 1: "SF_WriteBits s 0 1 = Some s1" "SF_WriteBits s1 1 1 = Some s2"
      and A: "SF_MakeTree tab s2 (push_bit 1 code + 0) (bits + 1) first (k - 1) = Some (tab1, s3)"
      and 2: "SF_WriteBits s3 1 1 = Some s4"
      and B: "SF_MakeTree tab1 s4 (push_bit 1 code + 1) (bits + 1) k lst = Some (tab', s')"
      using False len cut a b by (subst (asm) SF_MakeTree.simps) (auto simp: bind_eq_Some_conv Let_def)
    have w1: "bs_wrote s [False] s1" using SF_write_bit [OF 1(1) less.prems(2)] by simp
    have w2: "bs_wrote s1 [True] s2" using SF_write_bit [OF 1(2) bs_wrote_ok [OF w1]] by simp
    obtain ta where ta: "ta \<noteq> SEmpty" "sf_full ta" "sf_leaves ta = [first..<k]"
      "bs_wrote s2 (sf_bits (\<lambda>i. symSymbol (tab ! i)) ta) s3" "sf_set tab ta (push_bit 1 code + 0) (bits + 1) tab1"
      using less.hyps [OF _ A bs_wrote_ok [OF w2]] k less.prems(4) by fastforce
    have w3: "bs_wrote s3 [True] s4" using SF_write_bit [OF 2 bs_wrote_ok [OF ta(4)]] by simp
    have "0 < symCount (tab1 ! i)" if "k \<le> i" "i \<le> lst" for i
      using sf_set_keeps [OF ta(5), of i] that len k less.prems(4) [of i] by simp
    then obtain tb where tb: "tb \<noteq> SEmpty" "sf_full tb" "sf_leaves tb = [k..<Suc lst]"
      "bs_wrote s4 (sf_bits (\<lambda>i. symSymbol (tab1 ! i)) tb) s'" "sf_set tab1 tb (push_bit 1 code + 1) (bits + 1) tab'"
      using less.hyps [OF _ B bs_wrote_ok [OF w3] k(2)] k by fastforce
    have "sf_bits (\<lambda>i. symSymbol (tab1 ! i)) tb = sf_bits (\<lambda>i. symSymbol (tab ! i)) tb"
      using sf_set_keeps [OF ta(5)] tb(3) len by (intro sf_bits_cong) auto
    with tb(4) have "bs_wrote s4 (sf_bits (\<lambda>i. symSymbol (tab ! i)) tb) s'" by simp
    from bs_wrote_trans [OF w1 bs_wrote_trans [OF w2 bs_wrote_trans [OF ta(4) bs_wrote_trans [OF w3 this]]]]
    have "bs_wrote s (sf_bits (\<lambda>i. symSymbol (tab ! i)) (SNode ta tb)) s'" using ta(1) tb(1) by simp
    moreover have "sf_set tab (SNode ta tb) code bits tab'"
      by (rule sf_set_SNode [OF ta(5) tb(5)]) (auto simp: ta(3) tb(3))
    ultimately show ?thesis
      using ta(2,3) tb(2,3) upt_append [of first k lst] k len
      by (intro exI [of _ "SNode ta tb"]) simp
  qed
qed

text \<open>The special case of a block with a single symbol: the second symbol has count 0.\<close>

lemma SF_MakeTree_single:
  assumes "SF_MakeTree tab s code bits 0 1 = Some (tab', s')" and "bs_ok s"
    and "0 < symCount (tab ! 0)" "symCount (tab ! 1) = 0"
  shows "bs_wrote s (sf_bits (\<lambda>i. symSymbol (tab ! i)) (SNode (SLeaf 0) SEmpty)) s' \<and>
    sf_set tab (SNode (SLeaf 0) SEmpty) code bits tab'"
proof -
  have len: "1 < length tab"
    using assms(1) by (subst (asm) SF_MakeTree.simps) (auto split: if_splits)
  have sz: "SF_size tab 0 1 = symCount (tab ! 0)"
    using assms(4) by (simp add: SF_size_def upt_rec)
  have cut: "SF_cut tab (SF_size tab 0 1) 1 0 0 = (1, symCount (tab ! 0))"
    unfolding sz using assms(3) by (simp add: SF_cut.simps)
  from assms(1) obtain s1 s2 tab1 s3 where 1: "SF_WriteBits s 0 1 = Some s1" "SF_WriteBits s1 1 1 = Some s2"
    and A: "SF_MakeTree tab s2 (push_bit 1 code + 0) (bits + 1) 0 0 = Some (tab1, s3)"
    and 2: "SF_WriteBits s3 0 1 = Some s'" and tab': "tab' = tab1"
    using len assms(3) cut sz by (subst (asm) SF_MakeTree.simps) (auto simp: bind_eq_Some_conv Let_def)
  have w1: "bs_wrote s [False] s1" using SF_write_bit [OF 1(1) assms(2)] by simp
  have w2: "bs_wrote s1 [True] s2" using SF_write_bit [OF 1(2) bs_wrote_ok [OF w1]] by simp
  note leaf = SF_leaf_wrote [OF A bs_wrote_ok [OF w2]]
  have w3: "bs_wrote s3 [False] s'" using SF_write_bit [OF 2 bs_wrote_ok [OF leaf(2)]] by simp
  from bs_wrote_trans [OF w1 bs_wrote_trans [OF w2 bs_wrote_trans [OF leaf(2) w3]]]
    sf_set_SNode [OF leaf(3), of SEmpty tab'] tab' show ?thesis by simp
qed

subsection \<open>Recovering the tree\<close>

fun sf_match :: "(nat \<Rightarrow> nat) \<Rightarrow> sf_tree \<Rightarrow> sf_treenode \<Rightarrow> bool" where
  "sf_match f SEmpty SFNull \<longleftrightarrow> True"
| "sf_match f (SLeaf i) (SFLeaf x) \<longleftrightarrow> (ucast x :: byte) = to_byte (f i)"
| "sf_match f (SNode ta tb) (SFNode da db) \<longleftrightarrow> sf_match f ta da \<and> sf_match f tb db"
| "sf_match f _ _ \<longleftrightarrow> False"

lemma SF_ReadBit_at:
  assumes "bs_at s (b # r)"
  obtains s' where "SF_ReadBit s = Some (of_bool b, s')" and "bs_at s' r"
  using Huffman_ReadBit_at [OF assms] by (auto simp: SF_bitstream)

text \<open>Reading one branch: its flag and, if the flag is set, the tree.\<close>

definition recovers :: "(nat \<Rightarrow> nat) \<Rightarrow> sf_tree \<Rightarrow> bool" where
  "recovers f t \<longleftrightarrow>
     (\<forall>s nodenum depth b r. bs_at s (sf_bits f t @ b # r) \<longrightarrow> nodenum + sf_nodes t \<le> SF_MAX_TREE_NODES \<longrightarrow>
        sf_nodes t \<le> depth \<longrightarrow>
        (\<exists>d s'. SF_RecoverTree depth nodenum s = Some (d, nodenum + sf_nodes t, s') \<and> sf_match f t d \<and>
           bs_at s' (b # r)))"

lemma recovers_branch:
  assumes "t \<noteq> SEmpty \<longrightarrow> recovers f t" and "bs_at s (sf_branch f t @ b # r)"
    and "nodenum + sf_nodes t \<le> SF_MAX_TREE_NODES" and "sf_nodes t \<le> depth"
  obtains x s1 d s' where "SF_ReadBit s = Some (x, s1)"
    and "(if x \<noteq> 0 then SF_RecoverTree depth nodenum s1 else Some (SFNull, nodenum, s1))
      = Some (d, nodenum + sf_nodes t, s')"
    and "sf_match f t d" and "bs_at s' (b # r)"
proof (cases "t = SEmpty")
  case True
  with assms(2) have "bs_at s (False # b # r)" by simp
  then obtain s1 where "SF_ReadBit s = Some (0, s1)" "bs_at s1 (b # r)"
    using SF_ReadBit_at [of s False] by auto
  with that [of 0 s1 SFNull s1] True show thesis by simp
next
  case False
  with assms(2) have "bs_at s (True # sf_bits f t @ b # r)" by simp
  then obtain s1 where 1: "SF_ReadBit s = Some (1, s1)" "bs_at s1 (sf_bits f t @ b # r)"
    using SF_ReadBit_at [of s True] by auto
  with assms(1,3,4) False obtain d s' where "SF_RecoverTree depth nodenum s1 = Some (d, nodenum + sf_nodes t, s')"
    "sf_match f t d" "bs_at s' (b # r)" unfolding recovers_def by blast
  with that [of 1 s1 d s'] 1(1) show thesis by simp
qed

lemma SF_RecoverTree_at: "t \<noteq> SEmpty \<longrightarrow> recovers f t"
proof (induction t)
  case (SLeaf i)
  have "\<exists>d s'. SF_RecoverTree depth nodenum s = Some (d, nodenum + 1, s') \<and> sf_match f (SLeaf i) d \<and> bs_at s' (b # r)"
    if at: "bs_at s (True # word_bits 8 (word_of_nat (f i)) @ b # r)" and nodes: "nodenum < SF_MAX_TREE_NODES" and dep: "0 < depth"
    for s nodenum depth b r
  proof -
    obtain n where depth: "depth = Suc n" using dep by (cases depth) auto
    obtain s1 where 1: "SF_ReadBit s = Some (1, s1)" "bs_at s1 (word_bits 8 (word_of_nat (f i)) @ b # r)"
      using SF_ReadBit_at [OF at] by auto
    obtain y s2 where 2: "SF_Read8Bits s1 = Some (y, s2)" "ucast y = (ucast (word_of_nat (f i) :: u32) :: byte)"
      "bs_at s2 (b # r)"
      using Huffman_Read8Bits_at [OF 1(2)] by (auto simp: SF_bitstream)
    have "ucast (word_of_nat (f i) :: u32) = to_byte (f i)"
      by (rule bit_word_eqI) (auto simp: bit_ucast_iff bit_of_nat_iff possible_bit_word)
    with 2 1(1) nodes show ?thesis by (simp add: depth Let_def)
  qed
  then show ?case by (auto simp: recovers_def)
next
  case (SNode ta tb)
  have "\<exists>d s'. SF_RecoverTree depth nodenum s = Some (d, nodenum + sf_nodes (SNode ta tb), s') \<and>
      sf_match f (SNode ta tb) d \<and> bs_at s' (b # r)"
    if at: "bs_at s (False # sf_branch f ta @ sf_branch f tb @ b # r)"
      and nodes: "nodenum + sf_nodes (SNode ta tb) \<le> SF_MAX_TREE_NODES" and dep: "sf_nodes (SNode ta tb) \<le> depth"
    for s nodenum depth b r
  proof -
    obtain n where depth: "depth = Suc n" using dep by (cases depth) auto
    obtain s1 where 1: "SF_ReadBit s = Some (0, s1)" "bs_at s1 (sf_branch f ta @ sf_branch f tb @ b # r)"
      using SF_ReadBit_at [OF at] by auto
    obtain c q where q: "sf_branch f tb @ b # r = c # q" by (cases "sf_branch f tb @ b # r") auto
    have at1: "bs_at s1 (sf_branch f ta @ c # q)" using 1(2) by (simp only: q)
    have bounds: "nodenum + 1 + sf_nodes ta \<le> SF_MAX_TREE_NODES" "sf_nodes ta \<le> n"
      "nodenum + 1 + sf_nodes ta + sf_nodes tb \<le> SF_MAX_TREE_NODES" "sf_nodes tb \<le> n"
      using nodes dep depth by simp_all
    obtain x s2 da s3 where 2: "SF_ReadBit s1 = Some (x, s2)"
      "(if x \<noteq> 0 then SF_RecoverTree n (nodenum + 1) s2 else Some (SFNull, nodenum + 1, s2))
        = Some (da, nodenum + 1 + sf_nodes ta, s3)"
      "sf_match f ta da" "bs_at s3 (c # q)"
      by (rule recovers_branch [OF SNode.IH(1) at1 bounds(1,2)])
    have at2: "bs_at s3 (sf_branch f tb @ b # r)" using 2(4) by (simp only: q)
    obtain y s4 db s5 where 3: "SF_ReadBit s3 = Some (y, s4)"
      "(if y \<noteq> 0 then SF_RecoverTree n (nodenum + 1 + sf_nodes ta) s4 else Some (SFNull, nodenum + 1 + sf_nodes ta, s4))
        = Some (db, nodenum + 1 + sf_nodes ta + sf_nodes tb, s5)"
      "sf_match f tb db" "bs_at s5 (b # r)"
      by (rule recovers_branch [OF SNode.IH(2) at2 bounds(3,4)])
    from 1(1) 2(1,2,3) 3 nodes show ?thesis
      by (cases "x = 0"; cases "y = 0") (auto simp: depth Let_def)
  qed
  then show ?case by (auto simp: recovers_def simp del: sf_branch.simps)
qed simp

fun SF_path :: "sf_treenode \<Rightarrow> byte \<Rightarrow> bool list option" where
  "SF_path SFNull b = None"
| "SF_path (SFLeaf x) b = (if ucast x = b then Some [] else None)"
| "SF_path (SFNode da db) b =
     (case SF_path da b of
        Some p \<Rightarrow> Some (False # p)
      | None \<Rightarrow> map_option (Cons True) (SF_path db b))"

lemma SF_walk_path:
  "SF_path d b = Some p \<Longrightarrow> bs_at s (p @ r) \<Longrightarrow>
    \<exists>x s'. SF_walk d s = Some (x, s') \<and> ucast x = b \<and> bs_at s' r"
proof (induction d arbitrary: p s)
  case (SFNode da db)
  show ?case
  proof (cases "SF_path da b")
    case None
    with SFNode.prems obtain q where q: "p = True # q" "SF_path db b = Some q" by auto
    with SFNode.prems(2) obtain s1 where "SF_ReadBit s = Some (1, s1)" "bs_at s1 (q @ r)"
      using SF_ReadBit_at [of s True "q @ r"] by auto
    with SFNode.IH(2) [OF q(2), of s1] show ?thesis by auto
  next
    case (Some q)
    with SFNode.prems have q: "p = False # q" by auto
    with SFNode.prems(2) obtain s1 where "SF_ReadBit s = Some (0, s1)" "bs_at s1 (q @ r)"
      using SF_ReadBit_at [of s False "q @ r"] by auto
    with SFNode.IH(1) [OF Some, of s1] show ?thesis by auto
  qed
qed (simp_all split: if_splits)

interpretation sf: symbol_reader SF_walk SF_path
  by unfold_locales (rule SF_walk_path)

lemma sf_match_none:
  "sf_match f t d \<Longrightarrow> (\<And>i. i \<in> set (sf_leaves t) \<Longrightarrow> to_byte (f i) \<noteq> b) \<Longrightarrow> SF_path d b = None"
  by (induction f t d rule: sf_match.induct) auto

lemma sf_match_path:
  "sf_match f t d \<Longrightarrow> i \<in> set (sf_leaves t) \<Longrightarrow> inj_on (\<lambda>i. to_byte (f i)) (set (sf_leaves t)) \<Longrightarrow>
   SF_path d (to_byte (f i)) = Some (sf_path t i)"
proof (induction f t d rule: sf_match.induct)
  case (3 f ta tb da db)
  show ?case
  proof (cases "i \<in> set (sf_leaves ta)")
    case True
    with 3 show ?thesis by (simp add: inj_on_Un)
  next
    case False
    have "SF_path da (to_byte (f i)) = None"
    proof (rule sf_match_none)
      show "sf_match f ta da" using 3(3) by simp
      show "to_byte (f j) \<noteq> to_byte (f i)" if "j \<in> set (sf_leaves ta)" for j
        using 3(4,5) that False by (auto dest: inj_onD)
    qed
    with 3 False show ?thesis by (simp add: inj_on_Un)
  qed
qed auto

subsection \<open>The whole block\<close>

lemma SF_Hist_mset: "mset (SF_Hist ins) = mset (Huffman_Hist ins)"
  by (simp add: SF_Hist_def mset_bubble_sort)

lemma SF_Hist_length: "length (SF_Hist ins) = 256"
  using SF_Hist_mset [of ins] by (metis length_Huffman_Hist size_mset)

lemma Huffman_Hist_symbols: "map symSymbol (Huffman_Hist ins) = [0..<256]"
  by (rule nth_equalityI) (simp_all add: Huffman_Hist_index)

lemma SF_Hist_symbols: "mset (map symSymbol (SF_Hist ins)) = mset [0..<256]"
  using SF_Hist_mset [of ins] Huffman_Hist_symbols [of ins] by (metis mset_map)

lemma SF_Hist_distinct: "distinct (map symSymbol (SF_Hist ins))"
  using SF_Hist_symbols [of ins] by (metis distinct_upt mset_eq_imp_distinct_iff)

lemma SF_Hist_symbol_less: "i < 256 \<Longrightarrow> symSymbol (SF_Hist ins ! i) < 256"
proof -
  assume "i < 256"
  then have "symSymbol (SF_Hist ins ! i) \<in> set (map symSymbol (SF_Hist ins))"
    by (simp add: SF_Hist_length)
  then show ?thesis using SF_Hist_symbols [of ins] by (metis atLeastLessThan_iff mset_eq_setD set_upt)
qed

lemma SF_Hist_count:
  assumes "i < 256"
  shows "symCount (SF_Hist ins ! i) = count_list ins (to_byte (symSymbol (SF_Hist ins ! i)))"
proof -
  have "SF_Hist ins ! i \<in> set (Huffman_Hist ins)"
    using assms SF_Hist_mset [of ins] by (metis SF_Hist_length mset_eq_setD nth_mem)
  then obtain k where "k < 256" "SF_Hist ins ! i = Huffman_Hist ins ! k" by (auto simp: in_set_conv_nth)
  then show ?thesis by (simp add: Huffman_Hist_index)
qed

lemma SF_Hist_sorted: "i \<le> j \<Longrightarrow> j < 256 \<Longrightarrow> symCount (SF_Hist ins ! j) \<le> symCount (SF_Hist ins ! i)"
  using sorted_bubble_sort [of "\<lambda>e. - int (symCount e)" "Huffman_Hist ins"]
  by (auto simp: sorted_iff_nth_mono SF_Hist_def [symmetric] SF_Hist_length)

text \<open>The place of a symbol in the sorted histogram.\<close>

definition sf_index :: "huff_sym list \<Rightarrow> byte \<Rightarrow> nat" where
  "sf_index tab b = length (takeWhile (\<lambda>e. symSymbol e \<noteq> unat b) tab)"

lemma takeWhile_less: "\<exists>x\<in>set xs. \<not> P x \<Longrightarrow> length (takeWhile P xs) < length xs"
  by (induction xs) auto

lemma sf_index_SF_Hist:
  "sf_index (SF_Hist ins) b < 256" "symSymbol (SF_Hist ins ! sf_index (SF_Hist ins) b) = unat b"
proof -
  let ?h = "SF_Hist ins"
  have "unat b \<in> set (map symSymbol ?h)"
    using SF_Hist_symbols [of ins] by (metis atLeastLessThan_iff mset_eq_setD set_upt unat_byte_less zero_le)
  then have ex: "\<exists>e\<in>set ?h. \<not> symSymbol e \<noteq> unat b" by auto
  then have "length (takeWhile (\<lambda>e. symSymbol e \<noteq> unat b) ?h) < length ?h"
    by (rule takeWhile_less)
  then show "sf_index ?h b < 256" by (simp add: sf_index_def SF_Hist_length)
  then show "symSymbol (?h ! sf_index ?h b) = unat b"
    using nth_length_takeWhile [of "\<lambda>e. symSymbol e \<noteq> unat b" ?h] by (simp add: sf_index_def SF_Hist_length)
qed

lemma SF_last_symbol_spec:
  "SF_last_symbol tab n = Some l \<Longrightarrow> l \<le> n \<and> 0 < symCount (tab ! l) \<and> (\<forall>i. l < i \<longrightarrow> i \<le> n \<longrightarrow> symCount (tab ! i) = 0)"
proof (induction n arbitrary: l)
  case 0
  then show ?case by (subst (asm) SF_last_symbol.simps) (auto split: if_splits)
next
  case (Suc n)
  show ?case
  proof (cases "symCount (tab ! Suc n) = 0")
    case True
    with Suc.prems have "SF_last_symbol tab n = Some l" by (subst (asm) SF_last_symbol.simps) auto
    from Suc.IH [OF this] True show ?thesis by (auto simp: le_Suc_eq)
  next
    case False
    with Suc.prems have "l = Suc n" by (subst (asm) SF_last_symbol.simps) auto
    with False show ?thesis by auto
  qed
qed

definition sf_code :: "byte list \<Rightarrow> sf_tree \<Rightarrow> byte \<Rightarrow> bool list" where
  "sf_code ins t b = sf_path t (sf_index (SF_Hist ins) b)"

lemma sf_table_holds:
  assumes "sf_set (SF_Hist ins) t 0 0 tab"
    and "\<And>b. b \<in> set ins \<Longrightarrow> sf_index (SF_Hist ins) b \<in> set (sf_leaves t)"
  shows "table_holds (bubble_sort (\<lambda>e. int (symSymbol e)) tab) (sf_code ins t) (set ins)"
proof -
  let ?h = "SF_Hist ins" and ?t = "bubble_sort (\<lambda>e. int (symSymbol e)) tab"
  have len: "length tab = 256" using assms(1) by (simp add: sf_set_def SF_Hist_length)
  have sym: "map symSymbol tab = map symSymbol ?h"
    using sf_set_keeps [OF assms(1)] len by (intro nth_equalityI) (simp_all add: SF_Hist_length)
  then have sort: "map symSymbol ?t = [0..<256]"
    by (intro bubble_sort_symbols) (simp only: SF_Hist_symbols)
  have lt: "length ?t = 256" using sort by (metis length_map length_upt minus_nat.diff_0)
  have "symCode (?t ! unat b) = code_word (sf_code ins t b) \<and> symBits (?t ! unat b) = length (sf_code ins t b)"
    if "b \<in> set ins" for b
  proof -
    let ?i = "sf_index ?h b"
    have "?t ! unat b \<in> set tab"
      using lt mset_bubble_sort [of "\<lambda>e. int (symSymbol e)" tab]
      by (metis mset_eq_setD nth_mem unat_byte_less)
    then obtain j where j: "j < 256" "?t ! unat b = tab ! j" using len by (auto simp: in_set_conv_nth)
    have "symSymbol (tab ! j) = unat b"
      using sort lt nth_map [of "unat b" ?t symSymbol] by (simp flip: j(2))
    then have "map symSymbol ?h ! j = map symSymbol ?h ! ?i"
      using sf_index_SF_Hist [of ins b] j(1) sym len nth_map [of j tab symSymbol] by (simp add: SF_Hist_length)
    then have "j = ?i"
      using nth_eq_iff_index_eq [OF SF_Hist_distinct, of j ins ?i] j(1) sf_index_SF_Hist(1) [of ins b]
      by (simp add: SF_Hist_length)
    then show ?thesis
      using assms j by (auto simp: sf_set_def SF_Hist_length that sf_code_def code_word_def)
  qed
  then show ?thesis by (simp add: table_holds_def)
qed

text \<open>The tree that the encoder stores.\<close>

definition sf_tree_of :: "byte list \<Rightarrow> sf_tree \<Rightarrow> bool" where
  "sf_tree_of ins t \<longleftrightarrow>
     t \<noteq> SEmpty \<and> sf_nodes t \<le> SF_MAX_TREE_NODES \<and> set (sf_leaves t) \<subseteq> {..<256} \<and>
     (\<forall>b\<in>set ins. sf_index (SF_Hist ins) b \<in> set (sf_leaves t))"

lemma SF_MakeTree_tree:
  assumes "SF_last_symbol (SF_Hist ins) 255 = Some l" and "bs_ok s"
    and "SF_MakeTree (SF_Hist ins) s 0 0 0 (if l = 0 then l + 1 else l) = Some (tab, s')"
  shows "\<exists>t. sf_tree_of ins t \<and> bs_wrote s (sf_bits (\<lambda>i. symSymbol (SF_Hist ins ! i)) t) s' \<and>
    sf_set (SF_Hist ins) t 0 0 tab \<and>
    (if l = 0 then t = SNode (SLeaf 0) SEmpty else sf_full t \<and> length (sf_leaves t) = Suc l)"
proof -
  let ?h = "SF_Hist ins"
  note l = SF_last_symbol_spec [OF assms(1)]
  have used: "sf_index ?h b \<le> l" if "b \<in> set ins" for b
  proof (rule ccontr)
    assume "\<not> sf_index ?h b \<le> l"
    then have "symCount (?h ! sf_index ?h b) = 0" using l sf_index_SF_Hist(1) [of ins b] by auto
    then show False
      using that SF_Hist_count [OF sf_index_SF_Hist(1), of ins ins b] by (simp add: sf_index_SF_Hist count_list_0_iff)
  qed
  show ?thesis
  proof (cases "l = 0")
    case True
    have "symCount (?h ! 1) = 0" "0 < symCount (?h ! 0)" using l True by auto
    with SF_MakeTree_single [of ?h s 0 0 tab s'] assms(2,3) True used show ?thesis
      by (intro exI [of _ "SNode (SLeaf 0) SEmpty"]) (auto simp: sf_tree_of_def SF_MAX_TREE_NODES_def)
  next
    case False
    have pos: "0 < symCount (?h ! i)" if "i \<le> l" for i
      using l SF_Hist_sorted [OF that, of ins] by auto
    from SF_MakeTree_wrote [OF _ assms(2), of ?h 0 0 0 l tab s'] assms(3) False pos
    obtain t where t: "t \<noteq> SEmpty" "sf_full t" "sf_leaves t = [0..<Suc l]"
      "bs_wrote s (sf_bits (\<lambda>i. symSymbol (?h ! i)) t) s'" "sf_set ?h t 0 0 tab" by auto
    moreover have "sf_index ?h b \<in> set (sf_leaves t)" if "b \<in> set ins" for b
      using used [OF that] unfolding t(3) by auto
    moreover have "sf_nodes t \<le> SF_MAX_TREE_NODES" using sf_full_nodes [OF t(2)] t(3) l by (simp add: SF_MAX_TREE_NODES_def)
    moreover have "set (sf_leaves t) \<subseteq> {..<256}" unfolding t(3) using l by auto
    moreover have "length (sf_leaves t) = Suc l" by (simp add: t(3))
    ultimately show ?thesis using False unfolding sf_tree_of_def by (intro exI [of _ t]) auto
  qed
qed

text \<open>What \<open>SF_Compress\<close> has written: the tree and the codes of the bytes.\<close>

lemma SF_Compress_wrote:
  assumes "SF_Compress ins out = Some z" "ins \<noteq> []"
  obtains t s where "sf_tree_of ins t" "\<forall>b\<in>set ins. sf_code ins t b \<noteq> []"
    and "bs_wrote (Huffman_InitBitstream out)
      (sf_bits (\<lambda>i. symSymbol (SF_Hist ins ! i)) t @ concat (map (sf_code ins t) ins)) s"
    and "z = take (bs_total_bytes s) (bsBuf s)"
proof -
  let ?h = "SF_Hist ins" and ?s0 = "Huffman_InitBitstream out"
  have ok: "bs_ok ?s0" by (simp add: bs_ok_def bs_pos_def Huffman_InitBitstream_def)
  from assms obtain l tab s1 s where last: "SF_last_symbol ?h 255 = Some l"
    and make: "SF_MakeTree ?h ?s0 0 0 0 (if l = 0 then l + 1 else l) = Some (tab, s1)"
    and enc: "Huffman_encode (bubble_sort (\<lambda>e. int (symSymbol e)) tab) ins s1 = Some s"
    and z: "z = take (bs_total_bytes s) (bsBuf s)"
    unfolding SF_Compress_def SF_bitstream Let_def by (auto simp: bind_eq_Some_conv)
  obtain t where t: "sf_tree_of ins t" and w: "bs_wrote ?s0 (sf_bits (\<lambda>i. symSymbol (?h ! i)) t) s1"
    and set: "sf_set ?h t 0 0 tab"
    using SF_MakeTree_tree [OF last ok make] by blast
  have "table_holds (bubble_sort (\<lambda>e. int (symSymbol e)) tab) (sf_code ins t) (set ins)"
    using t by (intro sf_table_holds [OF set]) (simp add: sf_tree_of_def)
  note enc = Huffman_encode_wrote [OF this subset_refl bs_wrote_ok [OF w] enc]
  show thesis using that [OF t _ _ z] enc bs_wrote_trans [OF w] by blast
qed

lemma SF_symbols_inj: "inj_on (\<lambda>i. to_byte (symSymbol (SF_Hist ins ! i))) {..<256}"
proof (rule inj_onI)
  fix i j :: nat
  assume "i \<in> {..<256}" "j \<in> {..<256}" and eq: "to_byte (symSymbol (SF_Hist ins ! i)) = to_byte (symSymbol (SF_Hist ins ! j))"
  then have ij: "i < 256" "j < 256" by auto
  from eq have "symSymbol (SF_Hist ins ! i) = symSymbol (SF_Hist ins ! j)"
    using SF_Hist_symbol_less [OF ij(1), of ins] SF_Hist_symbol_less [OF ij(2), of ins] by (metis unat_to_byte)
  then show "i = j"
    using nth_eq_iff_index_eq [OF SF_Hist_distinct, of i ins j] ij by (simp add: SF_Hist_length)
qed


subsection \<open>When the encoder succeeds\<close>

lemma SF_WriteBits_total:
  assumes "bs_ok s" and "0 < n" "n \<le> 32" and "bs_pos s + n \<le> 8 * length (bsBuf s)"
  obtains s' where "SF_WriteBits s x n = Some s'" and "bs_ok s'" and "bs_pos s' = bs_pos s + n"
    and "length (bsBuf s') = length (bsBuf s)"
proof -
  obtain s' where s': "Huffman_WriteBits s x n = Some s'" and w: "bs_wrote s (word_bits n x) s'"
    by (rule Huffman_WriteBits_total [OF assms])
  with that [of s'] bs_wrote_pos [OF assms(1) w] show thesis by (simp add: SF_bitstream bs_wrote_def)
qed

lemma SF_MakeTree_pos:
  assumes "SF_MakeTree tab s code bits first lst = Some (tab', s')" "bs_ok s" "first \<le> lst"
    and "\<And>i. first \<le> i \<Longrightarrow> i \<le> lst \<Longrightarrow> 0 < symCount (tab ! i)"
  shows "bs_pos s' + 3 = bs_pos s + 12 * (Suc lst - first)"
proof -
  obtain t where t: "sf_full t" "sf_leaves t = [first..<Suc lst]" "bs_wrote s (sf_bits (\<lambda>i. symSymbol (tab ! i)) t) s'"
    using SF_MakeTree_wrote [OF assms] by blast
  have "Suc (sf_nodes t) = 2 * length (sf_leaves t)" by (rule sf_full_nodes [OF t(1)])
  moreover have "length (sf_leaves t) = Suc lst - first" by (simp add: t(2) del: upt_Suc)
  ultimately show ?thesis
    using bs_wrote_pos [OF assms(2) t(3)] assms(3) unfolding length_sf_bits by linarith
qed

lemma SF_MakeTree_leaf_total:
  assumes "bs_ok s" "first < length tab" "bs_pos s + 9 \<le> 8 * length (bsBuf s)"
  shows "\<exists>tab' s'. SF_MakeTree tab s code bits first first = Some (tab', s')"
proof -
  obtain s1 where 1: "SF_WriteBits s 1 1 = Some s1" "bs_ok s1" "bs_pos s1 = bs_pos s + 1" "length (bsBuf s1) = length (bsBuf s)"
    by (rule SF_WriteBits_total [of s 1 1]) (use assms in auto)
  obtain s2 where "SF_WriteBits s1 (word_of_nat (symSymbol (tab ! first))) 8 = Some s2"
    by (rule SF_WriteBits_total [OF 1(2), of 8 "word_of_nat (symSymbol (tab ! first))"]) (use 1 assms in auto)
  with 1 assms(2) show ?thesis by (subst SF_MakeTree.simps) simp
qed

lemma SF_MakeTree_total:
  assumes "bs_ok s" and "first \<le> lst" and "lst < length tab"
    and "\<And>i. first \<le> i \<Longrightarrow> i \<le> lst \<Longrightarrow> 0 < symCount (tab ! i)"
    and "bs_pos s + 12 * (Suc lst - first) \<le> 8 * length (bsBuf s) + 3"
  shows "\<exists>tab' s'. SF_MakeTree tab s code bits first lst = Some (tab', s')"
  using assms
proof (induction "lst - first" arbitrary: tab s code bits first lst rule: less_induct)
  case less
  show ?case
  proof (cases "first = lst")
    case True
    with less.prems show ?thesis by (auto intro: SF_MakeTree_leaf_total)
  next
    case False
    then have lt: "first < lst" using less.prems(2) by simp
    obtain k a where cut: "SF_cut tab (SF_size tab first lst) lst first 0 = (k, a)" and
      k: "first < k" "k \<le> lst" and a: "0 < a" and b: "0 < SF_size tab first lst - a"
      using SF_cut_proper [OF lt less.prems(4)] by blast
    define na nb where "na = k - first" and "nb = Suc lst - k"
    have n: "Suc lst - first = na + nb" "0 < na" "0 < nb" using k by (auto simp: na_def nb_def)
    have len: "bs_pos s + 12 * na + 12 * nb \<le> 8 * length (bsBuf s) + 3" using less.prems(5) by (simp add: n(1))
    obtain s1 where 1: "SF_WriteBits s 0 1 = Some s1" "bs_ok s1" "bs_pos s1 = bs_pos s + 1" "length (bsBuf s1) = length (bsBuf s)"
      by (rule SF_WriteBits_total [of s 1 0]) (use less.prems(1) len n in auto)
    obtain s2 where 2: "SF_WriteBits s1 1 1 = Some s2" "bs_ok s2" "bs_pos s2 = bs_pos s + 2" "length (bsBuf s2) = length (bsBuf s)"
      by (rule SF_WriteBits_total [OF 1(2), of 1 1]) (use 1 len n in auto)
    have pa: "0 < symCount (tab ! i)" if "first \<le> i" "i \<le> k - 1" for i using less.prems(4) that k by simp
    have "\<exists>tab1 s3. SF_MakeTree tab s2 (push_bit 1 code + 0) (bits + 1) first (k - 1) = Some (tab1, s3)"
      using k 2 len less.prems(3) n pa by (intro less.hyps) (auto simp: na_def)
    then obtain tab1 s3 where A: "SF_MakeTree tab s2 (push_bit 1 code + 0) (bits + 1) first (k - 1) = Some (tab1, s3)" by blast
    have "first \<le> k - 1" using k by simp
    then have A1: "bs_pos s3 + 3 = bs_pos s2 + 12 * na"
      using SF_MakeTree_pos [OF A 2(2) _ pa] k by (simp add: na_def)
    have "first \<le> k - 1" using k by simp
    from SF_MakeTree_wrote [OF A 2(2) this pa] obtain t where
      w: "bs_wrote s2 (sf_bits (\<lambda>i. symSymbol (tab ! i)) t) s3" and set: "sf_set tab t (push_bit 1 code + 0) (bits + 1) tab1"
      by blast
    have s3: "bs_ok s3" "length (bsBuf s3) = length (bsBuf s)" using w 2 by (simp_all add: bs_wrote_def)
    obtain s4 where 4: "SF_WriteBits s3 1 1 = Some s4" "bs_ok s4" "bs_pos s4 = bs_pos s3 + 1" "length (bsBuf s4) = length (bsBuf s3)"
      by (rule SF_WriteBits_total [OF s3(1), of 1 1]) (use s3 A1 2 len n in auto)
    have pb: "0 < symCount (tab1 ! i)" if "k \<le> i" "i \<le> lst" for i
      using sf_set_keeps [OF set, of i] that less.prems(3) k less.prems(4) [of i] by simp
    have "length tab1 = length tab" using set by (simp add: sf_set_def)
    then have "\<exists>tab' s'. SF_MakeTree tab1 s4 (push_bit 1 code + 1) (bits + 1) k lst = Some (tab', s')"
      using k 4 s3 A1 2 len less.prems(3) n pb by (intro less.hyps) (auto simp: nb_def)
    with 1(1) 2(1) A 4(1) cut a b less.prems(3) False show ?thesis
      by (subst SF_MakeTree.simps) (auto simp: Let_def)
  qed
qed

lemma SF_MakeTree_single_total:
  assumes "bs_ok s" and "1 < length tab" and "0 < symCount (tab ! 0)" "symCount (tab ! 1) = 0"
    and "bs_pos s + 12 \<le> 8 * length (bsBuf s)"
  shows "\<exists>tab' s'. SF_MakeTree tab s code bits 0 1 = Some (tab', s')"
proof -
  have sz: "SF_size tab 0 1 = symCount (tab ! 0)"
    using assms(4) by (simp add: SF_size_def upt_rec)
  have cut: "SF_cut tab (SF_size tab 0 1) 1 0 0 = (1, symCount (tab ! 0))"
    unfolding sz using assms(3) by (simp add: SF_cut.simps)
  obtain s1 where 1: "SF_WriteBits s 0 1 = Some s1" "bs_ok s1" "bs_pos s1 = bs_pos s + 1" "length (bsBuf s1) = length (bsBuf s)"
    by (rule SF_WriteBits_total [of s 1 0]) (use assms in auto)
  obtain s2 where 2: "SF_WriteBits s1 1 1 = Some s2" "bs_ok s2" "bs_pos s2 = bs_pos s + 2" "length (bsBuf s2) = length (bsBuf s)"
    by (rule SF_WriteBits_total [OF 1(2), of 1 1]) (use 1 assms in auto)
  obtain tab1 s3 where A: "SF_MakeTree tab s2 (push_bit 1 code + 0) (bits + 1) 0 0 = Some (tab1, s3)"
    using SF_MakeTree_leaf_total [of s2 0 tab "push_bit 1 code + 0" "bits + 1"] 2 assms by fastforce
  have A1: "bs_pos s3 + 3 = bs_pos s2 + 12" using SF_MakeTree_pos [OF A 2(2)] assms(3) by simp
  have s3: "bs_ok s3" "length (bsBuf s3) = length (bsBuf s)"
    using SF_leaf_wrote(2) [OF A 2(2)] 2 by (simp_all add: bs_wrote_def)
  obtain s4 where 4: "SF_WriteBits s3 0 1 = Some s4"
    by (rule SF_WriteBits_total [OF s3(1), of 1 0]) (use s3 A1 2 assms(5) in auto)
  from 1(1) 2(1) A 4 cut sz assms(2,3) show ?thesis
    by (subst SF_MakeTree.simps) (auto simp: Let_def)
qed

lemma SF_last_symbol_some:
  "0 < symCount (tab ! i) \<Longrightarrow> i \<le> n \<Longrightarrow> \<exists>l. SF_last_symbol tab n = Some l"
proof (induction n)
  case (Suc n)
  then show ?case by (subst SF_last_symbol.simps) (auto simp: le_Suc_eq)
qed (subst SF_last_symbol.simps, simp)

text \<open>The symbols up to the last one are as many as the bytes that occur.\<close>

lemma SF_last_symbol_card:
  assumes "SF_last_symbol (SF_Hist ins) 255 = Some l"
  shows "l < card (set ins)"
proof -
  let ?f = "\<lambda>i. to_byte (symSymbol (SF_Hist ins ! i))"
  note l = SF_last_symbol_spec [OF assms]
  have "?f ` {..l} \<subseteq> set ins"
  proof
    fix b
    assume "b \<in> ?f ` {..l}"
    then obtain i where i: "i \<le> l" "b = ?f i" by auto
    have "0 < symCount (SF_Hist ins ! i)" using l SF_Hist_sorted [OF i(1), of ins] by auto
    then show "b \<in> set ins"
      using SF_Hist_count [of i ins] i l count_pos [of ins b] by simp
  qed
  moreover have "inj_on ?f {..l}" using l by (intro inj_on_subset [OF SF_symbols_inj]) auto
  ultimately have "card {..l} \<le> card (set ins)" by (metis List.finite_set card_inj_on_le)
  then show ?thesis by simp
qed

lemma SF_last_symbol_exists:
  assumes "ins \<noteq> []"
  obtains l where "SF_last_symbol (SF_Hist ins) 255 = Some l"
proof -
  let ?h = "SF_Hist ins"
  obtain b where "b \<in> set ins" using assms by (cases ins) auto
  then have "0 < symCount (?h ! sf_index ?h b)"
    using SF_Hist_count [OF sf_index_SF_Hist(1), of ins ins b] count_pos [of ins b] by (simp add: sf_index_SF_Hist)
  moreover have "sf_index ?h b \<le> 255" using sf_index_SF_Hist(1) [of ins b] by simp
  ultimately show thesis using SF_last_symbol_some that by blast
qed

text \<open>With at most 33 symbols the tree takes 64 bytes and every code 32 bits.\<close>

lemma SF_tree_bounds:
  assumes "sf_tree_of ins t" "l \<le> 32"
    and shape: "if l = 0 then t = SNode (SLeaf 0) SEmpty else sf_full t \<and> length (sf_leaves t) = Suc l"
  shows "length (sf_bits f t) \<le> 512"
    and "b \<in> set ins \<Longrightarrow> sf_code ins t b \<noteq> [] \<and> length (sf_code ins t b) \<le> 32"
proof -
  show "length (sf_bits f t) \<le> 512"
    using shape sf_full_nodes [of t] assms(2) by (cases "l = 0") (simp_all add: length_sf_bits)
  assume "b \<in> set ins"
  then have used: "sf_index (SF_Hist ins) b \<in> set (sf_leaves t)" using assms(1) by (simp add: sf_tree_of_def)
  show "sf_code ins t b \<noteq> [] \<and> length (sf_code ins t b) \<le> 32"
  proof (cases "l = 0")
    case True
    with shape used show ?thesis by (auto simp: sf_code_def split: if_splits)
  next
    case False
    with shape have full: "sf_full t" "length (sf_leaves t) = Suc l" by auto
    have "sf_code ins t b \<noteq> []" using full False by (cases t) (auto simp: sf_code_def)
    moreover have "length (sf_code ins t b) < Suc l"
      using sf_full_path [OF full(1)] unfolding sf_code_def full(2) .
    ultimately show ?thesis using assms(2) by simp
  qed
qed

lemma SF_MakeTree_Some:
  assumes "SF_last_symbol (SF_Hist ins) 255 = Some l" "l \<le> 32" "64 \<le> length out"
  shows "\<exists>tab s1. SF_MakeTree (SF_Hist ins) (Huffman_InitBitstream out) 0 0 0 (if l = 0 then l + 1 else l) = Some (tab, s1)"
proof -
  let ?h = "SF_Hist ins" and ?s0 = "Huffman_InitBitstream out"
  have ok: "bs_ok ?s0" by (simp add: bs_ok_def bs_pos_def Huffman_InitBitstream_def)
  have p0: "bs_pos ?s0 = 0" "bsBuf ?s0 = out" by (simp_all add: bs_pos_def Huffman_InitBitstream_def)
  note l = SF_last_symbol_spec [OF assms(1)]
  have pos: "0 < symCount (?h ! i)" if "i \<le> l" for i
    using l SF_Hist_sorted [OF that, of ins] by auto
  show ?thesis
  proof (cases "l = 0")
    case True
    with SF_MakeTree_single_total [OF ok, of ?h 0 0] l pos [of 0] assms(3) show ?thesis
      by (simp add: SF_Hist_length p0)
  next
    case False
    with SF_MakeTree_total [OF ok, of 0 l ?h 0 0] pos l assms(2,3) show ?thesis
      by (fastforce simp: SF_Hist_length p0)
  qed
qed

lemma SF_Compress_Some:
  assumes "card (set ins) \<le> 33" and "64 + 4 * length ins \<le> length out"
  shows "\<exists>z. SF_Compress ins out = Some z"
proof (cases "ins = []")
  case False
  let ?h = "SF_Hist ins" and ?s0 = "Huffman_InitBitstream out"
  have ok: "bs_ok ?s0" by (simp add: bs_ok_def bs_pos_def Huffman_InitBitstream_def)
  have p0: "bs_pos ?s0 = 0" "bsBuf ?s0 = out" by (simp_all add: bs_pos_def Huffman_InitBitstream_def)
  obtain l where last: "SF_last_symbol ?h 255 = Some l" by (rule SF_last_symbol_exists [OF False])
  have l32: "l \<le> 32" using SF_last_symbol_card [OF last] assms(1) by simp
  have out: "64 \<le> length out" using assms(2) by simp
  obtain tab s1 where make: "SF_MakeTree ?h ?s0 0 0 0 (if l = 0 then l + 1 else l) = Some (tab, s1)"
    using SF_MakeTree_Some [OF last l32 out] by blast
  obtain t where t: "sf_tree_of ins t" and w: "bs_wrote ?s0 (sf_bits (\<lambda>i. symSymbol (?h ! i)) t) s1"
    and set: "sf_set ?h t 0 0 tab" and shape: "if l = 0 then t = SNode (SLeaf 0) SEmpty else sf_full t \<and> length (sf_leaves t) = Suc l"
    using SF_MakeTree_tree [OF last ok make] by blast
  note bounds = SF_tree_bounds [OF t l32 shape]
  have tab: "table_holds (bubble_sort (\<lambda>e. int (symSymbol e)) tab) (sf_code ins t) (set ins)"
    using t by (intro sf_table_holds [OF set]) (simp add: sf_tree_of_def)
  have p1: "bs_pos s1 \<le> 512" "length (bsBuf s1) = length out"
    using bs_wrote_pos [OF ok w] w bounds(1) by (simp_all add: p0 bs_wrote_def)
  have "(\<Sum>b\<leftarrow>bs. length (sf_code ins t b)) \<le> 32 * length bs" if "set bs \<subseteq> set ins" for bs
    using that bounds(2) by (induction bs) force+
  then have "bs_pos s1 + (\<Sum>b\<leftarrow>ins. length (sf_code ins t b)) \<le> 8 * length (bsBuf s1)"
    using p1 assms(2) by fastforce
  with Huffman_encode_total [OF tab subset_refl bs_wrote_ok [OF w]] bounds(2)
  obtain s where "Huffman_encode (bubble_sort (\<lambda>e. int (symSymbol e)) tab) ins s1 = Some s" by blast
  with last make show ?thesis
    using False by (simp add: SF_Compress_def SF_bitstream Let_def Suc_le_eq)
qed (simp add: SF_Compress_def)




end
