(* ===== verification/Tools.thy ===== *)
theory Tools
  imports Bench_Prelude
begin

text \<open>
  The helpers of \<open>tools.hpp\<close> and \<open>tools.cpp\<close>: rounding to a multiple, the elapsed time of the
  POSIX clock, the comparison of codec names and the checksum that the verification uses. Sizes
  (\<open>size_t\<close>) are natural numbers, bounded by \<open>SIZE_MAX\<close> where it matters. The checksum
  is related to its bitwise definition, the remainder of a polynomial division.
\<close>

subsection \<open>Rounding\<close>

definition SIZE_MAX :: nat where
  "SIZE_MAX = 2 ^ 64 - 1"

text \<open>
  The program is built in release mode, which removes the assertions. \<open>None\<close> is the trap of a
  division by zero; the addition wraps.
\<close>

definition round_up :: "nat \<Rightarrow> nat \<Rightarrow> nat option" where
  "round_up A B =
    (if B = 0 then None
     else let ret = A div B * B in Some (if A > ret then (ret + B) mod 2 ^ 64 else ret))"

lemma round_up_least:
  assumes "0 < B" and "A + B \<le> SIZE_MAX"
  obtains r where "round_up A B = Some r" "B dvd r" "A \<le> r" "r < A + B"
    "\<And>m. B dvd m \<Longrightarrow> A \<le> m \<Longrightarrow> r \<le> m"
proof -
  let ?q = "A div B * B"
  have q: "?q \<le> A" "A < ?q + B"
    using dividend_less_div_times [OF assms(1), of A] div_times_less_eq_dividend [of A B] by linarith+
  have least: "?q + B \<le> m" if "B dvd m" "?q < m" for m
  proof -
    from that(1) obtain k where "m = B * k" by (elim dvdE)
    then have k: "m = k * B" by (simp only: mult.commute)
    then have "A div B * B < k * B" using that(2) by simp
    then have "A div B < k" by (simp only: mult_less_cancel2)
    then have "Suc (A div B) * B \<le> k * B" by (intro mult_le_mono1) simp
    then show ?thesis using k by (simp add: add.commute)
  qed
  have "?q + B \<le> A + B" using q(1) by (rule add_right_mono)
  also have "\<dots> < 2 ^ 64" using assms(2) by (simp add: SIZE_MAX_def)
  finally have "?q + B < 2 ^ 64" .
  show ?thesis
  proof (rule that)
    show "round_up A B = Some (if A > ?q then ?q + B else ?q)"
      using assms(1) \<open>?q + B < 2 ^ 64\<close> by (simp add: round_up_def)
    show "(if A > ?q then ?q + B else ?q) \<le> m" if "B dvd m" "A \<le> m" for m
      using that least [of m] le_trans [OF q(1) that(2)] by auto
    show "(if A > ?q then ?q + B else ?q) < A + B"
      using less_add_same_cancel1 [of A B] le_less_trans [OF q(1), of "A + B"] assms(1) by simp
  qed (use q in auto)
qed

lemma round_up_bounds:
  assumes "round_up A B = Some r" and "A + B \<le> SIZE_MAX"
  shows "0 < B" "A \<le> r" "r < A + B" "B dvd r"
proof -
  show "0 < B" using assms by (auto simp: round_up_def split: if_splits)
  obtain r' where "round_up A B = Some r'" "B dvd r'" "A \<le> r'" "r' < A + B"
    by (rule round_up_least [OF \<open>0 < B\<close> assms(2)])
  with assms show "A \<le> r" "r < A + B" "B dvd r" by simp_all
qed

lemma round_up_multiple: "0 < B \<Longrightarrow> B dvd A \<Longrightarrow> round_up A B = Some A"
  by (auto simp: round_up_def Let_def)

lemma round_up_one [simp]: "round_up A 1 = Some A"
  by (simp add: round_up_def)

lemma round_up_ceiling:
  assumes "0 < B" "A + B \<le> SIZE_MAX"
  shows "round_up A B = Some ((A + B - 1) div B * B)"
proof -
  obtain r where r: "round_up A B = Some r" "B dvd r" "A \<le> r" "r < A + B"
    by (rule round_up_least [OF assms])
  then obtain k where k: "r = k * B" by (metis dvdE mult.commute)
  have "(A + B - 1) div B = k"
    using r k assms by (intro div_nat_eqI) (auto simp: mult.commute)
  then show ?thesis using r k by simp
qed

subsection \<open>Time\<close>

text \<open>
  The POSIX branch: a \<open>struct timespec\<close> and a difference in milliseconds, computed with signed
  \<open>long\<close> arithmetic and returned as an unsigned 64-bit number.
\<close>

record timespec =
  tv_sec :: int
  tv_nsec :: int

text \<open>The division of C rounds towards zero.\<close>

definition c_div :: "int \<Rightarrow> int \<Rightarrow> int" where
  "c_div a b = sgn a * sgn b * (\<bar>a\<bar> div \<bar>b\<bar>)"

definition ticks_to_msec :: "timespec \<Rightarrow> timespec \<Rightarrow> nat" where
  "ticks_to_msec start_ticks end_ticks =
    nat ((1000 * (tv_sec end_ticks - tv_sec start_ticks)
          + c_div (tv_nsec end_ticks - tv_nsec start_ticks) 1000000) mod 2 ^ 64)"

definition nanoseconds :: "timespec \<Rightarrow> int" where
  "nanoseconds t = 1000000000 * tv_sec t + tv_nsec t"

definition timespec_ok :: "timespec \<Rightarrow> bool" where
  "timespec_ok t \<longleftrightarrow> 0 \<le> tv_nsec t \<and> tv_nsec t < 1000000000"

lemma c_div_bounds:
  assumes "0 < b"
  shows "\<bar>b * c_div a b - a\<bar> < b" and "0 \<le> a \<Longrightarrow> c_div a b = a div b"
    and "a < 0 \<Longrightarrow> c_div a b = - ((- a) div b)"
proof -
  have *: "b * (\<bar>a\<bar> div b) + \<bar>a\<bar> mod b = \<bar>a\<bar>" "0 \<le> \<bar>a\<bar> mod b" "\<bar>a\<bar> mod b < b"
    using assms by (simp_all only: mult_div_mod_eq pos_mod_sign pos_mod_bound)
  show "\<bar>b * c_div a b - a\<bar> < b"
  proof (cases "0 \<le> a")
    case True
    then have "c_div a b = a div b"
      using assms by (cases "a = 0") (simp_all add: c_div_def)
    moreover have "\<bar>a\<bar> = a" using True by simp
    ultimately show ?thesis using * by (simp only: abs_less_iff) linarith
  next
    case False
    then have "c_div a b = - (\<bar>a\<bar> div b)"
      using assms by (simp add: c_div_def)
    then have "b * c_div a b = - (b * (\<bar>a\<bar> div b))" by simp
    moreover have "\<bar>a\<bar> = - a" using False by simp
    ultimately show ?thesis using * by (simp only: abs_less_iff) linarith
  qed
  show "c_div a b = a div b" if "0 \<le> a"
    using assms that by (cases "a = 0") (simp_all add: c_div_def)
  show "c_div a b = - ((- a) div b)" if "a < 0"
    using assms that by (simp add: c_div_def)
qed

lemma c_div_mono: "0 < b \<Longrightarrow> a \<le> a' \<Longrightarrow> c_div a b \<le> c_div a' b"
  by (cases "0 \<le> a"; cases "0 \<le> a'")
     (auto simp: c_div_bounds not_le zdiv_mono1 pos_imp_zdiv_nonneg_iff
       intro: order_trans [of _ 0])

lemma ticks_to_msec_nonneg:
  assumes "timespec_ok s" "timespec_ok e" "nanoseconds s \<le> nanoseconds e"
  shows "0 \<le> 1000 * (tv_sec e - tv_sec s) + c_div (tv_nsec e - tv_nsec s) 1000000"
proof (cases "tv_sec e = tv_sec s")
  case True
  then show ?thesis using assms by (simp add: nanoseconds_def c_div_bounds pos_imp_zdiv_nonneg_iff)
next
  case False
  then have "tv_sec s < tv_sec e" using assms by (simp add: nanoseconds_def timespec_ok_def)
  moreover have "c_div (-1000000000) 1000000 \<le> c_div (tv_nsec e - tv_nsec s) 1000000"
    using assms by (intro c_div_mono) (auto simp: timespec_ok_def)
  ultimately show ?thesis by (simp add: c_div_def)
qed

lemma ticks_to_msec_int:
  assumes "timespec_ok s" "timespec_ok e" "nanoseconds s \<le> nanoseconds e"
    and "nanoseconds e - nanoseconds s < 10 ^ 24"
  shows "int (ticks_to_msec s e) =
    1000 * (tv_sec e - tv_sec s) + c_div (tv_nsec e - tv_nsec s) 1000000"
proof -
  let ?d = "c_div (tv_nsec e - tv_nsec s) 1000000"
  have "\<bar>1000000 * ?d - (tv_nsec e - tv_nsec s)\<bar> < 1000000"
    by (rule c_div_bounds) simp
  then have "1000 * (tv_sec e - tv_sec s) + ?d < 2 ^ 64"
    using assms(4) by (simp add: nanoseconds_def)
  then show ?thesis
    using ticks_to_msec_nonneg [OF assms(1-3)] by (simp add: ticks_to_msec_def)
qed

text \<open>
  C21: on a clock that has not gone back, the elapsed time is right to within a millisecond.
\<close>

theorem ticks_to_msec_close:
  assumes "timespec_ok s" "timespec_ok e" "nanoseconds s \<le> nanoseconds e"
    and "nanoseconds e - nanoseconds s < 10 ^ 24"
  shows "\<bar>1000000 * int (ticks_to_msec s e) - (nanoseconds e - nanoseconds s)\<bar> < 1000000"
proof -
  have "\<bar>1000000 * c_div (tv_nsec e - tv_nsec s) 1000000 - (tv_nsec e - tv_nsec s)\<bar> < 1000000"
    by (rule c_div_bounds) simp
  then show ?thesis
    unfolding ticks_to_msec_int [OF assms] nanoseconds_def by (simp add: algebra_simps)
qed

theorem ticks_to_msec_close_witness:
  "\<bar>1000000 * int (ticks_to_msec \<lparr>tv_sec = 5, tv_nsec = 999000000\<rparr> \<lparr>tv_sec = 7, tv_nsec = 500000\<rparr>)
    - 1001500000\<bar> < 1000000"
  using ticks_to_msec_close [of "\<lparr>tv_sec = 5, tv_nsec = 999000000\<rparr>" "\<lparr>tv_sec = 7, tv_nsec = 500000\<rparr>"]
  by (simp add: timespec_ok_def nanoseconds_def)

text \<open>A clock that has been set back makes the unsigned difference enormous.\<close>

lemma ticks_to_msec_set_back:
  "ticks_to_msec \<lparr>tv_sec = 7, tv_nsec = 0\<rparr> \<lparr>tv_sec = 6, tv_nsec = 0\<rparr> = 2 ^ 64 - 1000"
  by (simp add: ticks_to_msec_def c_div_def)

subsection \<open>Names\<close>

text \<open>
  \<open>toupper\<close> in the C locale, on a \<open>char\<close> converted to \<open>int\<close>, which is signed.
\<close>

definition toupper :: "char \<Rightarrow> int" where
  "toupper c =
    (let i = sint (of_char c :: byte) in if 97 \<le> i \<and> i \<le> 122 then i - 32 else i)"

fun case_insensitive_compare :: "string \<Rightarrow> string \<Rightarrow> int" where
  "case_insensitive_compare (c1 # s1) (c2 # s2) =
    (if toupper c1 \<noteq> toupper c2 then (if toupper c1 < toupper c2 then -1 else 1)
     else case_insensitive_compare s1 s2)"
| "case_insensitive_compare s1 s2 =
    (if size s1 = size s2 then 0 else if size s1 < size s2 then -1 else 1)"

lemma compare_refl [simp]: "case_insensitive_compare s s = 0"
  by (induction s) auto

lemma compare_eq_0_iff:
  "case_insensitive_compare s t = 0 \<longleftrightarrow> map toupper s = map toupper t"
  by (induction s t rule: case_insensitive_compare.induct) auto

lemma compare_antisym:
  "case_insensitive_compare t s = - case_insensitive_compare s t"
  by (induction s t rule: case_insensitive_compare.induct) auto

lemma compare_lexordp:
  "case_insensitive_compare s t < 0 \<longleftrightarrow> ord_class.lexordp (map toupper s) (map toupper t)"
  by (induction s t rule: case_insensitive_compare.induct) auto

subsection \<open>The checksum\<close>

definition crc_table :: "u32 list" where
  "crc_table =
  [0x00000000, 0x77073096, 0xee0e612c, 0x990951ba, 0x076dc419, 0x706af48f,
   0xe963a535, 0x9e6495a3, 0x0edb8832, 0x79dcb8a4, 0xe0d5e91e, 0x97d2d988,
   0x09b64c2b, 0x7eb17cbd, 0xe7b82d07, 0x90bf1d91, 0x1db71064, 0x6ab020f2,
   0xf3b97148, 0x84be41de, 0x1adad47d, 0x6ddde4eb, 0xf4d4b551, 0x83d385c7,
   0x136c9856, 0x646ba8c0, 0xfd62f97a, 0x8a65c9ec, 0x14015c4f, 0x63066cd9,
   0xfa0f3d63, 0x8d080df5, 0x3b6e20c8, 0x4c69105e, 0xd56041e4, 0xa2677172,
   0x3c03e4d1, 0x4b04d447, 0xd20d85fd, 0xa50ab56b, 0x35b5a8fa, 0x42b2986c,
   0xdbbbc9d6, 0xacbcf940, 0x32d86ce3, 0x45df5c75, 0xdcd60dcf, 0xabd13d59,
   0x26d930ac, 0x51de003a, 0xc8d75180, 0xbfd06116, 0x21b4f4b5, 0x56b3c423,
   0xcfba9599, 0xb8bda50f, 0x2802b89e, 0x5f058808, 0xc60cd9b2, 0xb10be924,
   0x2f6f7c87, 0x58684c11, 0xc1611dab, 0xb6662d3d, 0x76dc4190, 0x01db7106,
   0x98d220bc, 0xefd5102a, 0x71b18589, 0x06b6b51f, 0x9fbfe4a5, 0xe8b8d433,
   0x7807c9a2, 0x0f00f934, 0x9609a88e, 0xe10e9818, 0x7f6a0dbb, 0x086d3d2d,
   0x91646c97, 0xe6635c01, 0x6b6b51f4, 0x1c6c6162, 0x856530d8, 0xf262004e,
   0x6c0695ed, 0x1b01a57b, 0x8208f4c1, 0xf50fc457, 0x65b0d9c6, 0x12b7e950,
   0x8bbeb8ea, 0xfcb9887c, 0x62dd1ddf, 0x15da2d49, 0x8cd37cf3, 0xfbd44c65,
   0x4db26158, 0x3ab551ce, 0xa3bc0074, 0xd4bb30e2, 0x4adfa541, 0x3dd895d7,
   0xa4d1c46d, 0xd3d6f4fb, 0x4369e96a, 0x346ed9fc, 0xad678846, 0xda60b8d0,
   0x44042d73, 0x33031de5, 0xaa0a4c5f, 0xdd0d7cc9, 0x5005713c, 0x270241aa,
   0xbe0b1010, 0xc90c2086, 0x5768b525, 0x206f85b3, 0xb966d409, 0xce61e49f,
   0x5edef90e, 0x29d9c998, 0xb0d09822, 0xc7d7a8b4, 0x59b33d17, 0x2eb40d81,
   0xb7bd5c3b, 0xc0ba6cad, 0xedb88320, 0x9abfb3b6, 0x03b6e20c, 0x74b1d29a,
   0xead54739, 0x9dd277af, 0x04db2615, 0x73dc1683, 0xe3630b12, 0x94643b84,
   0x0d6d6a3e, 0x7a6a5aa8, 0xe40ecf0b, 0x9309ff9d, 0x0a00ae27, 0x7d079eb1,
   0xf00f9344, 0x8708a3d2, 0x1e01f268, 0x6906c2fe, 0xf762575d, 0x806567cb,
   0x196c3671, 0x6e6b06e7, 0xfed41b76, 0x89d32be0, 0x10da7a5a, 0x67dd4acc,
   0xf9b9df6f, 0x8ebeeff9, 0x17b7be43, 0x60b08ed5, 0xd6d6a3e8, 0xa1d1937e,
   0x38d8c2c4, 0x4fdff252, 0xd1bb67f1, 0xa6bc5767, 0x3fb506dd, 0x48b2364b,
   0xd80d2bda, 0xaf0a1b4c, 0x36034af6, 0x41047a60, 0xdf60efc3, 0xa867df55,
   0x316e8eef, 0x4669be79, 0xcb61b38c, 0xbc66831a, 0x256fd2a0, 0x5268e236,
   0xcc0c7795, 0xbb0b4703, 0x220216b9, 0x5505262f, 0xc5ba3bbe, 0xb2bd0b28,
   0x2bb45a92, 0x5cb36a04, 0xc2d7ffa7, 0xb5d0cf31, 0x2cd99e8b, 0x5bdeae1d,
   0x9b64c2b0, 0xec63f226, 0x756aa39c, 0x026d930a, 0x9c0906a9, 0xeb0e363f,
   0x72076785, 0x05005713, 0x95bf4a82, 0xe2b87a14, 0x7bb12bae, 0x0cb61b38,
   0x92d28e9b, 0xe5d5be0d, 0x7cdcefb7, 0x0bdbdf21, 0x86d3d2d4, 0xf1d4e242,
   0x68ddb3f8, 0x1fda836e, 0x81be16cd, 0xf6b9265b, 0x6fb077e1, 0x18b74777,
   0x88085ae6, 0xff0f6a70, 0x66063bca, 0x11010b5c, 0x8f659eff, 0xf862ae69,
   0x616bffd3, 0x166ccf45, 0xa00ae278, 0xd70dd2ee, 0x4e048354, 0x3903b3c2,
   0xa7672661, 0xd06016f7, 0x4969474d, 0x3e6e77db, 0xaed16a4a, 0xd9d65adc,
   0x40df0b66, 0x37d83bf0, 0xa9bcae53, 0xdebb9ec5, 0x47b2cf7f, 0x30b5ffe9,
   0xbdbdf21c, 0xcabac28a, 0x53b39330, 0x24b4a3a6, 0xbad03605, 0xcdd70693,
   0x54de5729, 0x23d967bf, 0xb3667a2e, 0xc4614ab8, 0x5d681b02, 0x2a6f2b94,
   0xb40bbe37, 0xc30c8ea1, 0x5a05df1b, 0x2d02ef8d]"

definition crc_step :: "u32 \<Rightarrow> byte \<Rightarrow> u32" where
  "crc_step c b =
    (drop_bit 8 c AND 0xffffff) XOR crc_table ! unat ((c XOR ucast b) AND 0xff)"

definition crc :: "byte list \<Rightarrow> u32 \<Rightarrow> u32" where
  "crc data c = fold (\<lambda>b c. crc_step c b) data c"

text \<open>One step of the division by the reflected polynomial of CRC-32.\<close>

definition crc_bit :: "u32 \<Rightarrow> u32" where
  "crc_bit c = (if bit c 0 then drop_bit 1 c XOR 0xedb88320 else drop_bit 1 c)"

lemma crc_Nil [simp]: "crc [] c = c"
  and crc_Cons [simp]: "crc (b # bs) c = crc bs (crc_step c b)"
  by (simp_all add: crc_def)

lemma crc_append: "crc (xs @ ys) c = crc ys (crc xs c)"
  by (simp add: crc_def)

lemma crc_bit_xor: "crc_bit (a XOR b) = crc_bit a XOR crc_bit b"
  by (auto simp: crc_bit_def bit_xor_iff drop_bit_xor xor.assoc xor.left_commute xor.commute)

lemma crc_bits_xor: "(crc_bit ^^ n) (a XOR b) = (crc_bit ^^ n) a XOR (crc_bit ^^ n) b"
  by (induction n arbitrary: a b) (simp_all add: crc_bit_xor)

lemma crc_bits_shift: "(\<forall>j<n. \<not> bit c j) \<Longrightarrow> (crc_bit ^^ n) c = drop_bit n c"
proof (induction n arbitrary: c)
  case (Suc n)
  then have "crc_bit c = drop_bit 1 c" by (simp add: crc_bit_def)
  then show ?case
    using Suc by (simp only: funpow_Suc_right o_apply) (simp add: bit_simps)
qed simp

text \<open>
  The table by doubling: the entries of the indices with bit \<open>k\<close> set are those without it, plus
  the entry of \<open>2 ^ k\<close>.
\<close>

lemma of_nat_xor_exp: "i < 2 ^ k \<Longrightarrow> (of_nat (2 ^ k + i) :: u32) = of_nat i XOR of_nat (2 ^ k)"
proof -
  assume "i < 2 ^ k"
  then have "i AND 2 ^ k = 0"
    by (simp add: and_exp_nat) (metis bit_take_bit_iff less_irrefl take_bit_nat_eq_self)
  then have "2 ^ k + i = i XOR 2 ^ k"
    by (simp add: add.commute [of _ i] disjunctive_add_eq_xor)
  then show ?thesis by (simp add: of_nat_xor_eq)
qed

lemma crc_bits_double:
  "map (\<lambda>i. (crc_bit ^^ n) (of_nat i)) [0..<2 ^ Suc k] =
   map (\<lambda>i. (crc_bit ^^ n) (of_nat i)) [0..<2 ^ k] @
   map (\<lambda>c. c XOR (crc_bit ^^ n) (of_nat (2 ^ k))) (map (\<lambda>i. (crc_bit ^^ n) (of_nat i)) [0..<2 ^ k])"
  (is "?lhs = ?rhs")
proof (rule nth_equalityI)
  fix i assume i: "i < length ?lhs"
  show "?lhs ! i = ?rhs ! i"
  proof (cases "i < 2 ^ k")
    case False
    then obtain j where "i = 2 ^ k + j" using le_Suc_ex not_le by blast
    then show ?thesis using i
      by (simp add: nth_append of_nat_xor_exp crc_bits_xor del: of_nat_add of_nat_power)
  qed (simp add: nth_append)
qed simp

lemma crc_bits_8:
  "(crc_bit ^^ 8) c =
   crc_bit (crc_bit (crc_bit (crc_bit (crc_bit (crc_bit (crc_bit (crc_bit c)))))))"
  by (simp add: eval_nat_numeral)

lemma crc_bit_basis:
  "(crc_bit ^^ 8) 1 = 0x77073096" "(crc_bit ^^ 8) 2 = 0xee0e612c"
  "(crc_bit ^^ 8) 4 = 0x076dc419" "(crc_bit ^^ 8) 8 = 0x0edb8832"
  "(crc_bit ^^ 8) 16 = 0x1db71064" "(crc_bit ^^ 8) 32 = 0x3b6e20c8"
  "(crc_bit ^^ 8) 64 = 0x76dc4190" "(crc_bit ^^ 8) 128 = 0xedb88320"
  by (simp_all add: crc_bits_8 crc_bit_def cong: if_weak_cong)

lemma crc_table_bits: "map (\<lambda>i. (crc_bit ^^ 8) (of_nat i)) [0..<2 ^ 8] = crc_table"
proof -
  define L where "L k = map (\<lambda>i. (crc_bit ^^ 8) (of_nat i)) [0..<2 ^ k]" for k
  define dbl where "dbl l c = l @ map (\<lambda>x. x XOR c) l" for l and c :: u32
  have step: "L (Suc k) = dbl (L k) ((crc_bit ^^ 8) (2 ^ k))" for k
    using crc_bits_double [of 8 k] by (simp only: L_def dbl_def of_nat_power of_nat_numeral)
  have "(crc_bit ^^ 8) 0 = 0" by (simp add: crc_bits_8 crc_bit_def)
  then have L0: "L 0 = [0]" by (simp add: L_def)
  have 8: "(8 :: nat) = Suc (Suc (Suc (Suc (Suc (Suc (Suc (Suc 0)))))))" by simp
  have "L 8 = crc_table"
    unfolding 8 by (simp add: step L0 crc_bit_basis dbl_def crc_table_def)
  then show ?thesis by (simp only: L_def)
qed

lemma crc_table_nth: "i < 256 \<Longrightarrow> crc_table ! i = (crc_bit ^^ 8) (of_nat i)"
  by (subst crc_table_bits [symmetric]) simp

lemma xor_cancel: "x XOR p = y XOR p \<longleftrightarrow> x = y" for x y p :: "'a :: len word"
  by (metis xor.assoc xor_self_eq xor.right_neutral)

lemma mask_8: "(0xff :: u32) = mask 8"
  by (simp add: mask_eq_exp_minus_1)

lemma crc_step_bits: "crc_step c b = (crc_bit ^^ 8) (c XOR ucast b)"
proof -
  let ?x = "c XOR ucast b"
  let ?hi = "?x AND NOT (mask 8)" and ?lo = "?x AND mask 8"
  have "?x = ?hi XOR ?lo"
    by (rule bit_word_eqI) (auto simp: bit_simps)
  then have "(crc_bit ^^ 8) ?x = (crc_bit ^^ 8) ?hi XOR (crc_bit ^^ 8) ?lo"
    using crc_bits_xor [of 8 ?hi ?lo] by argo
  moreover have "(crc_bit ^^ 8) ?hi = drop_bit 8 ?hi"
    by (rule crc_bits_shift) (simp add: bit_simps)
  moreover have "drop_bit 8 ?hi = drop_bit 8 c AND 0xffffff"
  proof -
    have 24: "(0xffffff :: u32) = mask 24" by (simp add: mask_eq_exp_minus_1)
    show ?thesis
      unfolding 24 by (rule bit_word_eqI) (auto simp: bit_simps dest: bit_imp_le_length)
  qed
  moreover have "unat ?lo < 256"
    using word_and_le1 [of ?x "mask 8"] by (simp add: word_le_nat_alt mask_eq_exp_minus_1)
  then have "crc_table ! unat ?lo = (crc_bit ^^ 8) ?lo"
    by (simp add: crc_table_nth)
  ultimately show ?thesis by (simp only: crc_step_def mask_8)
qed

text \<open>
  The reference: the register of the polynomial division, fed the bits of the message one at a
  time, the least significant bit of each byte first.
\<close>

definition byte_bits :: "byte \<Rightarrow> bool list" where
  "byte_bits b = map (bit b) [0..<8]"

definition crc_feed :: "bool \<Rightarrow> u32 \<Rightarrow> u32" where
  "crc_feed m c = (if bit c 0 \<noteq> m then drop_bit 1 c XOR 0xedb88320 else drop_bit 1 c)"

definition crc_serial :: "byte list \<Rightarrow> u32 \<Rightarrow> u32" where
  "crc_serial data c = fold crc_feed (concat (map byte_bits data)) c"

lemma crc_feed_xor:
  "crc_bit (s XOR drop_bit n u) = crc_feed (bit u n) s XOR drop_bit (Suc n) u"
  by (auto simp: crc_bit_def crc_feed_def bit_xor_iff bit_drop_bit_eq drop_bit_xor ac_simps)

lemma crc_bits_feed:
  "(crc_bit ^^ n) (c XOR u) = fold crc_feed (map (bit u) [0..<n]) c XOR drop_bit n u"
  by (induction n) (simp_all add: crc_feed_xor)

lemma crc_step_feed: "crc_step c b = fold crc_feed (byte_bits b) c"
proof -
  have "drop_bit 8 (ucast b :: u32) = 0"
    by (rule bit_word_eqI) (auto simp: bit_simps dest: bit_imp_le_length)
  moreover have "map (bit (ucast b :: u32)) [0..<8] = byte_bits b"
    by (simp add: byte_bits_def bit_simps)
  ultimately show ?thesis
    by (simp add: crc_step_bits crc_bits_feed)
qed

text \<open>
  C20: the table-driven loop of \<open>crc\<close> computes the remainder of the division by the CRC-32
  polynomial, bit by bit.
\<close>

theorem crc_is_serial: "crc data c = crc_serial data c"
  by (induction data arbitrary: c) (simp_all add: crc_serial_def crc_step_feed)

text \<open>The register can be run backwards, so no information is lost in it.\<close>

lemma crc_bit_inj: "crc_bit a = crc_bit b \<Longrightarrow> a = b"
proof -
  assume eq: "crc_bit a = crc_bit b"
  have top: "bit (crc_bit c) 31 = bit c 0" for c
    by (auto simp: crc_bit_def bit_simps dest: bit_imp_le_length)
  have 0: "bit a 0 = bit b 0" using eq top [of a] top [of b] by simp
  then have "drop_bit 1 a = drop_bit 1 b"
    using eq by (auto simp: crc_bit_def xor_cancel split: if_splits)
  then have "bit a (Suc n) = bit b (Suc n)" for n
    by (metis bit_drop_bit_eq plus_1_eq_Suc comp_apply)
  with 0 show "a = b"
    by (intro bit_word_eqI) (metis not0_implies_Suc)
qed

lemma crc_bits_inj: "(crc_bit ^^ n) a = (crc_bit ^^ n) b \<Longrightarrow> a = b"
  by (induction n) (auto dest: crc_bit_inj)

lemma crc_inj: "crc xs c = crc xs c' \<Longrightarrow> c = c'"
proof (induction xs arbitrary: c c')
  case (Cons x xs)
  then have "crc_step c x = crc_step c' x" by simp
  then have "c XOR ucast x = c' XOR ucast x"
    by (simp only: crc_step_bits) (rule crc_bits_inj)
  then show ?case by (simp add: xor_cancel)
qed simp

text \<open>Up to four bytes as one word, which the register takes in at once.\<close>

fun crc_word :: "byte list \<Rightarrow> u32" where
  "crc_word [] = 0"
| "crc_word (z # zs) = ucast z XOR push_bit 8 (crc_word zs)"

lemma crc_word_bit:
  "n < 32 \<Longrightarrow> bit (crc_word zs) n \<longleftrightarrow> n div 8 < length zs \<and> bit (zs ! (n div 8)) (n mod 8)"
proof (induction zs arbitrary: n)
  case (Cons z zs)
  show ?case
  proof (cases "n < 8")
    case True
    then show ?thesis by (simp only: crc_word.simps bit_xor_iff bit_push_bit_iff) (simp add: bit_simps)
  next
    case False
    then have "n div 8 = Suc ((n - 8) div 8)" "n mod 8 = (n - 8) mod 8"
      by (simp_all add: le_div_geq le_mod_geq)
    with False Cons show ?thesis
      by (simp only: crc_word.simps bit_xor_iff bit_push_bit_iff)
         (auto simp: bit_simps dest: bit_imp_le_length)
  qed
qed simp

lemma crc_short:
  "length zs \<le> 4 \<Longrightarrow> crc zs c = (crc_bit ^^ (8 * length zs)) (c XOR crc_word zs)"
proof (induction zs arbitrary: c)
  case (Cons z zs)
  let ?w = "crc_word zs"
  have "(crc_bit ^^ 8) (push_bit 8 ?w) = drop_bit 8 (push_bit 8 ?w)"
    by (rule crc_bits_shift) (simp only: bit_push_bit_iff, simp)
  also have "\<dots> = ?w"
  proof (rule bit_word_eqI)
    fix n assume "n < LENGTH(32)"
    then show "bit (drop_bit 8 (push_bit 8 ?w)) n = bit ?w n"
      using Cons.prems crc_word_bit [of n zs]
      by (simp only: bit_drop_bit_eq bit_push_bit_iff o_apply) auto
  qed
  finally have "crc_step c z XOR ?w = (crc_bit ^^ 8) (c XOR crc_word (z # zs))"
    by (simp only: crc_step_bits crc_word.simps crc_bits_xor [of 8 "c XOR ucast z"] xor.assoc [symmetric])
  moreover have "8 * length (z # zs) = 8 * length zs + 8" by simp
  ultimately show ?case
    using Cons by (simp only: funpow_add o_apply crc_Cons)
qed simp

lemma crc_word_inj:
  assumes "length xs = length ys" "length xs \<le> 4" "crc_word xs = crc_word ys"
  shows "xs = ys"
proof (rule nth_equalityI)
  fix i assume i: "i < length xs"
  show "xs ! i = ys ! i"
  proof (rule bit_word_eqI)
    fix n assume "n < LENGTH(8)"
    then show "bit (xs ! i) n = bit (ys ! i) n"
      using crc_word_bit [of "8 * i + n" xs] crc_word_bit [of "8 * i + n" ys] i assms by simp
  qed
qed (rule assms(1))

text \<open>
  C11: the checksum detects every corruption that is confined to four consecutive bytes.
\<close>

theorem crc_detects_burst:
  assumes "length xs = length ys" "length xs \<le> 4"
    and "crc (pre @ xs @ post) c = crc (pre @ ys @ post) c"
  shows "xs = ys"
proof -
  have "crc xs (crc pre c) = crc ys (crc pre c)"
    using assms(3) by (simp only: crc_append) (rule crc_inj)
  then have "(crc_bit ^^ (8 * length ys)) (crc pre c XOR crc_word xs) =
      (crc_bit ^^ (8 * length ys)) (crc pre c XOR crc_word ys)"
    using assms(1,2) by (simp only: crc_short)
  then have "crc pre c XOR crc_word xs = crc pre c XOR crc_word ys"
    by (rule crc_bits_inj)
  then have "crc_word xs = crc_word ys"
    by (simp only: xor.commute [of "crc pre c"] xor_cancel)
  then show ?thesis
    using assms by (intro crc_word_inj)
qed

theorem crc_detects_burst_witness:
  "crc ([7, 7] @ [1, 2, 3] @ [9]) 5 \<noteq> crc ([7, 7] @ [1, 0, 3] @ [9]) 5"
proof
  assume "crc ([7, 7] @ [1, 2, 3] @ [9]) 5 = crc ([7, 7] @ [1, 0, 3] @ [9]) 5"
  then have "[1, 2, 3] = [1, 0, 3 :: byte]"
    by (rule crc_detects_burst [rotated 2]) simp_all
  then show False by simp
qed

end
