(* ===== verification/Codec.thy ===== *)
theory Codec
  imports Tools
begin

text \<open>
  The interface between the harness and the codecs (\<open>codecs.hpp\<close>). A coding function gets two pointers into blocks of the working buffers; in
  the model it gets the contents of the two blocks from these pointers to the ends of the blocks and
  returns them as it leaves them, with its result. \<open>None\<close> stands for a function that has touched
  memory outside, or done something else that is undefined.
\<close>

type_synonym coder = "byte list \<Rightarrow> nat \<Rightarrow> byte list \<Rightarrow> nat \<Rightarrow> (byte list \<times> byte list \<times> nat) option"

definition CODING_ERROR :: nat where
  "CODING_ERROR = 0"

definition OVERRUN_PAD :: nat where
  "OVERRUN_PAD = 32"

definition no_blowup :: "nat \<Rightarrow> nat" where
  "no_blowup input_size = input_size + OVERRUN_PAD"

definition max_compressed_size :: "nat \<Rightarrow> nat" where
  "max_compressed_size input_size = input_size + input_size div 8 + 32"

datatype transform_type = in_place | moving | buffered | selective

subsection \<open>Memory\<close>

text \<open>\<open>n\<close> bytes at offset \<open>off\<close> of a buffer, and a buffer with bytes stored there.\<close>

definition load :: "'a list \<Rightarrow> nat \<Rightarrow> nat \<Rightarrow> 'a list" where
  "load mem off n = take n (drop off mem)"

definition store :: "'a list \<Rightarrow> nat \<Rightarrow> 'a list \<Rightarrow> 'a list" where
  "store mem off bs = take off mem @ bs @ drop (off + length bs) mem"

lemma length_load [simp]: "length (load mem off n) = min n (length mem - off)"
  by (simp add: load_def)

lemma length_store [simp]: "off + length bs \<le> length mem \<Longrightarrow> length (store mem off bs) = length mem"
  by (simp add: store_def)

lemma nth_store:
  "off + length bs \<le> length mem \<Longrightarrow>
   store mem off bs ! i = (if off \<le> i \<and> i < off + length bs then bs ! (i - off) else mem ! i)"
  by (auto simp: store_def nth_append)

lemma nth_load: "i < n \<Longrightarrow> off + n \<le> length mem \<Longrightarrow> load mem off n ! i = mem ! (off + i)"
  by (simp add: load_def)

lemma load_store_same: "off + length bs \<le> length mem \<Longrightarrow> load (store mem off bs) off (length bs) = bs"
  by (simp add: load_def store_def)

lemma load_store_other:
  assumes "off + length bs \<le> length mem" "off' + n \<le> length mem"
    and "off + length bs \<le> off' \<or> off' + n \<le> off"
  shows "load (store mem off bs) off' n = load mem off' n"
  using assms by (intro nth_equalityI) (auto simp: nth_load nth_store)

text \<open>Block \<open>b\<close> of a buffer of blocks of \<open>w\<close> bytes.\<close>

abbreviation blk :: "nat \<Rightarrow> 'a list \<Rightarrow> nat \<Rightarrow> 'a list" where
  "blk w mem b \<equiv> load mem (b * w) w"

lemma block_end: "b < (N :: nat) \<Longrightarrow> b * w + w \<le> N * w"
  using mult_le_mono1 [of "Suc b" N w] by simp

lemma blk_store:
  assumes "b < N" "b' < N" "length mem = N * w" "length bs = w"
  shows "blk w (store mem (b * w) bs) b' = (if b' = b then bs else blk w mem b')"
proof (cases "b' = b")
  case True
  then show ?thesis using load_store_same [of "b * w" bs mem] block_end [OF assms(1)] assms by simp
next
  case False
  then have "b < b' \<or> b' < b" by auto
  then have "b * w + w \<le> b' * w \<or> b' * w + w \<le> b * w" using block_end by auto
  then show ?thesis
    using False load_store_other [of "b * w" bs mem "b' * w" w] assms
      block_end [OF assms(1)] block_end [OF assms(2)] by simp
qed

lemma length_blk: "b < N \<Longrightarrow> length mem = N * w \<Longrightarrow> length (blk w mem b) = w"
  using block_end [of b N w] by simp

lemma length_store_blk:
  "b < N \<Longrightarrow> length mem = N * w \<Longrightarrow> length bs = w \<Longrightarrow> length (store mem (b * w) bs) = N * w"
  using block_end [of b N w] by simp

subsection \<open>Errors\<close>

definition or_error :: "'e \<Rightarrow> 'a option \<Rightarrow> 'e + 'a" where
  "or_error e x = (case x of None \<Rightarrow> Inl e | Some a \<Rightarrow> Inr a)"

definition and_then :: "'e + 'a \<Rightarrow> ('a \<Rightarrow> 'e + 'b) \<Rightarrow> 'e + 'b" where
  "and_then x f = (case x of Inl e \<Rightarrow> Inl e | Inr a \<Rightarrow> f a)"

lemma or_error_simps [simp]: "or_error e None = Inl e" "or_error e (Some a) = Inr a"
  by (simp_all add: or_error_def)

lemma and_then_simps [simp]: "and_then (Inl e) f = Inl e" "and_then (Inr a) f = f a"
  by (simp_all add: and_then_def)

lemma or_error_Inr_iff: "or_error e x = Inr a \<longleftrightarrow> x = Some a"
  by (simp add: or_error_def split: option.splits)

lemma and_then_Inr_iff: "and_then x f = Inr b \<longleftrightarrow> (\<exists>a. x = Inr a \<and> f a = Inr b)"
  by (auto simp: and_then_def split: sum.splits)

end
