(* ===== verification/Machine_Words.thy ===== *)
theory Machine_Words
  imports Bench_Prelude
begin

text \<open>
  Words in memory. The sources read and write integers through casted pointers; the model fixes the
  little-endian order of the machines the harness is built for.
\<close>

type_synonym u64 = "64 word"

subsection \<open>Loading and storing\<close>

definition le_load :: "byte list \<Rightarrow> 'a :: len word" where
  "le_load bs = foldr (\<lambda>b w. ucast b OR push_bit 8 w) bs 0"

definition le_store :: "nat \<Rightarrow> 'a :: len word \<Rightarrow> byte list" where
  "le_store n x = map (\<lambda>j. ucast (drop_bit (8 * j) x)) [0..<n]"

text \<open>The first \<open>n\<close> words of \<open>w\<close> bytes of a buffer.\<close>

definition le_words :: "nat \<Rightarrow> byte list \<Rightarrow> nat \<Rightarrow> 'a :: len word list" where
  "le_words w buf n = map (\<lambda>i. le_load (take w (drop (w * i) buf))) [0..<n]"

lemma length_le_store [simp]: "length (le_store n x) = n"
  by (simp add: le_store_def)

lemma length_le_words [simp]: "length (le_words w buf n) = n"
  by (simp add: le_words_def)

lemma bit_le_load:
  "bit (le_load bs :: 'a :: len word) n = (n < LENGTH('a) \<and> n < 8 * length bs \<and> bit (bs ! (n div 8)) (n mod 8))"
proof (induction bs arbitrary: n)
  case (Cons b bs)
  have "le_load (b # bs) = (ucast b OR push_bit 8 (le_load bs) :: 'a word)"
    by (simp add: le_load_def)
  then show ?case
    using Cons.IH [of "n - 8"] bit_imp_le_length [of b n]
    by (auto simp: bit_simps nth_Cons' div_if [of n 8] mod_if [of n 8])
qed (simp add: le_load_def)

lemma le_load_store:
  assumes "LENGTH('a) = 8 * n"
  shows "le_load (le_store n x) = (x :: 'a :: len word)"
proof (rule bit_word_eqI)
  fix m assume "m < LENGTH('a)"
  then show "bit (le_load (le_store n x) :: 'a word) m = bit x m"
    using assms by (auto simp: bit_le_load le_store_def bit_simps less_mult_imp_div_less mult.commute)
qed

lemma le_store_load:
  assumes "8 * length bs \<le> LENGTH('a)"
  shows "le_store (length bs) (le_load bs :: 'a :: len word) = bs"
proof (rule nth_equalityI)
  fix i assume i: "i < length (le_store (length bs) (le_load bs :: 'a word))"
  show "le_store (length bs) (le_load bs :: 'a word) ! i = bs ! i"
  proof (rule bit_word_eqI)
    fix m assume m: "m < LENGTH(8)"
    moreover have "8 * i + m < 8 * length bs" using i m by simp
    ultimately show "bit (le_store (length bs) (le_load bs :: 'a word) ! i) m = bit (bs ! i) m"
      using i assms by (simp add: le_store_def bit_simps bit_le_load)
  qed
qed simp

lemma le_load_inject:
  assumes "le_load bs = (le_load bs' :: 'a :: len word)" "length bs = length bs'" "8 * length bs \<le> LENGTH('a)"
  shows "bs = bs'"
  by (metis assms le_store_load)

lemma nth_le_words: "i < n \<Longrightarrow> le_words w buf n ! i = le_load (take w (drop (w * i) buf))"
  by (simp add: le_words_def)

text \<open>The words depend only on the bytes in front.\<close>

lemma le_words_cong:
  assumes "take (w * n) buf = take (w * n) buf'"
  shows "le_words w buf n = le_words w buf' n"
proof -
  have "take w (drop (w * i) buf) = take w (drop (w * i) buf')" if "i < n" for i
  proof -
    have "w * i + w \<le> w * n" using that mult_le_mono2 [of "Suc i" n w] by simp
    then have "take w (drop (w * i) b) = take w (drop (w * i) (take (w * n) b))" for b :: "byte list"
      by (simp add: drop_take min_def)
    then show ?thesis using assms by metis
  qed
  then show ?thesis by (simp add: le_words_def)
qed

lemma le_words_append:
  assumes "length xs = w * m"
  shows "le_words w (xs @ ys) (m + n) = le_words w xs m @ le_words w ys n"
proof (rule nth_equalityI)
  fix i assume "i < length (le_words w (xs @ ys) (m + n) :: 'a word list)"
  then have i: "i < m + n" by simp
  show "le_words w (xs @ ys) (m + n) ! i = (le_words w xs m @ le_words w ys n) ! i"
  proof (cases "i < m")
    case True
    then have "w * i + w \<le> length xs" using assms mult_le_mono2 [of "Suc i" m w] by simp
    then show ?thesis using True i by (simp add: nth_append nth_le_words)
  next
    case False
    then have "m \<le> i" "w * i - length xs = w * (i - m)" "length xs \<le> w * i"
      using assms by (simp_all add: diff_mult_distrib2)
    then show ?thesis using False i by (simp add: nth_append nth_le_words)
  qed
qed simp

subsection \<open>Byte order\<close>

text \<open>Swapping the byte order of a word in memory, the reference for the macros of the sources.\<close>

definition byteswap :: "nat \<Rightarrow> 'a :: len word \<Rightarrow> 'a word" where
  "byteswap n x = le_load (rev (le_store n x))"

lemma byteswap_load:
  assumes "8 * length bs = LENGTH('a)"
  shows "byteswap (length bs) (le_load bs :: 'a :: len word) = le_load (rev bs)"
  using assms by (simp add: byteswap_def le_store_load)

lemma byteswap_byteswap:
  assumes "LENGTH('a) = 8 * n"
  shows "byteswap n (byteswap n x) = (x :: 'a :: len word)"
  using assms byteswap_load [of "rev (le_store n x)", where 'a = 'a]
  by (simp add: byteswap_def [of n x] le_load_store)

lemma push_bit_or: "b < 2 ^ k \<Longrightarrow> push_bit k a OR b = 2 ^ k * a + (b :: nat)"
proof -
  assume "b < 2 ^ k"
  then have "\<not> bit b i" if "k \<le> i" for i using that
    by (metis bit_take_bit_iff not_le take_bit_nat_eq_self)
  then have "push_bit k a AND b = 0" by (intro bit_eqI) (auto simp: bit_simps)
  then show ?thesis by (simp add: disjunctive_add_eq_or [symmetric] push_bit_eq_mult)
qed

subsection \<open>Copying inside a buffer\<close>

text \<open>\<open>*dst++ = *cpy++\<close>, one byte after the other: the two stretches may overlap.\<close>

fun copy_forward :: "nat \<Rightarrow> byte list \<Rightarrow> nat \<Rightarrow> nat \<Rightarrow> byte list" where
  "copy_forward 0 d dst cpy = d"
| "copy_forward (Suc n) d dst cpy = copy_forward n (d[dst := d ! cpy]) (dst + 1) (cpy + 1)"

text \<open>\<open>memcpy (d + dst, d + cpy, n)\<close>, for stretches that do not overlap.\<close>

definition copy_block :: "nat \<Rightarrow> byte list \<Rightarrow> nat \<Rightarrow> nat \<Rightarrow> byte list" where
  "copy_block n d dst cpy = take dst d @ take n (drop cpy d) @ drop (dst + n) d"

lemma take_Suc_update: "i < length d \<Longrightarrow> take (Suc i) (d[i := x]) = take i d @ [x]"
  by (simp add: take_Suc_conv_app_nth)

lemma copy_forward_ok:
  assumes "take dst d = take dst ib" "cpy < dst" "dst + n \<le> length d" "dst + n \<le> length ib"
    and "\<And>k. k < n \<Longrightarrow> ib ! (dst + k) = ib ! (cpy + k)"
  shows "take (dst + n) (copy_forward n d dst cpy) = take (dst + n) ib \<and> length (copy_forward n d dst cpy) = length d"
  using assms
proof (induction n arbitrary: d dst cpy)
  case (Suc n)
  let ?d = "d[dst := d ! cpy]"
  have "d ! cpy = ib ! cpy" using Suc.prems(1,2) by (metis nth_take)
  then have "take (Suc dst) ?d = take (Suc dst) ib"
    using Suc.prems(1,3,4) Suc.prems(5) [of 0] by (simp add: take_Suc_update take_Suc_conv_app_nth)
  from Suc.IH [OF this, of "Suc cpy"] show ?case
    using Suc.prems(2-4) Suc.prems(5) [of "Suc _"] by simp
qed simp

lemma copy_block_ok:
  assumes "take dst d = take dst ib" "cpy + n \<le> dst" "dst + n \<le> length d" "dst + n \<le> length ib"
    and "\<And>k. k < n \<Longrightarrow> ib ! (dst + k) = ib ! (cpy + k)"
  shows "take (dst + n) (copy_block n d dst cpy) = take (dst + n) ib \<and> length (copy_block n d dst cpy) = length d"
proof -
  have "take n (drop cpy d) = take n (drop cpy (take dst d))" using assms(2) by (simp add: drop_take min_def)
  also have "\<dots> = take n (drop cpy ib)" unfolding assms(1) using assms(2) by (simp add: drop_take min_def)
  also have "\<dots> = take n (drop dst ib)"
    using assms(2-5) by (intro nth_equalityI) simp_all
  finally show ?thesis
    using assms(1-4) by (simp add: copy_block_def take_add)
qed

subsection \<open>Segmentations\<close>

text \<open>
  \<open>parses ok len i xs j\<close>: the items \<open>xs\<close> stand, one behind the other, for the data from \<open>i\<close> up to \<open>j\<close>.
\<close>

fun parses :: "(nat \<Rightarrow> 'a \<Rightarrow> bool) \<Rightarrow> ('a \<Rightarrow> nat) \<Rightarrow> nat \<Rightarrow> 'a list \<Rightarrow> nat \<Rightarrow> bool" where
  "parses ok len i [] j \<longleftrightarrow> i = j"
| "parses ok len i (x # xs) j \<longleftrightarrow> ok i x \<and> parses ok len (i + len x) xs j"

lemma parses_append: "parses ok len i (xs @ ys) j \<longleftrightarrow> (\<exists>k. parses ok len i xs k \<and> parses ok len k ys j)"
  by (induction xs arbitrary: i) auto

lemma parses_le: "parses ok len i xs j \<Longrightarrow> i \<le> j"
  by (induction xs arbitrary: i) (auto dest: add_leD1)

end
