(* ===== verification/Lrrle.thy ===== *)
theory Lrrle
  imports Codec Machine_Words
begin

text \<open>
  Long Run RLE (\<open>codecs/lrrle.c\<close>), the run length coder written for the harness. Its four variants
  work on groups of 1 to 4 words of 64 bits; the model has the number \<open>w\<close> of words of a group as a
  parameter. A run is coded as a marker word, a counter and the group. Groups that begin with the
  marker are always coded as runs, except at the end of the data: there the encoder forgets to.
\<close>

subsection \<open>Words and groups\<close>

definition LRRLE_RUN_MARKER :: u64 where
  "LRRLE_RUN_MARKER = 0x372E934ACB2BF3D1"

text \<open>The \<open>w\<close> words at \<open>ip\<close>, and storing words at \<open>op\<close>; \<open>None\<close> outside the buffer.\<close>

definition read_group :: "nat \<Rightarrow> byte list \<Rightarrow> nat \<Rightarrow> u64 list" where
  "read_group w ib ip = le_words 8 (drop ip ib) w"

definition word_bytes :: "u64 list \<Rightarrow> byte list" where
  "word_bytes ws = concat (map (le_store 8) ws)"

definition put_words :: "u64 list \<Rightarrow> byte list \<Rightarrow> nat \<Rightarrow> byte list option" where
  "put_words ws ob op =
    (if op + 8 * length ws \<le> length ob then Some (store ob op (word_bytes ws)) else None)"

subsection \<open>The encoder\<close>

record lrrle_enc =
  lr_prev :: "u64 list"
  lr_reps :: u64
  lr_ob :: "byte list"
  lr_op :: nat

text \<open>
  Short runs are not worth a marker: up to three groups of one word, two groups otherwise. They are
  written in full length whatever the counter says, and the pointer advances by the counter.
\<close>

definition lrrle_copies :: "nat \<Rightarrow> nat" where
  "lrrle_copies w = (if w = 1 then 3 else 2)"

definition lrrle_put_run :: "lrrle_enc \<Rightarrow> (byte list \<times> nat) option" where
  "lrrle_put_run e =
    map_option (\<lambda>ob. (ob, lr_op e + 8 * (length (lr_prev e) + 2)))
      (put_words (LRRLE_RUN_MARKER # lr_reps e # lr_prev e) (lr_ob e) (lr_op e))"

definition lrrle_put_copies :: "nat \<Rightarrow> lrrle_enc \<Rightarrow> (byte list \<times> nat) option" where
  "lrrle_put_copies w e =
    map_option (\<lambda>ob. (ob, lr_op e + 8 * w * (unat (lr_reps e) + 1)))
      (put_words (concat (replicate (lrrle_copies w) (lr_prev e))) (lr_ob e) (lr_op e))"

definition lrrle_next :: "u64 list \<Rightarrow> (byte list \<times> nat) option \<Rightarrow> lrrle_enc option" where
  "lrrle_next current written =
    map_option (\<lambda>(ob, op). \<lparr>lr_prev = current, lr_reps = 0, lr_ob = ob, lr_op = op\<rparr>) written"

definition lrrle_step :: "nat \<Rightarrow> u64 list \<Rightarrow> lrrle_enc \<Rightarrow> lrrle_enc option" where
  "lrrle_step w current e =
    (if current = lr_prev e then Some (e\<lparr>lr_reps := lr_reps e + 1\<rparr>)
     else if lr_reps e = 0 \<and> hd (lr_prev e) \<noteq> LRRLE_RUN_MARKER then
       lrrle_next current (map_option (\<lambda>ob. (ob, lr_op e + 8 * w)) (put_words (lr_prev e) (lr_ob e) (lr_op e)))
     else if (if w = 1 then lr_reps e < 3 else lr_reps e = 1) \<and> hd (lr_prev e) \<noteq> LRRLE_RUN_MARKER then
       lrrle_next current (lrrle_put_copies w e)
     else lrrle_next current (lrrle_put_run e))"

fun lrrle_compress_loop :: "nat \<Rightarrow> byte list \<Rightarrow> nat \<Rightarrow> nat \<Rightarrow> lrrle_enc \<Rightarrow> lrrle_enc option" where
  "lrrle_compress_loop w ib 0 ip e = Some e"
| "lrrle_compress_loop w ib (Suc left) ip e =
    (case lrrle_step w (read_group w ib ip) e of
       None \<Rightarrow> None
     | Some e' \<Rightarrow> lrrle_compress_loop w ib left (ip + 8 * w) e')"

text \<open>The pending run at the end of the data; there is no test for the marker.\<close>

definition lrrle_pending :: "nat \<Rightarrow> lrrle_enc \<Rightarrow> (byte list \<times> nat) option" where
  "lrrle_pending w e =
    (if (if w = 1 then 2 else 1) < lr_reps e then lrrle_put_run e else lrrle_put_copies w e)"

definition lrrle_compress :: "nat \<Rightarrow> byte list \<Rightarrow> nat \<Rightarrow> byte list \<Rightarrow> (byte list \<times> nat) option" where
  "lrrle_compress w ib isize ob =
    (if length ib < isize then None
     else
       let tail = isize mod (8 * w);
           groups = isize div (8 * w);
           coded = (if groups = 0 then Some (ob, 0)
                    else Option.bind (lrrle_compress_loop w ib (groups - 1) (8 * w)
                           \<lparr>lr_prev = read_group w ib 0, lr_reps = 0, lr_ob = ob, lr_op = 0\<rparr>)
                         (lrrle_pending w))
       in case coded of
            None \<Rightarrow> None
          | Some (ob', op) \<Rightarrow>
              if length ob' < op + tail then None
              else Some (store ob' op (load ib (isize - tail) tail), op + tail))"

subsection \<open>The decoder\<close>

function lrrle_decompress_loop :: "nat \<Rightarrow> byte list \<Rightarrow> nat \<Rightarrow> nat \<Rightarrow> byte list \<Rightarrow> nat \<Rightarrow>
    (byte list \<times> nat \<times> nat) option" where
  "lrrle_decompress_loop w ib out_limit ip ob op =
    (if op < out_limit \<and> 0 < w then
       if length ib < ip + 8 * w then None
       else if hd (read_group w ib ip) = LRRLE_RUN_MARKER then
         if length ib < ip + 8 * (w + 2) then None
         else
           let repetitions = unat (read_group (w + 2) ib ip ! 1);
               current = drop 2 (read_group (w + 2) ib ip)
           in case put_words (concat (replicate (Suc repetitions) current)) ob op of
                None \<Rightarrow> None
              | Some ob' \<Rightarrow> lrrle_decompress_loop w ib out_limit (ip + 8 * (w + 2)) ob' (op + 8 * w * Suc repetitions)
       else
         (case put_words (read_group w ib ip) ob op of
            None \<Rightarrow> None
          | Some ob' \<Rightarrow> lrrle_decompress_loop w ib out_limit (ip + 8 * w) ob' (op + 8 * w))
     else Some (ob, op, ip))"
  by auto
termination by (relation "measure (\<lambda>(w, ib, out_limit, ip, ob, op). out_limit - op)") auto

declare lrrle_decompress_loop.simps [simp del]

text \<open>The variants for one and for four words return a size that is one word too small.\<close>

definition lrrle_size :: "nat \<Rightarrow> nat \<Rightarrow> nat \<Rightarrow> nat" where
  "lrrle_size w op tail = (if w = 1 \<or> w = 4 then (op + 2 ^ 64 - 8 + tail) mod 2 ^ 64 else op + tail)"

definition lrrle_decompress :: "nat \<Rightarrow> byte list \<Rightarrow> byte list \<Rightarrow> nat \<Rightarrow> (byte list \<times> nat) option" where
  "lrrle_decompress w ib ob out_size =
    (let tail = out_size mod (8 * w)
     in case lrrle_decompress_loop w ib (out_size - tail) 0 ob 0 of
          None \<Rightarrow> None
        | Some (ob', op, ip) \<Rightarrow>
            if length ib < ip + tail \<or> length ob' < op + tail then None
            else Some (store ob' op (load ib ip tail), lrrle_size w op tail))"


subsection \<open>What the code stands for\<close>

text \<open>
  The code of a sequence of groups is made of groups written as they are, which do not begin with
  the marker, and of runs.
\<close>

datatype lr_item = Lone "u64 list" | Run u64 "u64 list"

fun lr_code :: "lr_item \<Rightarrow> u64 list" where
  "lr_code (Lone g) = g"
| "lr_code (Run r g) = LRRLE_RUN_MARKER # r # g"

fun lr_groups :: "lr_item \<Rightarrow> u64 list list" where
  "lr_groups (Lone g) = [g]"
| "lr_groups (Run r g) = replicate (Suc (unat r)) g"

fun lr_ok :: "nat \<Rightarrow> lr_item \<Rightarrow> bool" where
  "lr_ok w (Lone g) \<longleftrightarrow> length g = w \<and> hd g \<noteq> LRRLE_RUN_MARKER"
| "lr_ok w (Run r g) \<longleftrightarrow> length g = w"

text \<open>A run pays for its marker and counter, or its group begins with the marker.\<close>

fun lr_cheap :: "nat \<Rightarrow> lr_item \<Rightarrow> bool" where
  "lr_cheap w (Lone g) \<longleftrightarrow> True"
| "lr_cheap w (Run r g) \<longleftrightarrow> hd g = LRRLE_RUN_MARKER \<or> (if w = 1 then 2 else 1) < unat r"

definition lr_markers :: "u64 list list \<Rightarrow> nat" where
  "lr_markers gs = length (filter (\<lambda>g. hd g = LRRLE_RUN_MARKER) gs)"

definition groups_of :: "nat \<Rightarrow> byte list \<Rightarrow> nat \<Rightarrow> u64 list list" where
  "groups_of w ib k = map (\<lambda>i. read_group w ib (8 * w * i)) [0..<k]"

abbreviation code_of :: "lr_item list \<Rightarrow> byte list" where
  "code_of items \<equiv> word_bytes (concat (map lr_code items))"

abbreviation data_of :: "u64 list list \<Rightarrow> byte list" where
  "data_of gs \<equiv> word_bytes (concat gs)"

lemma length_word_bytes [simp]: "length (word_bytes ws) = 8 * length ws"
  by (induction ws) (simp_all add: word_bytes_def)

lemma word_bytes_append [simp]: "word_bytes (xs @ ys) = word_bytes xs @ word_bytes ys"
  by (simp add: word_bytes_def)

lemma word_bytes_Nil [simp]: "word_bytes [] = []"
  by (simp add: word_bytes_def)

lemma length_read_group [simp]: "length (read_group w ib ip) = w"
  by (simp add: read_group_def)

lemma le_words_Suc: "le_words w buf (Suc n) = le_load (take w buf) # le_words w (drop w buf) n"
  by (simp add: le_words_def upt_conv_Cons map_Suc_upt [symmetric] add.commute del: upt_Suc)

lemma le_words_word_bytes: "le_words 8 (word_bytes ws @ r) (length ws) = ws"
  by (induction ws) (simp_all add: le_words_Suc word_bytes_def le_load_store, simp add: le_words_def)

lemma read_group_bytes: "load ib ip (8 * length ws) = word_bytes ws \<Longrightarrow> read_group (length ws) ib ip = ws"
  using le_words_word_bytes [of ws "drop (ip + 8 * length ws) ib"]
    append_take_drop_id [of "8 * length ws" "drop ip ib"]
  by (simp add: read_group_def load_def add.commute)

lemma word_bytes_words:
  "length xs = 8 * n \<Longrightarrow> word_bytes (le_words 8 xs n) = xs"
proof (induction n arbitrary: xs)
  case (Suc n)
  have "le_store 8 (le_load (take 8 xs) :: u64) = take 8 xs"
    using le_store_load [where 'a = 64, of "take 8 xs"] Suc.prems by simp
  then show ?case
    using Suc.IH [of "drop 8 xs"] Suc.prems by (simp add: le_words_Suc word_bytes_def)
qed (simp add: le_words_def word_bytes_def)

lemma word_bytes_group:
  assumes "ip + 8 * w \<le> length ib"
  shows "word_bytes (read_group w ib ip) = load ib ip (8 * w)"
proof -
  have "read_group w ib ip = le_words 8 (load ib ip (8 * w)) w"
    unfolding read_group_def load_def by (rule le_words_cong) simp
  then show ?thesis using assms word_bytes_words [of "load ib ip (8 * w)" w] by simp
qed

lemma groups_of_Suc: "groups_of w ib (Suc k) = groups_of w ib k @ [read_group w ib (8 * w * k)]"
  by (simp add: groups_of_def)

lemma length_groups_of [simp]: "length (groups_of w ib k) = k"
  by (simp add: groups_of_def)

lemma data_groups_of: "8 * w * k \<le> length ib \<Longrightarrow> data_of (groups_of w ib k) = take (8 * w * k) ib"
proof (induction k)
  case (Suc k)
  then show ?case
    using word_bytes_group [of "8 * w * k" w ib]
    by (simp add: groups_of_Suc load_def take_add [symmetric] algebra_simps)
qed (simp add: groups_of_def)


subsection \<open>The encoder writes the code\<close>

definition lr_coded :: "nat \<Rightarrow> nat \<Rightarrow> u64 list list \<Rightarrow> byte list \<Rightarrow> nat \<Rightarrow> bool" where
  "lr_coded w N gs ob op \<longleftrightarrow> length ob = N \<and> op \<le> N \<and>
    (\<exists>items. (\<forall>i\<in>set items. lr_ok w i \<and> lr_cheap w i) \<and> concat (map lr_groups items) = gs \<and>
      take op ob = code_of items \<and> op = 8 * length (concat (map lr_code items)))"

lemma lr_markers_append [simp]: "lr_markers (xs @ ys) = lr_markers xs + lr_markers ys"
  by (simp add: lr_markers_def)

lemma lr_code_bound:
  "lr_ok w i \<Longrightarrow> lr_cheap w i \<Longrightarrow> 0 < w \<Longrightarrow>
    length (lr_code i) \<le> w * length (lr_groups i) + 2 * lr_markers (lr_groups i)"
proof (cases i)
  case (Run r g)
  assume *: "lr_ok w i" "lr_cheap w i" "0 < w"
  show ?thesis
  proof (cases "hd g = LRRLE_RUN_MARKER")
    case True
    then show ?thesis using * Run by (simp add: lr_markers_def)
  next
    case False
    then have "(if w = 1 then 4 else 3) \<le> Suc (unat r)" using * Run by (auto split: if_splits)
    then have "w * (if w = 1 then 4 else 3) \<le> w * Suc (unat r)" by (rule mult_le_mono2)
    moreover have "w + 2 \<le> w * (if w = 1 then 4 else 3)" using * by simp
    ultimately show ?thesis using * Run by simp
  qed
qed simp

lemma lr_codes_bound:
  assumes "\<forall>i\<in>set items. lr_ok w i \<and> lr_cheap w i" "0 < w"
  shows "length (concat (map lr_code items)) \<le>
    w * length (concat (map lr_groups items)) + 2 * lr_markers (concat (map lr_groups items))"
  using assms
proof (induction items)
  case (Cons i items)
  then show ?case using lr_code_bound [of w i] by (simp add: distrib_left)
qed simp

lemma lr_coded_bound:
  "lr_coded w N gs ob op \<Longrightarrow> 0 < w \<Longrightarrow> op \<le> 8 * w * length gs + 16 * lr_markers gs"
  using lr_codes_bound [of _ w] by (fastforce simp: lr_coded_def)

lemma lr_coded_put:
  assumes "lr_coded w N gs ob op" "\<forall>i\<in>set items. lr_ok w i \<and> lr_cheap w i"
    and "op + 8 * length (concat (map lr_code items) @ extra) \<le> N"
  shows "\<exists>ob'. put_words (concat (map lr_code items) @ extra) ob op = Some ob' \<and>
    lr_coded w N (gs @ concat (map lr_groups items)) ob' (op + 8 * length (concat (map lr_code items)))"
proof -
  obtain before where 1: "\<forall>i\<in>set before. lr_ok w i \<and> lr_cheap w i" "concat (map lr_groups before) = gs"
    "take op ob = code_of before" "op = 8 * length (concat (map lr_code before))" "length ob = N"
    using assms(1) by (auto simp: lr_coded_def)
  let ?ob = "store ob op (word_bytes (concat (map lr_code items) @ extra))"
  let ?rest = "word_bytes extra @ drop (op + 8 * length (concat (map lr_code items) @ extra)) ob"
  have ob': "?ob = code_of before @ code_of items @ ?rest"
    using 1(3) by (simp add: store_def)
  have "take (op + 8 * length (concat (map lr_code items))) ?ob = code_of (before @ items)"
    unfolding ob' using 1(4) by simp
  then have "lr_coded w N (gs @ concat (map lr_groups items)) ?ob (op + 8 * length (concat (map lr_code items)))"
    unfolding lr_coded_def
    using 1 assms(2,3) by (auto intro!: exI [of _ "before @ items"])
  then show ?thesis using assms(3) 1(5) by (simp add: put_words_def)
qed

text \<open>The three ways of writing a run.\<close>

lemma put_words_lone:
  assumes "lr_coded w N gs ob op" "length g = w" "hd g \<noteq> LRRLE_RUN_MARKER" "op + 8 * w \<le> N"
  shows "\<exists>ob'. put_words g ob op = Some ob' \<and> lr_coded w N (gs @ [g]) ob' (op + 8 * w)"
  using lr_coded_put [OF assms(1), of "[Lone g]" "[]"] assms by simp

lemma concat_replicate_length: "length (concat (replicate n xs)) = n * length xs"
  by (induction n) simp_all

lemma lrrle_put_copies_ok:
  assumes "lr_coded w N gs (lr_ob e) (lr_op e)" "length (lr_prev e) = w" "hd (lr_prev e) \<noteq> LRRLE_RUN_MARKER"
    and "unat (lr_reps e) < lrrle_copies w" "lr_op e + 8 * w * lrrle_copies w \<le> N"
  shows "\<exists>ob' op'. lrrle_put_copies w e = Some (ob', op') \<and>
    lr_coded w N (gs @ replicate (Suc (unat (lr_reps e))) (lr_prev e)) ob' op'"
proof -
  let ?n = "Suc (unat (lr_reps e))" and ?p = "lr_prev e"
  let ?extra = "concat (replicate (lrrle_copies w - ?n) ?p)"
  have 1: "concat (map lr_code (replicate ?n (Lone ?p))) = concat (replicate ?n ?p)"
    "concat (map lr_groups (replicate ?n (Lone ?p))) = replicate ?n ?p" for n
    by (simp_all add: map_replicate_const concat_replicate_trivial flip: replicate_Suc)
  have 2: "concat (replicate ?n ?p) @ ?extra = concat (replicate (lrrle_copies w) ?p)"
    using assms(4) unfolding concat_append [symmetric] replicate_add [symmetric] by simp
  have 3: "8 * length (concat (replicate ?n ?p)) = 8 * w * (unat (lr_reps e) + 1)"
    using assms(2) by (simp add: concat_replicate_length)
  have 4: "lr_op e + 8 * length (concat (replicate (lrrle_copies w) ?p)) \<le> N"
    using assms(2,5) by (simp add: concat_replicate_length mult.commute mult.left_commute)
  obtain ob' where "put_words (concat (replicate (lrrle_copies w) ?p)) (lr_ob e) (lr_op e) = Some ob'"
    "lr_coded w N (gs @ replicate ?n ?p) ob' (lr_op e + 8 * w * (unat (lr_reps e) + 1))"
    using lr_coded_put [OF assms(1), of "replicate ?n (Lone ?p)" ?extra] assms(2,3) 4
    unfolding 1 2 3 by (auto simp del: replicate_Suc)
  then show ?thesis by (simp add: lrrle_put_copies_def)
qed

lemma lrrle_put_run_ok:
  assumes "lr_coded w N gs (lr_ob e) (lr_op e)" "length (lr_prev e) = w"
    and "lr_cheap w (Run (lr_reps e) (lr_prev e))" "lr_op e + 8 * (w + 2) \<le> N"
  shows "\<exists>ob' op'. lrrle_put_run e = Some (ob', op') \<and>
    lr_coded w N (gs @ replicate (Suc (unat (lr_reps e))) (lr_prev e)) ob' op'"
  using lr_coded_put [OF assms(1), of "[Run (lr_reps e) (lr_prev e)]" "[]"] assms
  by (auto simp: lrrle_put_run_def)


text \<open>The state of the encoder: the groups in front of the pending run are coded.\<close>

definition lr_inv :: "nat \<Rightarrow> nat \<Rightarrow> u64 list list \<Rightarrow> lrrle_enc \<Rightarrow> bool" where
  "lr_inv w N gs e \<longleftrightarrow> length (lr_prev e) = w \<and>
    (\<exists>before. lr_coded w N before (lr_ob e) (lr_op e) \<and>
      gs = before @ replicate (Suc (unat (lr_reps e))) (lr_prev e))"

definition lr_room :: "nat \<Rightarrow> nat \<Rightarrow> u64 list list \<Rightarrow> bool" where
  "lr_room w N gs \<longleftrightarrow> 8 * w * length gs + 16 * lr_markers gs + 32 \<le> N"

lemma lr_room_append: "lr_room w N (xs @ ys) \<Longrightarrow> lr_room w N xs"
  by (simp add: lr_room_def distrib_left)

lemma lr_room_copies:
  assumes "lr_coded w N before ob op" "lr_room w N (before @ replicate (Suc n) p)" "0 < w" "w \<le> 4"
  shows "op + 8 * w * lrrle_copies w \<le> N"
proof -
  have "8 * w * lrrle_copies w \<le> 8 * w + 32"
    using assms(3,4) by (simp add: lrrle_copies_def)
  moreover have "op \<le> 8 * w * length before + 16 * lr_markers before"
    using lr_coded_bound [OF assms(1,3)] .
  ultimately show ?thesis using assms(2) by (simp add: lr_room_def distrib_left)
qed

lemma lr_room_run:
  assumes "lr_coded w N before ob op" "lr_room w N (before @ replicate (Suc (unat r)) p)" "0 < w"
    and "length p = w" "lr_cheap w (Run r p)"
  shows "op + 8 * (w + 2) \<le> N"
proof -
  have "w + 2 \<le> w * Suc (unat r) + 2 * lr_markers (replicate (Suc (unat r)) p)"
    using lr_code_bound [of w "Run r p"] assms(3-5) by simp
  moreover have "op \<le> 8 * w * length before + 16 * lr_markers before"
    using lr_coded_bound [OF assms(1,3)] .
  ultimately show ?thesis using assms(2) by (simp add: lr_room_def distrib_left)
qed

lemma lr_inv_next:
  "lr_coded w N gs ob op \<Longrightarrow> length cur = w \<Longrightarrow>
    lr_inv w N (gs @ [cur]) \<lparr>lr_prev = cur, lr_reps = 0, lr_ob = ob, lr_op = op\<rparr>"
  by (auto simp: lr_inv_def)

lemma lrrle_step_ok:
  assumes "lr_inv w N gs e" "length cur = w" "0 < w" "w \<le> 4" "lr_room w N gs" "length gs < 2 ^ 64"
  shows "\<exists>e'. lrrle_step w cur e = Some e' \<and> lr_inv w N (gs @ [cur]) e'"
proof -
  let ?p = "lr_prev e" and ?r = "lr_reps e"
  obtain before where p: "length ?p = w" and b: "lr_coded w N before (lr_ob e) (lr_op e)"
    and gs: "gs = before @ replicate (Suc (unat ?r)) ?p"
    using assms(1) by (auto simp: lr_inv_def)
  note room = assms(5) [unfolded gs]
  consider (same) "cur = ?p" | (lone) "cur \<noteq> ?p" "?r = 0" "hd ?p \<noteq> LRRLE_RUN_MARKER"
    | (short) "cur \<noteq> ?p" "?r \<noteq> 0" "unat ?r < lrrle_copies w" "hd ?p \<noteq> LRRLE_RUN_MARKER"
        "if w = 1 then ?r < 3 else ?r = 1"
    | (run) "cur \<noteq> ?p" "lr_cheap w (Run ?r ?p)"
        "\<not> (?r = 0 \<and> hd ?p \<noteq> LRRLE_RUN_MARKER)"
        "\<not> ((if w = 1 then ?r < 3 else ?r = 1) \<and> hd ?p \<noteq> LRRLE_RUN_MARKER)"
  proof -
    have "unat ?r < lrrle_copies w" if "if w = 1 then ?r < 3 else ?r = 1"
      using that by (auto simp: lrrle_copies_def word_less_nat_alt split: if_splits)
    moreover have "lr_cheap w (Run ?r ?p)" if "?r \<noteq> 0" "\<not> (if w = 1 then ?r < 3 else ?r = 1)"
      using that by (auto simp: word_less_nat_alt word_unat_eq_iff split: if_splits)
    ultimately show thesis using that by fastforce
  qed
  then show ?thesis
  proof cases
    case same
    have "Suc (unat ?r) < 2 ^ 64" using assms(6) gs by simp
    then have "unat (?r + 1) = Suc (unat ?r)" by (simp add: unat_word_ariths)
    then show ?thesis
      using same p b gs by (auto simp: lrrle_step_def lr_inv_def replicate_append_same)
  next
    case lone
    have "lr_op e + 8 * w \<le> N"
      using lr_room_copies [OF b room assms(3,4)] by (simp add: lrrle_copies_def split: if_splits)
    then show ?thesis
      using put_words_lone [OF b p lone(3)] lone lr_inv_next [of w N gs] gs assms(2)
      by (auto simp: lrrle_step_def lrrle_next_def)
  next
    case short
    then show ?thesis
      using lrrle_put_copies_ok [OF b p short(4,3) lr_room_copies [OF b room assms(3,4)]]
        lr_inv_next [of w N gs] gs assms(2)
      by (auto simp: lrrle_step_def lrrle_next_def)
  next
    case run
    then show ?thesis
      using lrrle_put_run_ok [OF b p run(2) lr_room_run [OF b room assms(3) p run(2)]]
        lr_inv_next [of w N gs] gs assms(2)
      by (auto simp: lrrle_step_def lrrle_next_def)
  qed
qed

lemma lrrle_compress_loop_ok:
  assumes "lr_inv w N (groups_of w ib k) e" "0 < w" "w \<le> 4" "lr_room w N (groups_of w ib (k + left))" "k + left < 2 ^ 64"
  shows "\<exists>e'. lrrle_compress_loop w ib left (8 * w * k) e = Some e' \<and> lr_inv w N (groups_of w ib (k + left)) e'"
  using assms
proof (induction left arbitrary: k e)
  case (Suc left)
  have "groups_of w ib (k + Suc left) = groups_of w ib k @ map (\<lambda>i. read_group w ib (8 * w * i)) [k..<k + Suc left]"
    by (simp add: groups_of_def upt_add_eq_append [of 0 k, simplified])
  then have "lr_room w N (groups_of w ib k)"
    using Suc.prems(4) lr_room_append by metis
  then obtain e' where 1: "lrrle_step w (read_group w ib (8 * w * k)) e = Some e'"
      "lr_inv w N (groups_of w ib (Suc k)) e'"
    using lrrle_step_ok [OF Suc.prems(1) _ Suc.prems(2,3), of "read_group w ib (8 * w * k)"] Suc.prems(5)
    by (auto simp: groups_of_Suc)
  then show ?case
    using Suc.IH [of "Suc k" e'] Suc.prems by (simp add: algebra_simps)
qed simp


text \<open>
  At the end of the data a group that begins with the marker is written without a run if it differs
  from the group in front.
\<close>

lemma lrrle_pending_ok:
  assumes "lr_inv w N gs e" "0 < w" "w \<le> 4" "lr_room w N gs" "hd (lr_prev e) \<noteq> LRRLE_RUN_MARKER"
  shows "\<exists>ob' op'. lrrle_pending w e = Some (ob', op') \<and> lr_coded w N gs ob' op'"
proof -
  obtain before where p: "length (lr_prev e) = w" and b: "lr_coded w N before (lr_ob e) (lr_op e)"
    and gs: "gs = before @ replicate (Suc (unat (lr_reps e))) (lr_prev e)"
    using assms(1) by (auto simp: lr_inv_def)
  note room = assms(4) [unfolded gs]
  show ?thesis
  proof (cases "(if w = 1 then 2 else 1) < lr_reps e")
    case True
    then have "lr_cheap w (Run (lr_reps e) (lr_prev e))"
      by (auto simp: word_less_nat_alt split: if_splits)
    then show ?thesis
      using True lrrle_put_run_ok [OF b p] lr_room_run [OF b room assms(2) p] gs
      by (simp add: lrrle_pending_def)
  next
    case False
    then have "unat (lr_reps e) < lrrle_copies w"
      by (auto simp: word_less_nat_alt lrrle_copies_def split: if_splits)
    then show ?thesis
      using False lrrle_put_copies_ok [OF b p assms(5)] lr_room_copies [OF b room assms(2,3)] gs
      by (simp add: lrrle_pending_def)
  qed
qed

lemma lrrle_pending_raw:
  assumes "lr_coded w N gs (lr_ob e) (lr_op e)" "lr_reps e = 0" "length (lr_prev e) = w" "0 < w"
    and "lr_op e + 8 * w * lrrle_copies w \<le> N"
  shows "\<exists>ob'. lrrle_pending w e = Some (ob', lr_op e + 8 * w) \<and> length ob' = N \<and>
    take (lr_op e + 8 * w) ob' = take (lr_op e) (lr_ob e) @ word_bytes (lr_prev e)"
proof -
  let ?p = "lr_prev e"
  have "lrrle_copies w \<noteq> 0" by (simp add: lrrle_copies_def)
  then obtain n where n: "lrrle_copies w = Suc n" using not0_implies_Suc by blast
  have len: "length (concat (replicate (lrrle_copies w) ?p)) = w * lrrle_copies w"
    using assms(3) by (simp add: concat_replicate_length)
  have N: "length (lr_ob e) = N" "lr_op e \<le> N" using assms(1) by (simp_all add: lr_coded_def)
  let ?s = "store (lr_ob e) (lr_op e) (word_bytes (concat (replicate (lrrle_copies w) ?p)))"
  have "word_bytes (concat (replicate (lrrle_copies w) ?p)) = word_bytes ?p @ word_bytes (concat (replicate n ?p))"
    by (simp add: n)
  then have s: "?s = take (lr_op e) (lr_ob e) @ word_bytes ?p @ word_bytes (concat (replicate n ?p)) @
      drop (lr_op e + 8 * (w * lrrle_copies w)) (lr_ob e)"
    unfolding store_def length_word_bytes len by simp
  have t: "take (lr_op e + 8 * w) ?s = take (lr_op e) (lr_ob e) @ word_bytes ?p"
    unfolding s using N assms(3) by simp
  have l: "length ?s = N" using N len assms(5) by (simp add: length_store)
  show ?thesis
    using assms(2,4,5) N len l t by (simp add: lrrle_pending_def lrrle_put_copies_def put_words_def mult.assoc)
qed

subsection \<open>The decoder reads the code\<close>

lemma store_store:
  "op + length xs \<le> length ob \<Longrightarrow> store (store ob op xs) (op + length xs) ys = store ob op (xs @ ys)"
  by (simp add: store_def ac_simps)

lemma take_store: "off \<le> length mem \<Longrightarrow> take off (store mem off bs) = take off mem"
  by (simp add: store_def)

lemma store_Nil [simp]: "store ob op [] = ob"
  by (simp add: store_def)

lemma hd_read_group: "0 < w \<Longrightarrow> hd (read_group w ib ip) = le_load (take 8 (drop ip ib))"
  by (cases w) (simp_all add: read_group_def le_words_Suc)

lemma load_append:
  assumes "load ib ip (m + n) = xs @ ys" "length xs = m"
  shows "load ib ip m = xs \<and> load ib (ip + m) n = ys"
proof -
  have "load ib ip m = take m (load ib ip (m + n))" "load ib (ip + m) n = drop m (load ib ip (m + n))"
    by (simp_all add: load_def drop_take add.commute)
  then show ?thesis using assms by simp
qed

lemma load_length: "load ib ip n = xs \<Longrightarrow> length xs = n \<Longrightarrow> 0 < n \<Longrightarrow> ip + n \<le> length ib"
  by (auto simp: load_def)

lemma length_data_of: "\<forall>g\<in>set gs. length g = w \<Longrightarrow> length (concat gs) = w * length gs"
  by (induction gs) simp_all

lemma lr_groups_length: "lr_ok w i \<Longrightarrow> \<forall>g\<in>set (lr_groups i). length g = w"
  by (cases i) auto

lemma lrrle_decompress_item:
  assumes "lr_ok w i" "0 < w" "load ib ip (8 * length (lr_code i)) = word_bytes (lr_code i)"
    and "op + 8 * w * length (lr_groups i) \<le> length ob" "op < lim"
  shows "lrrle_decompress_loop w ib lim ip ob op =
    lrrle_decompress_loop w ib lim (ip + 8 * length (lr_code i)) (store ob op (data_of (lr_groups i)))
      (op + 8 * w * length (lr_groups i))"
proof -
  have len: "length (concat (lr_groups i)) = w * length (lr_groups i)"
    using length_data_of lr_groups_length [OF assms(1)] .
  note read = read_group_bytes [OF assms(3)]
  show ?thesis
  proof (cases i)
    case (Lone g)
    then have g: "read_group w ib ip = g" "ip + 8 * w \<le> length ib"
      using read assms(1,2) load_length [OF assms(3)] by auto
    then show ?thesis
      using assms len Lone
      by (subst lrrle_decompress_loop.simps) (simp add: put_words_def)
  next
    case (Run r g)
    then have g: "read_group (w + 2) ib ip = LRRLE_RUN_MARKER # r # g" "ip + 8 * (w + 2) \<le> length ib"
      using read assms(1,2) load_length [OF assms(3)] by auto
    have "hd (read_group w ib ip) = hd (read_group (w + 2) ib ip)"
      using hd_read_group [of w] hd_read_group [of "w + 2"] assms(2) by simp
    then have "hd (read_group w ib ip) = LRRLE_RUN_MARKER" using g(1) by simp
    then show ?thesis
      using assms len Run g
      by (subst lrrle_decompress_loop.simps) (simp add: put_words_def Let_def)
  qed
qed

lemma lrrle_decompress_items:
  assumes "\<forall>i\<in>set items. lr_ok w i" "0 < w"
    and "load ib ip (8 * length (concat (map lr_code items))) = code_of items"
    and "op + 8 * w * length (concat (map lr_groups items)) \<le> lim" "lim \<le> length ob"
  shows "lrrle_decompress_loop w ib lim ip ob op =
    lrrle_decompress_loop w ib lim (ip + 8 * length (concat (map lr_code items)))
      (store ob op (data_of (concat (map lr_groups items))))
      (op + 8 * w * length (concat (map lr_groups items)))"
  using assms
proof (induction items arbitrary: ip op ob)
  case (Cons i items)
  let ?c = "8 * length (lr_code i)" and ?d = "8 * w * length (lr_groups i)"
  have "load ib ip (?c + 8 * length (concat (map lr_code items))) = word_bytes (lr_code i) @ code_of items"
    using Cons.prems(3) by simp
  from load_append [OF this] have l: "load ib ip ?c = word_bytes (lr_code i)"
    "load ib (ip + ?c) (8 * length (concat (map lr_code items))) = code_of items" by auto
  have "lr_groups i \<noteq> []" by (cases i) simp_all
  then have "0 < ?d" using Cons.prems(2) by simp
  moreover have "op + ?d \<le> lim" using Cons.prems(4) by (simp add: distrib_left)
  ultimately have op: "op < lim" "op + ?d \<le> length ob"
    using Cons.prems(5) by linarith+
  have d: "length (data_of (lr_groups i)) = ?d"
    using length_data_of [OF lr_groups_length [of w i]] Cons.prems(1) by simp
  have ss: "store (store ob op (data_of (lr_groups i))) (op + ?d) ys = store ob op (data_of (lr_groups i) @ ys)" for ys
    using store_store [of op "data_of (lr_groups i)" ob ys] op(2) unfolding d by simp
  show ?case
    using lrrle_decompress_item [OF _ Cons.prems(2) l(1) op(2,1)]
      Cons.IH [of "ip + ?c" "op + ?d" "store ob op (data_of (lr_groups i))"]
      Cons.prems l(2) op d ss
    by (simp add: distrib_left add.assoc length_store)
qed simp


subsection \<open>The variants together\<close>

text \<open>The number of groups that begin with the marker, and whether the last group does.\<close>

definition lrrle_markers :: "nat \<Rightarrow> byte list \<Rightarrow> nat \<Rightarrow> nat" where
  "lrrle_markers w ib isize = lr_markers (groups_of w ib (isize div (8 * w)))"

definition lrrle_marker_last :: "nat \<Rightarrow> byte list \<Rightarrow> nat \<Rightarrow> bool" where
  "lrrle_marker_last w ib isize \<longleftrightarrow>
    8 * w \<le> isize \<and> hd (last (groups_of w ib (isize div (8 * w)))) = LRRLE_RUN_MARKER"

lemma lr_coded_Nil: "lr_coded w (length ob) [] ob 0"
  by (auto simp: lr_coded_def intro: exI [of _ "[]"])

lemma lrrle_compress_state:
  assumes "0 < w" "w \<le> 4" "0 < n" "n < 2 ^ 64" "lr_room w (length ob) (groups_of w ib n)"
  shows "\<exists>e. lrrle_compress_loop w ib (n - 1) (8 * w)
      \<lparr>lr_prev = read_group w ib 0, lr_reps = 0, lr_ob = ob, lr_op = 0\<rparr> = Some e \<and>
    lr_inv w (length ob) (groups_of w ib n) e"
proof -
  have "groups_of w ib 1 = [] @ [read_group w ib 0]" by (simp add: groups_of_def)
  then have "lr_inv w (length ob) (groups_of w ib 1)
      \<lparr>lr_prev = read_group w ib 0, lr_reps = 0, lr_ob = ob, lr_op = 0\<rparr>"
    using lr_inv_next [OF lr_coded_Nil, of "read_group w ib 0" w ob] by simp
  from lrrle_compress_loop_ok [OF this, of "n - 1"] show ?thesis using assms by simp
qed

lemma lr_inv_last: "lr_inv w N gs e \<Longrightarrow> last gs = lr_prev e"
  by (auto simp: lr_inv_def)

lemma lrrle_compress_groups:
  assumes "0 < w" "w \<le> 4" "n < 2 ^ 64" "lr_room w (length ob) (groups_of w ib n)"
    and "n = 0 \<or> hd (last (groups_of w ib n)) \<noteq> LRRLE_RUN_MARKER"
  shows "\<exists>ob' op. (if n = 0 then Some (ob, 0)
      else Option.bind (lrrle_compress_loop w ib (n - 1) (8 * w)
          \<lparr>lr_prev = read_group w ib 0, lr_reps = 0, lr_ob = ob, lr_op = 0\<rparr>) (lrrle_pending w)) = Some (ob', op) \<and>
    lr_coded w (length ob) (groups_of w ib n) ob' op"
proof (cases "n = 0")
  case True
  then show ?thesis using lr_coded_Nil by (simp add: groups_of_def)
next
  case False
  then obtain e where e: "lrrle_compress_loop w ib (n - 1) (8 * w)
      \<lparr>lr_prev = read_group w ib 0, lr_reps = 0, lr_ob = ob, lr_op = 0\<rparr> = Some e"
    "lr_inv w (length ob) (groups_of w ib n) e"
    using lrrle_compress_state assms(1-4) by blast
  then show ?thesis
    using lrrle_pending_ok [OF e(2) assms(1,2,4)] lr_inv_last [OF e(2)] False assms(5) by simp
qed

lemma lrrle_compress_ok:
  assumes "0 < w" "w \<le> 4" "isize \<le> length ib" "isize < 2 ^ 64" "\<not> lrrle_marker_last w ib isize"
    and "isize + 16 * lrrle_markers w ib isize + 32 \<le> length ob"
  shows "\<exists>ob' r items. lrrle_compress w ib isize ob = Some (ob', r) \<and>
    r \<le> isize + 16 * lrrle_markers w ib isize \<and> length ob' = length ob \<and> (\<forall>i\<in>set items. lr_ok w i) \<and>
    concat (map lr_groups items) = groups_of w ib (isize div (8 * w)) \<and>
    take r ob' = code_of items @ load ib (isize - isize mod (8 * w)) (isize mod (8 * w))"
proof -
  let ?n = "isize div (8 * w)" and ?t = "isize mod (8 * w)"
  let ?tail = "load ib (isize - ?t) ?t"
  have isize: "isize = 8 * w * ?n + ?t" by simp
  have tail: "length ?tail = ?t" using assms(3) mod_less_eq_dividend [of isize "8 * w"] by simp
  have room: "lr_room w (length ob) (groups_of w ib ?n)"
    using assms(6) isize unfolding lr_room_def lrrle_markers_def length_groups_of by linarith
  have "?n < 2 ^ 64" using assms(4) div_le_dividend [of isize "8 * w"] by linarith
  moreover have "?n = 0 \<or> hd (last (groups_of w ib ?n)) \<noteq> LRRLE_RUN_MARKER"
    using assms(1,5) by (auto simp: lrrle_marker_last_def div_eq_0_iff)
  ultimately obtain ob' op where 1: "(if ?n = 0 then Some (ob, 0)
      else Option.bind (lrrle_compress_loop w ib (?n - 1) (8 * w)
          \<lparr>lr_prev = read_group w ib 0, lr_reps = 0, lr_ob = ob, lr_op = 0\<rparr>) (lrrle_pending w)) = Some (ob', op)"
    and coded: "lr_coded w (length ob) (groups_of w ib ?n) ob' op"
    using lrrle_compress_groups [OF assms(1,2) _ room] by blast
  have op: "op + ?t \<le> isize + 16 * lrrle_markers w ib isize"
    using lr_coded_bound [OF coded assms(1)] isize unfolding lrrle_markers_def length_groups_of by linarith
  have len: "length ob' = length ob" using coded by (simp add: lr_coded_def)
  have "lrrle_compress w ib isize ob = Some (store ob' op ?tail, op + ?t)"
    using assms(3,6) op len 1 unfolding lrrle_compress_def Let_def by simp
  moreover have "take (op + ?t) (store ob' op ?tail) = take op ob' @ ?tail"
    using tail op assms(6) len by (simp add: store_def)
  moreover have "length (store ob' op ?tail) = length ob"
    using tail op assms(6) len by (simp add: length_store)
  ultimately show ?thesis
    using op coded unfolding lr_coded_def by (metis (no_types, lifting))
qed

lemma lrrle_decompress_ok:
  assumes "\<forall>i\<in>set items. lr_ok w i" "0 < w" "concat (map lr_groups items) = groups_of w ib (isize div (8 * w))"
    and "take r ib2 = code_of items @ load ib (isize - isize mod (8 * w)) (isize mod (8 * w))"
    and "isize \<le> length ib" "isize \<le> length ob2"
  shows "lrrle_decompress w ib2 ob2 isize =
    Some (take isize ib @ drop isize ob2, lrrle_size w (isize - isize mod (8 * w)) (isize mod (8 * w)))"
proof -
  let ?n = "isize div (8 * w)" and ?t = "isize mod (8 * w)"
  let ?c = "8 * length (concat (map lr_code items))" and ?tail = "load ib (isize - ?t) ?t"
  have isize: "isize - ?t = 8 * w * ?n" "?t \<le> isize" by (simp_all add: minus_mod_eq_mult_div)
  have tail: "length ?tail = ?t" using assms(5) isize(2) by simp
  have len: "?c + ?t \<le> length ib2" "load ib2 0 (?c + ?t) = code_of items @ ?tail"
  proof -
    have "length (take r ib2) = ?c + ?t" unfolding assms(4) using tail by simp
    then have "?c + ?t \<le> length ib2" "take (?c + ?t) ib2 = take r ib2"
      by (cases "r \<le> length ib2"; simp)+
    then show "?c + ?t \<le> length ib2" "load ib2 0 (?c + ?t) = code_of items @ ?tail"
      using assms(4) by (simp_all add: load_def)
  qed
  then have l: "load ib2 0 ?c = code_of items" "load ib2 ?c ?t = ?tail"
    using load_append [OF len(2)] by auto
  have data: "data_of (concat (map lr_groups items)) = take (8 * w * ?n) ib"
    using data_groups_of [of w ?n ib] isize assms(3,5) by simp
  have "lrrle_decompress_loop w ib2 (8 * w * ?n) 0 ob2 0 =
      lrrle_decompress_loop w ib2 (8 * w * ?n) ?c (store ob2 0 (take (8 * w * ?n) ib)) (8 * w * ?n)"
    using lrrle_decompress_items [OF assms(1,2) l(1), of 0 "8 * w * ?n" ob2] isize assms(3,6) data by simp
  also have "\<dots> = Some (store ob2 0 (take (8 * w * ?n) ib), 8 * w * ?n, ?c)"
    by (subst lrrle_decompress_loop.simps) simp
  finally have loop: "lrrle_decompress_loop w ib2 (isize - ?t) 0 ob2 0 =
      Some (store ob2 0 (take (isize - ?t) ib), isize - ?t, ?c)" using isize(1) by simp
  have 2: "length (store ob2 0 (take (isize - ?t) ib)) = length ob2" using assms(5,6) by simp
  have "store (store ob2 0 (take (isize - ?t) ib)) (0 + length (take (isize - ?t) ib)) ?tail =
      store ob2 0 (take (isize - ?t) ib @ ?tail)"
    using assms(5,6) by (intro store_store) simp
  moreover have "take (isize - ?t) ib @ ?tail = take isize ib"
    using isize(2) by (simp add: load_def flip: take_add)
  ultimately have 3: "store (store ob2 0 (take (isize - ?t) ib)) (isize - ?t) ?tail = take isize ib @ drop isize ob2"
    using assms(5) by (simp add: store_def)
  show ?thesis
    unfolding lrrle_decompress_def Let_def loop using 2 3 len(1) l(2) isize(2) assms(6) by simp
qed



definition lrrle_example :: "byte list" where
  "lrrle_example = replicate 32 7 @ word_bytes [LRRLE_RUN_MARKER, 5, 1, 2] @ [1, 2, 3]"


text \<open>A decoder that meets such a group at the end of the code reads behind it.\<close>

lemma lrrle_decompress_overread:
  assumes "0 < w" "op < lim" "hd (read_group w ib ip) = LRRLE_RUN_MARKER" "length ib \<le> ip + 8 * w + t"
    and "lim \<le> op + 8 * w"
  shows "case lrrle_decompress_loop w ib lim ip ob op of
      None \<Rightarrow> True | Some (ob', op', ip') \<Rightarrow> length ib < ip' + t"
proof (cases "length ib < ip + 8 * (w + 2)")
  case True
  then show ?thesis using assms by (subst lrrle_decompress_loop.simps) auto
next
  case False
  let ?k = "Suc (unat (read_group (w + 2) ib ip ! 1))"
  have "8 * w \<le> 8 * w * ?k" by simp
  then have "lim \<le> op + 8 * w * ?k" using assms(5) by linarith
  then have "lrrle_decompress_loop w ib lim (ip + 8 * (w + 2)) ob' (op + 8 * w * ?k) =
      Some (ob', op + 8 * w * ?k, ip + 8 * (w + 2))" for ob'
    by (subst lrrle_decompress_loop.simps) simp
  moreover have "length ib < ip + 8 * (w + 2) + t" using assms(4) by simp
  ultimately show ?thesis
    using assms(1-3) False
    by (subst lrrle_decompress_loop.simps) (simp add: Let_def del: mult_Suc_right split: option.split)
qed

lemma lr_inv_no_reps:
  assumes "lr_inv w N gs e" "length gs = 1 \<or> last gs \<noteq> last (butlast gs)"
  shows "lr_reps e = 0"
proof (rule ccontr)
  assume "lr_reps e \<noteq> 0"
  then obtain n where n: "unat (lr_reps e) = Suc n"
    using unat_eq_0 [of "lr_reps e"] not0_implies_Suc by blast
  obtain before where gs: "gs = before @ replicate (Suc (Suc n)) (lr_prev e)"
    using assms(1) n by (auto simp: lr_inv_def)
  have "replicate (Suc (Suc n)) (lr_prev e) = replicate n (lr_prev e) @ [lr_prev e, lr_prev e]"
    by (simp add: replicate_app_Cons_same)
  then have "last gs = lr_prev e" "last (butlast gs) = lr_prev e" "1 < length gs"
    unfolding gs by (simp_all add: butlast_append)
  then show False using assms(2) by simp
qed

lemma lrrle_compress_marker_last:
  assumes "0 < w" "w \<le> 4" "isize \<le> length ib" "isize < 2 ^ 64" "lrrle_marker_last w ib isize"
    and "isize < 16 * w \<or> (let gs = groups_of w ib (isize div (8 * w)) in last gs \<noteq> last (butlast gs))"
    and "isize + 16 * lrrle_markers w ib isize + 32 \<le> length ob"
  shows "\<exists>ob' items g. lrrle_compress w ib isize ob =
      Some (ob', 8 * length (concat (map lr_code items)) + 8 * w + isize mod (8 * w)) \<and>
    8 * length (concat (map lr_code items)) + 8 * w + isize mod (8 * w) \<le> length ob' \<and>
    (\<forall>i\<in>set items. lr_ok w i) \<and> length (concat (map lr_groups items)) + 1 = isize div (8 * w) \<and>
    length g = w \<and> hd g = LRRLE_RUN_MARKER \<and>
    take (8 * length (concat (map lr_code items)) + 8 * w) ob' = code_of items @ word_bytes g"
proof -
  let ?n = "isize div (8 * w)" and ?t = "isize mod (8 * w)"
  let ?tail = "load ib (isize - ?t) ?t"
  have isize: "isize = 8 * w * ?n + ?t" by simp
  have t: "?t < 8 * w" using assms(1) by simp
  have tail: "length ?tail = ?t" using assms(3) mod_less_eq_dividend [of isize "8 * w"] by simp
  have room: "lr_room w (length ob) (groups_of w ib ?n)"
    using assms(7) isize unfolding lr_room_def lrrle_markers_def length_groups_of by linarith
  have n: "?n < 2 ^ 64" "0 < ?n"
  proof -
    show "?n < 2 ^ 64" using assms(4) div_le_dividend [of isize "8 * w"] by linarith
    show "0 < ?n" using assms(1,5) by (simp add: lrrle_marker_last_def div_greater_zero_iff)
  qed
  obtain e where e: "lrrle_compress_loop w ib (?n - 1) (8 * w)
      \<lparr>lr_prev = read_group w ib 0, lr_reps = 0, lr_ob = ob, lr_op = 0\<rparr> = Some e"
    "lr_inv w (length ob) (groups_of w ib ?n) e"
    using lrrle_compress_state [OF assms(1,2) n(2,1) room] by blast
  have "?n = 1" if "isize < 16 * w"
  proof -
    have "?n < 2" using that assms(1) by (simp add: div_less_iff_less_mult)
    then show ?thesis using n(2) by linarith
  qed
  then have reps: "lr_reps e = 0"
    using lr_inv_no_reps [OF e(2)] assms(6) by (auto simp: Let_def)
  obtain before where p: "length (lr_prev e) = w" and b: "lr_coded w (length ob) before (lr_ob e) (lr_op e)"
    and gs: "groups_of w ib ?n = before @ [lr_prev e]"
    using e(2) reps by (auto simp: lr_inv_def)
  obtain items where items: "\<forall>i\<in>set items. lr_ok w i" "concat (map lr_groups items) = before"
    "take (lr_op e) (lr_ob e) = code_of items" "lr_op e = 8 * length (concat (map lr_code items))"
    using b unfolding lr_coded_def by blast
  have copies: "lr_op e + 8 * w * lrrle_copies w \<le> length ob"
    using lr_room_copies [OF b _ assms(1,2), of 0 "lr_prev e"] room gs by simp
  obtain ob' where ob': "lrrle_pending w e = Some (ob', lr_op e + 8 * w)" "length ob' = length ob"
    "take (lr_op e + 8 * w) ob' = take (lr_op e) (lr_ob e) @ word_bytes (lr_prev e)"
    using lrrle_pending_raw [OF b reps p assms(1) copies] by blast
  have "8 * w + 8 * w \<le> 8 * w * lrrle_copies w" by (simp add: lrrle_copies_def)
  then have fits: "lr_op e + 8 * w + ?t \<le> length ob" using copies t by linarith
  let ?ob = "store ob' (lr_op e + 8 * w) ?tail"
  have "lrrle_compress w ib isize ob = Some (?ob, lr_op e + 8 * w + ?t)"
    using assms(3) n(2) e(1) ob'(1,2) fits unfolding lrrle_compress_def Let_def by simp
  moreover have "take (lr_op e + 8 * w) ?ob = code_of items @ word_bytes (lr_prev e)"
    using take_store [of "lr_op e + 8 * w" ob'] ob'(2,3) fits items(3) by simp
  moreover have "length ?ob = length ob" using tail fits ob'(2) by (simp add: length_store)
  moreover have "hd (lr_prev e) = LRRLE_RUN_MARKER"
    using assms(5) gs by (simp add: lrrle_marker_last_def)
  moreover have "length before + 1 = ?n" using gs by (metis length_append_singleton length_groups_of Suc_eq_plus1)
  ultimately show ?thesis using items p fits by metis
qed

text \<open>
  C38: when the last group begins with the marker and is not equal to the group in front, the encoder
  writes it without a run: the decoder takes it for the beginning of a run and reads behind the code.
\<close>

theorem lrrle_marker_lost:
  assumes "0 < w" "w \<le> 4" "isize \<le> length ib" "isize < 2 ^ 64" "lrrle_marker_last w ib isize"
    and "isize < 16 * w \<or> (let gs = groups_of w ib (isize div (8 * w)) in last gs \<noteq> last (butlast gs))"
    and "isize + 16 * lrrle_markers w ib isize + 32 \<le> length ob" "isize \<le> length ob2"
  shows "\<exists>ob' r. lrrle_compress w ib isize ob = Some (ob', r) \<and> r \<le> length ob' \<and>
    lrrle_decompress w (take r ob') ob2 isize = None"
proof -
  let ?n = "isize div (8 * w)" and ?t = "isize mod (8 * w)"
  obtain ob' items g where 1: "lrrle_compress w ib isize ob =
      Some (ob', 8 * length (concat (map lr_code items)) + 8 * w + ?t)"
    "8 * length (concat (map lr_code items)) + 8 * w + ?t \<le> length ob'" "\<forall>i\<in>set items. lr_ok w i"
    and n: "length (concat (map lr_groups items)) + 1 = ?n"
    and g: "length g = w" "hd g = LRRLE_RUN_MARKER"
      "take (8 * length (concat (map lr_code items)) + 8 * w) ob' = code_of items @ word_bytes g"
    using lrrle_compress_marker_last [OF assms(1-7)] by blast
  let ?c = "8 * length (concat (map lr_code items))" and ?d = "8 * w * length (concat (map lr_groups items))"
  let ?ib = "take (?c + 8 * w + ?t) ob'"
  have lim: "isize - ?t = ?d + 8 * w" "isize - ?t \<le> length ob2"
  proof -
    show "isize - ?t = ?d + 8 * w" using n [symmetric] by (simp add: minus_mod_eq_mult_div)
    show "isize - ?t \<le> length ob2" using assms(8) by linarith
  qed
  have "load ?ib 0 (?c + 8 * w) = take (?c + 8 * w) ob'" by (simp add: load_def)
  then have "load ?ib 0 (?c + 8 * w) = code_of items @ word_bytes g" using g(3) by simp
  from load_append [OF this] have l: "load ?ib 0 ?c = code_of items" "load ?ib ?c (8 * w) = word_bytes g" by auto
  have "hd (read_group w ?ib ?c) = LRRLE_RUN_MARKER"
    using read_group_bytes [of ?ib ?c g] l(2) g by simp
  then have "case lrrle_decompress_loop w ?ib (isize - ?t) ?c (store ob2 0 (data_of (concat (map lr_groups items)))) ?d of
      None \<Rightarrow> True | Some (ob', op', ip') \<Rightarrow> length ?ib < ip' + ?t"
    using lim(1) assms(1) by (intro lrrle_decompress_overread) simp_all
  moreover have "lrrle_decompress_loop w ?ib (isize - ?t) 0 ob2 0 =
      lrrle_decompress_loop w ?ib (isize - ?t) ?c (store ob2 0 (data_of (concat (map lr_groups items)))) ?d"
    using lrrle_decompress_items [OF 1(3) assms(1) l(1), of 0 "isize - ?t" ob2] lim by simp
  ultimately have "lrrle_decompress w ?ib ob2 isize = None"
    unfolding lrrle_decompress_def Let_def by (auto split: option.splits)
  then show ?thesis using 1(1,2) by blast
qed

definition lrrle_bad_example :: "byte list" where
  "lrrle_bad_example = word_bytes [1, 1, 1, 1, 1, 7, LRRLE_RUN_MARKER] @ [9]"

theorem lrrle_marker_lost_witness:
  "\<exists>ob' r. lrrle_compress 1 lrrle_bad_example 57 (replicate 128 0) = Some (ob', r) \<and>
    lrrle_decompress 1 (take r ob') (replicate 57 0) 57 = None"
proof -
  have "length lrrle_bad_example = 57" by (simp add: lrrle_bad_example_def)
  moreover have "lrrle_marker_last 1 lrrle_bad_example 57 \<and> lrrle_markers 1 lrrle_bad_example 57 = 1 \<and>
      (let gs = groups_of 1 lrrle_bad_example 7 in last gs \<noteq> last (butlast gs))"
    by code_simp
  ultimately show ?thesis
    using lrrle_marker_lost [of 1 57 lrrle_bad_example "replicate 128 0" "replicate 57 0"] by auto
qed

subsection \<open>The functions of the file and their adapters\<close>

definition lrrle256_compress :: "byte list \<Rightarrow> nat \<Rightarrow> byte list \<Rightarrow> (byte list \<times> nat) option" where
  "lrrle256_compress ib isize ob = lrrle_compress 4 ib isize ob"

definition lrrle192_compress :: "byte list \<Rightarrow> nat \<Rightarrow> byte list \<Rightarrow> (byte list \<times> nat) option" where
  "lrrle192_compress ib isize ob = lrrle_compress 3 ib isize ob"

definition lrrle128_compress :: "byte list \<Rightarrow> nat \<Rightarrow> byte list \<Rightarrow> (byte list \<times> nat) option" where
  "lrrle128_compress ib isize ob = lrrle_compress 2 ib isize ob"

definition lrrle64_compress :: "byte list \<Rightarrow> nat \<Rightarrow> byte list \<Rightarrow> (byte list \<times> nat) option" where
  "lrrle64_compress ib isize ob = lrrle_compress 1 ib isize ob"

definition lrrle256_decompress :: "byte list \<Rightarrow> byte list \<Rightarrow> nat \<Rightarrow> (byte list \<times> nat) option" where
  "lrrle256_decompress ib ob out_size = lrrle_decompress 4 ib ob out_size"

definition lrrle192_decompress :: "byte list \<Rightarrow> byte list \<Rightarrow> nat \<Rightarrow> (byte list \<times> nat) option" where
  "lrrle192_decompress ib ob out_size = lrrle_decompress 3 ib ob out_size"

definition lrrle128_decompress :: "byte list \<Rightarrow> byte list \<Rightarrow> nat \<Rightarrow> (byte list \<times> nat) option" where
  "lrrle128_decompress ib ob out_size = lrrle_decompress 2 ib ob out_size"

definition lrrle64_decompress :: "byte list \<Rightarrow> byte list \<Rightarrow> nat \<Rightarrow> (byte list \<times> nat) option" where
  "lrrle64_decompress ib ob out_size = lrrle_decompress 1 ib ob out_size"

text \<open>The macro \<open>LRRLE\<close> of \<open>simple_codecs.cpp\<close>.\<close>

definition lrrle_c :: "(byte list \<Rightarrow> nat \<Rightarrow> byte list \<Rightarrow> (byte list \<times> nat) option) \<Rightarrow> coder" where
  "lrrle_c f ib isize ob osize = map_option (\<lambda>(ob', r). (ib, ob', r)) (f ib isize ob)"

definition lrrle_d :: "(byte list \<Rightarrow> byte list \<Rightarrow> nat \<Rightarrow> (byte list \<times> nat) option) \<Rightarrow> coder" where
  "lrrle_d f ib isize ob osize = map_option (\<lambda>(ob', r). (ib, ob', r)) (f ib ob osize)"

end
