(* ===== verification/Scheduler.thy ===== *)
theory Scheduler
  imports Tools
begin

text \<open>
  The work scheduler (\<open>scheduler.cpp\<close>, \<open>scheduler.hpp\<close>). It hands out stretches of an array of
  blocks to the coding threads, pass after pass, until the time of the iteration is over. Every
  call holds the mutex from its first statement to its return, so the calls of all threads form
  one sequence and the model is a state and a function on it. Pointers are addresses; those into
  the metadata count \<open>BlockInfo\<close> entries. The refinement relates the scheduler to a counter that
  goes round the chunks of the array.
\<close>

subsection \<open>State and operations\<close>

record work_item =
  wi_in :: nat
  wi_out :: nat
  wi_isize :: nat
  wi_metadata :: nat

record scheduler =
  s_in :: nat
  current_in :: nat
  s_out :: nat
  current_out :: nat
  s_metadata :: nat
  current_metadata :: nat
  s_size :: nat
  size_left :: nat
  block_size :: nat
  work_size :: nat
  start_time :: timespec
  iter_time :: nat
  last_iter :: bool

text \<open>
  The constructor. \<open>None\<close> is the trap of the division by a block size of zero. \<open>start_time\<close> is a
  reference in the source, to a variable the caller sets just before the threads start: the model
  takes the value it has then.
\<close>

definition sched_work_size :: "nat \<Rightarrow> nat \<Rightarrow> nat" where
  "sched_work_size min_work_size bs =
    (let w = min_work_size div bs * bs
     in if w < min_work_size then (w + bs) mod 2 ^ 64 else w)"

definition new_scheduler ::
  "nat \<Rightarrow> nat \<Rightarrow> nat \<Rightarrow> nat \<Rightarrow> nat \<Rightarrow> nat \<Rightarrow> timespec \<Rightarrow> nat \<Rightarrow> scheduler option" where
  "new_scheduler inp outp meta isize bs min_work_size start iter =
    (if bs = 0 then None
     else Some
      \<lparr>s_in = inp, current_in = inp, s_out = outp, current_out = outp,
       s_metadata = meta, current_metadata = meta, s_size = isize, size_left = isize,
       block_size = bs, work_size = sched_work_size min_work_size bs,
       start_time = start, iter_time = iter, last_iter = False\<rparr>)"

text \<open>\<open>unsigned no_of_blocks\<close> has 32 bits; its product with \<open>block_size\<close> has 64.\<close>

definition sched_no_of_blocks :: "nat \<Rightarrow> nat \<Rightarrow> nat" where
  "sched_no_of_blocks in_chunk_size bs =
    (let n = in_chunk_size div bs mod 2 ^ 32
     in if n * bs mod 2 ^ 64 < in_chunk_size then (n + 1) mod 2 ^ 32 else n)"

definition sched_take :: "scheduler \<Rightarrow> work_item \<times> scheduler" where
  "sched_take s =
    (let in_chunk_size = min (work_size s) (size_left s);
         no_of_blocks = sched_no_of_blocks in_chunk_size (block_size s)
     in (\<lparr>wi_in = current_in s, wi_out = current_out s, wi_isize = in_chunk_size,
          wi_metadata = current_metadata s\<rparr>,
         s\<lparr>current_in := current_in s + in_chunk_size,
           current_out := current_out s + no_of_blocks * block_size s mod 2 ^ 64,
           current_metadata := current_metadata s + no_of_blocks,
           size_left := size_left s - in_chunk_size\<rparr>))"

definition sched_rewind :: "scheduler \<Rightarrow> scheduler" where
  "sched_rewind s =
    s\<lparr>current_in := s_in s, current_out := s_out s, current_metadata := s_metadata s,
      size_left := s_size s\<rparr>"

text \<open>\<open>getChunk\<close> at the time \<open>now\<close>; the result \<open>None\<close> is the return value -1.\<close>

definition getChunk :: "timespec \<Rightarrow> scheduler \<Rightarrow> work_item option \<times> scheduler" where
  "getChunk now s =
    (if size_left s = 0 then
       if \<not> last_iter s then
         if ticks_to_msec (start_time s) now \<ge> iter_time s then (None, s)
         else (let (wi, s') = sched_take (sched_rewind s) in (Some wi, s'))
       else (None, s)
     else (let (wi, s') = sched_take s in (Some wi, s')))"

text \<open>A sequence of calls, from all threads, in the order in which they get the mutex.\<close>

fun getChunks :: "timespec list \<Rightarrow> scheduler \<Rightarrow> work_item option list \<times> scheduler" where
  "getChunks [] s = ([], s)"
| "getChunks (now # nows) s =
    (let (r, s') = getChunk now s; (rs, s'') = getChunks nows s' in (r # rs, s''))"

subsection \<open>The size of a chunk\<close>

lemma sched_work_size_bounds:
  assumes "0 < bs" "m + bs < 2 ^ 64"
  shows "bs dvd sched_work_size m bs" "m \<le> sched_work_size m bs" "sched_work_size m bs < m + bs"
proof -
  have *: "m + bs \<le> SIZE_MAX" using assms(2) by (simp add: SIZE_MAX_def)
  obtain r where r: "round_up m bs = Some r" "bs dvd r" "m \<le> r" "r < m + bs"
    by (rule round_up_least [OF assms(1) *])
  moreover have "m div bs * bs + bs < 2 ^ 64"
    using div_times_less_eq_dividend [of m bs] assms(2) by linarith
  then have "r = sched_work_size m bs"
    using r(1) by (auto simp: round_up_def sched_work_size_def Let_def split: if_splits)
  ultimately show "bs dvd sched_work_size m bs" "m \<le> sched_work_size m bs"
    "sched_work_size m bs < m + bs" by simp_all
qed

text \<open>Whole blocks are counted as such; 32 bits are enough for fewer than \<open>2 ^ 32\<close> blocks.\<close>

lemma sched_no_of_blocks_eq:
  assumes "0 < bs" "n * bs < 2 ^ 64" "n < 2 ^ 32"
  shows "sched_no_of_blocks (n * bs) bs = n"
  using assms by (simp add: sched_no_of_blocks_def)

subsection \<open>Well-formed schedulers\<close>

text \<open>
  What the constructor establishes for an array of fewer than \<open>2 ^ 32\<close> blocks and a positive size
  of the work, and no call changes.
\<close>

definition sched_wf :: "scheduler \<Rightarrow> bool" where
  "sched_wf s \<longleftrightarrow>
    0 < block_size s \<and> block_size s dvd work_size s \<and> 0 < work_size s \<and> work_size s < 2 ^ 64 \<and>
    0 < s_size s \<and> s_size s < 2 ^ 64 \<and> s_size s < 2 ^ 32 * block_size s \<and> \<not> last_iter s"

definition same_config :: "scheduler \<Rightarrow> scheduler \<Rightarrow> bool" where
  "same_config s s' \<longleftrightarrow>
    s_in s' = s_in s \<and> s_out s' = s_out s \<and> s_metadata s' = s_metadata s \<and>
    s_size s' = s_size s \<and> block_size s' = block_size s \<and> work_size s' = work_size s \<and>
    start_time s' = start_time s \<and> iter_time s' = iter_time s \<and> last_iter s' = last_iter s"

lemma same_config_refl [simp]: "same_config s s"
  by (simp add: same_config_def)

lemma same_config_wf: "same_config s s' \<Longrightarrow> sched_wf s' = sched_wf s"
  by (simp add: same_config_def sched_wf_def)

text \<open>The chunks of the array: their number, and the work item of chunk \<open>k\<close>.\<close>

definition chunks_no :: "scheduler \<Rightarrow> nat" where
  "chunks_no s = (s_size s + work_size s - 1) div work_size s"

definition chunk :: "scheduler \<Rightarrow> nat \<Rightarrow> work_item" where
  "chunk s k =
    \<lparr>wi_in = s_in s + k * work_size s, wi_out = s_out s + k * work_size s,
     wi_isize = min (work_size s) (s_size s - k * work_size s),
     wi_metadata = s_metadata s + k * (work_size s div block_size s)\<rparr>"

lemma chunk_same_config: "same_config s s' \<Longrightarrow> chunk s' = chunk s"
  and chunks_no_same_config: "same_config s s' \<Longrightarrow> chunks_no s' = chunks_no s"
  by (simp_all add: fun_eq_iff chunk_def chunks_no_def same_config_def)

lemma less_chunks_no:
  assumes "sched_wf s"
  shows "k < chunks_no s \<longleftrightarrow> k * work_size s < s_size s"
proof -
  have "k < chunks_no s \<longleftrightarrow> Suc k * work_size s \<le> s_size s + work_size s - 1"
    using assms less_eq_div_iff_mult_less_eq [of "work_size s" "Suc k"]
    by (simp add: chunks_no_def sched_wf_def Suc_le_eq)
  also have "\<dots> \<longleftrightarrow> k * work_size s < s_size s"
    using assms by (auto simp: sched_wf_def)
  finally show ?thesis .
qed

lemma chunks_no_pos: "sched_wf s \<Longrightarrow> 0 < chunks_no s"
  by (simp add: less_chunks_no) (simp add: sched_wf_def)

lemma new_scheduler_wf:
  assumes "new_scheduler inp outp meta isize bs m start iter = Some s"
    and "0 < isize" "isize < 2 ^ 64" "isize < 2 ^ 32 * bs" "0 < m" "m + bs < 2 ^ 64"
  shows "sched_wf s"
  using assms sched_work_size_bounds [of bs m]
  by (auto simp: new_scheduler_def sched_wf_def split: if_splits)

subsection \<open>Refinement of a cyclic counter\<close>

text \<open>
  The specification: a counter \<open>k\<close> of the chunks handed out in the current pass over \<open>n\<close> chunks.
  At the end of a pass it stops for good, or starts the next pass.
\<close>

fun cycle :: "nat \<Rightarrow> bool \<Rightarrow> nat \<Rightarrow> nat option \<times> nat" where
  "cycle n expired k =
    (if k < n then (Some k, Suc k) else if expired then (None, k) else (Some 0, 1))"

definition expired :: "scheduler \<Rightarrow> timespec \<Rightarrow> bool" where
  "expired s now \<longleftrightarrow> iter_time s \<le> ticks_to_msec (start_time s) now"

text \<open>The states of the scheduler that stand for the counter \<open>k\<close>.\<close>

definition sched_at :: "scheduler \<Rightarrow> nat \<Rightarrow> bool" where
  "sched_at s k \<longleftrightarrow>
    k \<le> chunks_no s \<and> size_left s = s_size s - k * work_size s \<and>
    (k < chunks_no s \<longrightarrow>
      current_in s = s_in s + k * work_size s \<and> current_out s = s_out s + k * work_size s \<and>
      current_metadata s = s_metadata s + k * (work_size s div block_size s))"

lemma sched_at_size_left: "sched_wf s \<Longrightarrow> sched_at s k \<Longrightarrow> size_left s = 0 \<longleftrightarrow> k = chunks_no s"
  using less_chunks_no [of s k] by (auto simp: sched_at_def)

lemma sched_at_rewind: "same_config s (sched_rewind s)" "sched_at (sched_rewind s) 0"
  by (simp_all add: sched_rewind_def same_config_def sched_at_def)

lemma sched_take_refines:
  assumes wf: "sched_wf s" and at: "sched_at s k" and k: "k < chunks_no s"
  obtains s' where "sched_take s = (chunk s k, s')" "same_config s s'" "sched_at s' (Suc k)"
proof -
  let ?ws = "work_size s" and ?bs = "block_size s" and ?n = "work_size s div block_size s"
  let ?x = "min ?ws (s_size s - k * ?ws)"
  define s' where "s' = snd (sched_take s)"
  have take: "sched_take s = (chunk s k, s')"
    using at k by (simp add: s'_def sched_take_def sched_at_def chunk_def Let_def)
  have s': "same_config s s'" "size_left s' = s_size s - k * ?ws - ?x"
      "current_in s' = s_in s + k * ?ws + ?x"
      "current_out s' = s_out s + k * ?ws + sched_no_of_blocks ?x ?bs * ?bs mod 2 ^ 64"
      "current_metadata s' = s_metadata s + k * ?n + sched_no_of_blocks ?x ?bs"
    using at k by (simp_all add: s'_def sched_take_def sched_at_def same_config_def Let_def)
  have "sched_at s' (Suc k)"
    unfolding sched_at_def chunks_no_same_config [OF s'(1)]
  proof (intro conjI impI)
    show "Suc k \<le> chunks_no s" using k by simp
    show "size_left s' = s_size s' - Suc k * work_size s'"
      using s'(1,2) by (simp add: same_config_def min_def add.commute)
    assume "Suc k < chunks_no s"
    then have more: "Suc k * ?ws < s_size s" using less_chunks_no [OF wf] by simp
    then have x: "?x = ?n * ?bs" using wf by (simp add: sched_wf_def)
    have "?n * ?bs < 2 ^ 32 * ?bs" using more wf by (simp add: sched_wf_def)
    then have "?n < 2 ^ 32" by (simp only: mult_less_cancel2)
    then have no: "sched_no_of_blocks ?x ?bs = ?n"
      unfolding x using wf by (intro sched_no_of_blocks_eq) (simp_all add: sched_wf_def)
    show "current_in s' = s_in s' + Suc k * work_size s'"
      "current_out s' = s_out s' + Suc k * work_size s'"
      "current_metadata s' = s_metadata s' + Suc k * (work_size s' div block_size s')"
      using s' x wf unfolding no by (simp_all add: same_config_def sched_wf_def)
  qed
  with take s'(1) show ?thesis by (rule that)
qed

subsection \<open>Sequences of calls\<close>

fun cycles :: "nat \<Rightarrow> bool list \<Rightarrow> nat \<Rightarrow> nat option list \<times> nat" where
  "cycles n [] k = ([], k)"
| "cycles n (e # es) k =
    (let (a, k') = cycle n e k; (as, k'') = cycles n es k' in (a # as, k''))"

declare cycle.simps [simp del]

lemma getChunk_step:
  assumes "sched_wf s" "sched_at s k"
  obtains s' where
    "getChunk now s = (map_option (chunk s) (fst (cycle (chunks_no s) (expired s now) k)), s')"
    "same_config s s'" "sched_at s' (snd (cycle (chunks_no s) (expired s now) k))"
proof -
  obtain a k' where c: "cycle (chunks_no s) (expired s now) k = (a, k')" by fastforce
  show ?thesis
  proof (cases "k < chunks_no s")
    case True
    obtain s' where "sched_take s = (chunk s k, s')" "same_config s s'" "sched_at s' (Suc k)"
      by (rule sched_take_refines [OF assms True])
    then show ?thesis
      using True sched_at_size_left [OF assms]
      by (intro that) (auto simp: getChunk_def cycle.simps)
  next
    case False
    then have end_of_pass: "size_left s = 0" "k = chunks_no s"
      using sched_at_size_left [OF assms] assms(2) by (auto simp: sched_at_def)
    have not_last: "\<not> last_iter s" using assms(1) by (simp add: sched_wf_def)
    note re = sched_at_rewind [of s]
    obtain s' where "sched_take (sched_rewind s) = (chunk s 0, s')"
      "same_config (sched_rewind s) s'" "sched_at s' 1"
      using sched_take_refines [of "sched_rewind s" 0] re assms(1) chunks_no_pos [OF assms(1)]
      by (auto simp: same_config_wf [OF re(1)] chunks_no_same_config [OF re(1)]
          chunk_same_config [OF re(1)])
    then show ?thesis
      using False assms end_of_pass not_last re(1)
      by (cases "expired s now")
         (auto simp: getChunk_def expired_def cycle.simps same_config_def intro!: that)
  qed
qed

text \<open>
  C7: \<open>getChunk\<close> implements the cyclic counter: it returns the chunk of the counter, or -1
  exactly when a pass has ended after the time of the iteration.
\<close>

theorem getChunk_refines:
  assumes "sched_wf s" "sched_at s k"
  shows "\<exists>s'. getChunk now s =
      (map_option (chunk s) (fst (cycle (chunks_no s) (expired s now) k)), s') \<and>
    same_config s s' \<and> sched_at s' (snd (cycle (chunks_no s) (expired s now) k))"
  using getChunk_step [OF assms] by metis

definition example_scheduler :: scheduler where
  "example_scheduler = the (new_scheduler 1000 2000 0 70 10 15 \<lparr>tv_sec = 0, tv_nsec = 0\<rparr> 500)"

lemma example_scheduler_wf: "sched_wf example_scheduler" "sched_at example_scheduler 0"
  by (simp_all add: example_scheduler_def new_scheduler_def sched_work_size_def sched_wf_def
      sched_at_def)

theorem getChunk_refines_witness:
  "\<exists>s'. getChunk \<lparr>tv_sec = 0, tv_nsec = 0\<rparr> example_scheduler =
    (Some (chunk example_scheduler 0), s') \<and> sched_at s' 1"
  using getChunk_refines [OF example_scheduler_wf] chunks_no_pos [OF example_scheduler_wf(1)]
  by (auto simp: cycle.simps)

lemma new_scheduler_at:
  "new_scheduler inp outp meta isize bs m start iter = Some s \<Longrightarrow> sched_at s 0"
  by (auto simp: new_scheduler_def sched_at_def split: if_splits)

lemma getChunks_cycles:
  assumes "sched_wf s" "sched_at s k"
  obtains s' where
    "getChunks nows s = (map (map_option (chunk s)) (fst (cycles (chunks_no s) (map (expired s) nows) k)), s')"
    "same_config s s'" "sched_at s' (snd (cycles (chunks_no s) (map (expired s) nows) k))"
  using assms
proof (induction nows arbitrary: s k thesis)
  case Nil
  then show ?case by simp
next
  case (Cons now nows)
  obtain s1 where s1: "getChunk now s =
      (map_option (chunk s) (fst (cycle (chunks_no s) (expired s now) k)), s1)"
    "same_config s s1" "sched_at s1 (snd (cycle (chunks_no s) (expired s now) k))"
    by (rule getChunk_step [OF Cons.prems(2,3)])
  have same: "chunk s1 = chunk s" "chunks_no s1 = chunks_no s" "expired s1 = expired s"
    by (rule chunk_same_config [OF s1(2)], rule chunks_no_same_config [OF s1(2)],
        use s1(2) in \<open>simp add: expired_def same_config_def fun_eq_iff\<close>)
  obtain s2 where s2: "getChunks nows s1 = (map (map_option (chunk s1))
        (fst (cycles (chunks_no s1) (map (expired s1) nows)
          (snd (cycle (chunks_no s) (expired s now) k)))), s2)"
    "same_config s1 s2"
    "sched_at s2 (snd (cycles (chunks_no s1) (map (expired s1) nows)
          (snd (cycle (chunks_no s) (expired s now) k))))"
    using Cons.IH [of s1 "snd (cycle (chunks_no s) (expired s now) k)"] s1 Cons.prems(2)
    by (auto simp: same_config_wf)
  show ?case
  proof (rule Cons.prems(1))
    show "same_config s s2" using s1(2) s2(2) by (simp add: same_config_def)
  qed (use s1 s2 same in \<open>simp_all add: case_prod_beta\<close>)
qed

lemma cycles_pass:
  "k + length es \<le> n \<Longrightarrow> cycles n es k = (map Some [k..<k + length es], k + length es)"
proof (induction es arbitrary: k)
  case (Cons e es)
  then have "[k..<k + length (e # es)] = k # [Suc k..<Suc k + length es]"
    by (subst upt_conv_Cons) simp_all
  with Cons show ?case by (simp add: cycle.simps del: upt_Suc)
qed simp

lemma cycles_append:
  "cycles n (es @ fs) k =
    (let (as, k') = cycles n es k; (bs, k'') = cycles n fs k' in (as @ bs, k''))"
  by (induction es arbitrary: k) (auto simp: Let_def case_prod_beta)

lemma cycles_stopped: "(\<forall>e\<in>set es. e) \<Longrightarrow> cycles n es n = (replicate (length es) None, n)"
  by (induction es) (auto simp: cycle.simps)

text \<open>
  C10: whatever the clock says, the first calls hand out each chunk of the array once, in order:
  no thread gets -1 before every block has been given to some thread.
\<close>

theorem scheduler_first_pass:
  assumes "new_scheduler inp outp meta isize bs m start iter = Some s"
    and "0 < isize" "isize < 2 ^ 64" "isize < 2 ^ 32 * bs" "0 < m" "m + bs < 2 ^ 64"
    and "length nows = chunks_no s"
  shows "fst (getChunks nows s) = map (\<lambda>k. Some (chunk s k)) [0..<chunks_no s]"
proof -
  note wf = new_scheduler_wf [OF assms(1-6)]
  obtain s' where "getChunks nows s =
      (map (map_option (chunk s)) (fst (cycles (chunks_no s) (map (expired s) nows) 0)), s')"
    by (rule getChunks_cycles [OF wf new_scheduler_at [OF assms(1)]])
  then show ?thesis
    using assms(7) cycles_pass [of 0 "map (expired s) nows" "chunks_no s"] by (simp add: comp_def)
qed

theorem scheduler_first_pass_witness:
  "fst (getChunks (replicate 4 \<lparr>tv_sec = 9, tv_nsec = 0\<rparr>) example_scheduler) =
    map (\<lambda>k. Some (chunk example_scheduler k)) [0..<4]"
proof -
  have n: "chunks_no example_scheduler = 4"
    by (simp add: chunks_no_def example_scheduler_def new_scheduler_def sched_work_size_def)
  have "new_scheduler 1000 2000 0 70 10 15 \<lparr>tv_sec = 0, tv_nsec = 0\<rparr> 500 = Some example_scheduler"
    by (simp add: example_scheduler_def new_scheduler_def)
  then show ?thesis
    using scheduler_first_pass [where nows = "replicate 4 \<lparr>tv_sec = 9, tv_nsec = 0\<rparr>"] n by simp
qed



lemma getChunks_stops:
  assumes "sched_wf s" "sched_at s k" "\<forall>now\<in>set nows. expired s now"
    and "chunks_no s - k \<le> length nows"
  shows "fst (getChunks nows s) =
    map (\<lambda>k. Some (chunk s k)) [k..<chunks_no s] @ replicate (length nows - (chunks_no s - k)) None"
proof -
  let ?n = "chunks_no s"
  let ?es = "map (expired s) nows"
  obtain s' where run: "getChunks nows s = (map (map_option (chunk s)) (fst (cycles ?n ?es k)), s')"
    by (rule getChunks_cycles [OF assms(1,2)])
  have "k \<le> ?n" using assms(2) by (simp add: sched_at_def)
  then have first: "cycles ?n (take (?n - k) ?es) k = (map Some [k..<?n], ?n)"
    using assms(4) cycles_pass [of k "take (?n - k) ?es" ?n] by simp
  have "\<forall>e\<in>set (drop (?n - k) ?es). e"
    using assms(3) by (auto simp: drop_map dest: in_set_dropD)
  from cycles_stopped [OF this]
  have rest: "cycles ?n (drop (?n - k) ?es) ?n = (replicate (length nows - (?n - k)) None, ?n)"
    by simp
  have "cycles ?n ?es k = (map Some [k..<?n] @ replicate (length nows - (?n - k)) None, ?n)"
    using cycles_append [of ?n "take (?n - k) ?es" "drop (?n - k) ?es" k] first rest
    by (simp del: take_map drop_map)
  then show ?thesis using run by (simp add: comp_def)
qed

text \<open>
  C23: once the time of the iteration is over, the pass that has begun is finished, and every call
  after that returns -1: the threads stop after at most one more pass.
\<close>

theorem scheduler_stops:
  assumes "sched_wf s" "sched_at s k" "\<forall>now\<in>set nows. expired s now"
    and "chunks_no s - k \<le> length nows"
  shows "fst (getChunks nows s) =
    map (\<lambda>k. Some (chunk s k)) [k..<chunks_no s] @ replicate (length nows - (chunks_no s - k)) None"
  by (rule getChunks_stops [OF assms])

theorem scheduler_stops_witness:
  "fst (getChunks (replicate 6 \<lparr>tv_sec = 9, tv_nsec = 0\<rparr>) example_scheduler) =
    map (\<lambda>k. Some (chunk example_scheduler k)) [0..<4] @ [None, None]"
proof -
  have n: "chunks_no example_scheduler = 4"
    by (simp add: chunks_no_def example_scheduler_def new_scheduler_def sched_work_size_def)
  have e: "expired example_scheduler \<lparr>tv_sec = 9, tv_nsec = 0\<rparr>"
    by (simp add: expired_def example_scheduler_def new_scheduler_def ticks_to_msec_def c_div_def)
  show ?thesis
    using scheduler_stops [OF example_scheduler_wf, of "replicate 6 \<lparr>tv_sec = 9, tv_nsec = 0\<rparr>"] n e
    by (simp add: numeral_eq_Suc)
qed

text \<open>
  C24: the scheduler starts the next pass as soon as the last chunk has been taken, without waiting
  for the threads that still work. When one chunk covers the array (the job size is at least its
  size), all calls before the end of the iteration return the same work item, and the threads that
  get it work on the same buffers at once.
\<close>

theorem scheduler_shares_chunk:
  assumes "sched_wf s" "sched_at s 0" "s_size s \<le> work_size s" "\<forall>now\<in>set nows. \<not> expired s now"
  shows "fst (getChunks nows s) = replicate (length nows) (Some (chunk s 0))"
proof -
  have n: "chunks_no s = 1"
    using less_chunks_no [OF assms(1), of 1] chunks_no_pos [OF assms(1)] assms(3) by simp
  have "k \<le> 1 \<Longrightarrow> \<forall>e\<in>set es. \<not> e \<Longrightarrow> fst (cycles 1 es k) = replicate (length es) (Some 0)" for k es
    by (induction es arbitrary: k) (auto simp: cycle.simps case_prod_beta)
  then have "fst (cycles 1 (map (expired s) nows) 0) = replicate (length nows) (Some 0)"
    using assms(4) by simp
  then show ?thesis
    using getChunks_cycles [OF assms(1,2), of nows] n by (metis fst_conv map_replicate option.map(2))
qed

theorem scheduler_shares_chunk_witness:
  "fst (getChunks [\<lparr>tv_sec = 0, tv_nsec = 0\<rparr>, \<lparr>tv_sec = 0, tv_nsec = 1000000\<rparr>]
      (the (new_scheduler 0 4096 0 2048 1024 262144 \<lparr>tv_sec = 0, tv_nsec = 0\<rparr> 500))) =
    [Some \<lparr>wi_in = 0, wi_out = 4096, wi_isize = 2048, wi_metadata = 0\<rparr>,
     Some \<lparr>wi_in = 0, wi_out = 4096, wi_isize = 2048, wi_metadata = 0\<rparr>]"
proof -
  let ?s = "the (new_scheduler 0 4096 0 2048 1024 262144 \<lparr>tv_sec = 0, tv_nsec = 0\<rparr> 500)"
  let ?nows = "[\<lparr>tv_sec = 0, tv_nsec = 0\<rparr>, \<lparr>tv_sec = 0, tv_nsec = 1000000\<rparr>]"
  have "fst (getChunks ?nows ?s) = replicate (length ?nows) (Some (chunk ?s 0))"
    by (rule scheduler_shares_chunk)
       (simp_all add: new_scheduler_def sched_wf_def sched_at_def sched_work_size_def expired_def
         ticks_to_msec_def c_div_def)
  then show ?thesis
    by (simp add: chunk_def new_scheduler_def sched_work_size_def)
qed

end
