(* ===== verification/Benchmark.thy ===== *)
theory Benchmark
  imports Codec Scheduler
begin

text \<open>
  The benchmark proper (\<open>benchmark.cpp\<close>): the layout of the input in blocks, the coding loops of the
  worker threads, and the check of the decoded data. Work items of one pass touch disjoint blocks,
  so the model processes each item as a whole, in the order in which the items were taken from the
  scheduler. The main result says that the verification accepts every lossless codec.
\<close>

subsection \<open>Layout\<close>

datatype bench_error = Empty_file | Division_by_zero | Broken_encoder | Decoding_failed | Coder_fault | Buffer_overrun

definition ALIGNMENT :: nat where
  "ALIGNMENT = 16"

record tester =
  input_size :: nat
  t_bsize :: nat
  blocks_no :: nat
  threads_no :: nat
  workbuf_block_size :: nat
  workbuf_size :: nat
  inbuf :: "byte list"
  input_crc :: u32

text \<open>
  The constructor of \<open>Tester\<close>, given the contents of the file and the \<open>max_encoded_size\<close> functions
  of the codecs. Running out of memory and errors of reading the file are not modelled.
\<close>

definition new_tester :: "(nat \<Rightarrow> nat) list \<Rightarrow> byte list \<Rightarrow> nat \<Rightarrow> nat \<Rightarrow> bench_error + tester" where
  "new_tester max_sizes file desired_bsize desired_threads_no =
    (if length file = 0 then Inl Empty_file
     else
       let bs = min desired_bsize (length file)
       in and_then (or_error Division_by_zero (round_up (length file) bs)) (\<lambda>r.
          let bn = r div bs;
              wb = fold (\<lambda>f m. max m (f bs)) max_sizes bs
          in and_then (or_error Division_by_zero (round_up (wb + OVERRUN_PAD) ALIGNMENT)) (\<lambda>w.
            Inr \<lparr>input_size = length file, t_bsize = bs, blocks_no = bn,
                 threads_no = min desired_threads_no bn, workbuf_block_size = w,
                 workbuf_size = w * bn, inbuf = file, input_crc = crc file 0\<rparr>)))"

text \<open>
  \<open>copy_input_buffer\<close>. The loop ends because the block size is positive; the model stops at once
  when it is zero.
\<close>

function copy_input_loop :: "byte list \<Rightarrow> nat \<Rightarrow> byte list \<Rightarrow> nat \<Rightarrow> nat \<Rightarrow> byte list" where
  "copy_input_loop xs off outbuf bsize padded =
    (if xs = [] \<or> bsize = 0 then outbuf
     else copy_input_loop (drop bsize xs) (off + padded) (store outbuf off (take bsize xs)) bsize padded)"
  by auto
termination by (relation "measure (\<lambda>(xs, _). length xs)") auto

definition copy_input_buffer :: "byte list \<Rightarrow> byte list \<Rightarrow> nat \<Rightarrow> nat \<Rightarrow> byte list" where
  "copy_input_buffer inb outb bsize padded = copy_input_loop inb 0 outb bsize padded"

text \<open>The array the compression scheduler divides ends with the data of the last block.\<close>

definition size_in_blocks :: "tester \<Rightarrow> nat option" where
  "size_in_blocks t =
    map_option (\<lambda>r. input_size t + (workbuf_block_size t - t_bsize t) *
        (if r = input_size t then blocks_no t else blocks_no t - 1))
      (round_up (input_size t) (t_bsize t))"

subsection \<open>Encoding\<close>

record block_info =
  encoded_size :: nat
  decoded_size :: nat
  successfully_encoded :: bool

record bench_mem =
  in_buf :: "byte list"
  out_buf :: "byte list"
  metas :: "block_info list"

record encode_params =
  ep_encoder :: coder
  ep_workbsize :: nat
  ep_bsize :: nat
  ep_ssize :: nat
  ep_verify :: bool
  ep_can_be_skipped :: bool
  ep_transform_type :: transform_type
  ep_overhead_iters :: nat

text \<open>The coding function is called several times in a row on the same blocks.\<close>

fun overhead_loop :: "nat \<Rightarrow> coder \<Rightarrow> byte list \<Rightarrow> nat \<Rightarrow> byte list \<Rightarrow> nat \<Rightarrow> nat \<Rightarrow>
    (byte list \<times> byte list \<times> nat) option" where
  "overhead_loop 0 f ib isize ob osize ret = Some (ib, ob, ret)"
| "overhead_loop (Suc j) f ib isize ob osize ret =
    (case f ib isize ob osize of
       None \<Rightarrow> None
     | Some (ib', ob', ret') \<Rightarrow> overhead_loop j f ib' isize ob' osize ret')"

text \<open>The size of the output the encoder is asked for: less than the data by a sector, in whole sectors.\<close>

definition encode_limit :: "nat \<Rightarrow> nat \<Rightarrow> nat option" where
  "encode_limit chunk_size ssize =
    (if chunk_size > ssize then round_up (chunk_size - ssize) ssize else Some ssize)"

definition zero_from :: "nat \<Rightarrow> byte list \<Rightarrow> byte list" where
  "zero_from n xs = take n xs @ replicate (length xs - n) 0"

text \<open>
  The body of the loop over the blocks of a work item. \<open>tot\<close> holds \<open>total_in\<close> and \<open>total_out\<close> of
  the thread.
\<close>

definition encode_skipped :: "encode_params \<Rightarrow> work_item \<Rightarrow> nat \<Rightarrow> nat \<Rightarrow> nat \<Rightarrow> byte list \<Rightarrow> byte list \<Rightarrow>
    nat \<times> nat \<Rightarrow> bench_mem \<Rightarrow> bench_error + (nat \<times> nat) \<times> bench_mem" where
  "encode_skipped p wi processed i chunk_size ib ob tot mem =
    and_then (or_error Division_by_zero (round_up chunk_size (ep_ssize p))) (\<lambda>r.
      Inr (((fst tot + chunk_size) mod 2 ^ 64, (snd tot + r) mod 2 ^ 64),
        mem\<lparr>in_buf := store (in_buf mem) (wi_in wi + processed) ib,
            out_buf := store (out_buf mem) (wi_out wi + i * ep_workbsize p)
              (if ep_verify p then take chunk_size ib @ drop chunk_size ob else ob),
            metas := (metas mem)[wi_metadata wi + i :=
              \<lparr>encoded_size = ep_bsize p, decoded_size = ep_bsize p, successfully_encoded = False\<rparr>]\<rparr>))"

definition encode_stored :: "encode_params \<Rightarrow> work_item \<Rightarrow> nat \<Rightarrow> nat \<Rightarrow> nat \<Rightarrow> nat \<Rightarrow> nat \<Rightarrow> byte list \<Rightarrow>
    byte list \<Rightarrow> nat \<times> nat \<Rightarrow> bench_mem \<Rightarrow> bench_error + (nat \<times> nat) \<times> bench_mem" where
  "encode_stored p wi processed i chunk_size ret real_size ib ob tot mem =
    (if ep_verify p \<and> ep_workbsize p < ret then Inl Buffer_overrun
     else
       let ib' = (if ep_verify p \<and> ep_transform_type p \<noteq> moving then zero_from ret ib else ib);
           ob' = (if ep_verify p \<and> ep_transform_type p = moving then zero_from ret ob else ob)
       in Inr (((fst tot + chunk_size) mod 2 ^ 64, (snd tot + real_size) mod 2 ^ 64),
         mem\<lparr>in_buf := store (in_buf mem) (wi_in wi + processed) ib',
             out_buf := store (out_buf mem) (wi_out wi + i * ep_workbsize p) ob',
             metas := (metas mem)[wi_metadata wi + i :=
               \<lparr>encoded_size = ret, decoded_size = chunk_size, successfully_encoded = True\<rparr>]\<rparr>))"

definition encode_block :: "encode_params \<Rightarrow> work_item \<Rightarrow> nat \<Rightarrow> nat \<Rightarrow> nat \<times> nat \<Rightarrow> bench_mem \<Rightarrow>
    bench_error + (nat \<times> nat) \<times> bench_mem" where
  "encode_block p wi processed i tot mem =
    (let chunk_size = min (wi_isize wi - processed) (ep_bsize p)
     in and_then (or_error Division_by_zero (encode_limit chunk_size (ep_ssize p))) (\<lambda>block_size.
        case overhead_loop (ep_overhead_iters p) (ep_encoder p)
               (load (in_buf mem) (wi_in wi + processed) (ep_workbsize p)) chunk_size
               (load (out_buf mem) (wi_out wi + i * ep_workbsize p) (ep_workbsize p)) block_size
               CODING_ERROR of
          None \<Rightarrow> Inl Coder_fault
        | Some (ib, ob, ret) \<Rightarrow>
            if SIZE_MAX - 20 < ret then Inl Broken_encoder
            else and_then (or_error Division_by_zero (round_up ret (ep_ssize p))) (\<lambda>real_size.
              if ret = CODING_ERROR \<or>
                 (ep_can_be_skipped p \<and> (real_size \<ge> ep_bsize p \<or> real_size \<ge> chunk_size))
              then encode_skipped p wi processed i chunk_size ib ob tot mem
              else encode_stored p wi processed i chunk_size ret real_size ib ob tot mem)))"

text \<open>
  The loop over the blocks of a work item. It does not end for blocks of size zero, which the
  constructor of \<open>Tester\<close> rules out by the padding; the model stops there.
\<close>

function encode_item :: "encode_params \<Rightarrow> work_item \<Rightarrow> nat \<Rightarrow> nat \<Rightarrow> nat \<times> nat \<Rightarrow> bench_mem \<Rightarrow>
    bench_error + (nat \<times> nat) \<times> bench_mem" where
  "encode_item p wi processed i tot mem =
    (if processed < wi_isize wi \<and> ep_workbsize p \<noteq> 0 then
       and_then (encode_block p wi processed i tot mem) (\<lambda>(tot', mem').
         encode_item p wi (processed + ep_workbsize p) (i + 1) tot' mem')
     else Inr (tot, mem))"
  by auto
termination
  by (relation "measure (\<lambda>(p, wi, processed, _). wi_isize wi - processed)") auto

text \<open>
  \<open>encode\<close>, as run by all threads: a call is the number of the thread and the time at which it asks
  the scheduler for work. Each thread has its own parameters and adds up its own totals.
\<close>

type_synonym totals = "nat \<Rightarrow> nat \<times> nat"

fun run_encode :: "(nat \<Rightarrow> encode_params) \<Rightarrow> (nat \<times> timespec) list \<Rightarrow> scheduler \<Rightarrow> totals \<Rightarrow> bench_mem \<Rightarrow>
    bench_error + totals \<times> bench_mem" where
  "run_encode p [] s tots mem = Inr (tots, mem)"
| "run_encode p ((t, now) # calls) s tots mem =
    (case getChunk now s of
       (None, s') \<Rightarrow> run_encode p calls s' tots mem
     | (Some wi, s') \<Rightarrow>
         and_then (encode_item (p t) wi 0 0 (tots t) mem) (\<lambda>(tot, mem').
           run_encode p calls s' (tots(t := tot)) mem'))"

subsection \<open>Decoding\<close>

record decode_params =
  dp_decoder :: coder
  dp_workbsize :: nat
  dp_ssize :: nat
  dp_verify :: bool
  dp_overhead_iters :: nat

definition decode_block :: "decode_params \<Rightarrow> work_item \<Rightarrow> nat \<Rightarrow> nat \<Rightarrow> bench_mem \<Rightarrow>
    bench_error + nat \<times> bench_mem" where
  "decode_block p wi i job_out mem =
    (let w = dp_workbsize p;
         info = metas mem ! (wi_metadata wi + i);
         ip = load (in_buf mem) (wi_in wi + i * w) w;
         op = load (out_buf mem) (wi_out wi + i * w) w;
         put = (\<lambda>ib ob. mem\<lparr>in_buf := store (in_buf mem) (wi_in wi + i * w) ib,
                            out_buf := store (out_buf mem) (wi_out wi + i * w) ob\<rparr>)
     in if successfully_encoded info then
          case overhead_loop (dp_overhead_iters p) (dp_decoder p) ip (encoded_size info) op
                 (decoded_size info) CODING_ERROR of
            None \<Rightarrow> Inl Coder_fault
          | Some (ib, ob, ret) \<Rightarrow>
              if ret = CODING_ERROR then Inl Decoding_failed
              else and_then (or_error Division_by_zero (round_up ret (dp_ssize p))) (\<lambda>real_out.
                Inr (if job_out + real_out \<ge> wi_isize wi then job_out + ret else job_out + real_out,
                     put ib ob))
        else if dp_verify p then
          if w < encoded_size info then Inl Buffer_overrun
          else Inr (job_out, put ip (take (encoded_size info) ip @ drop (encoded_size info) op))
        else Inr (job_out, mem))"

function decode_item :: "decode_params \<Rightarrow> work_item \<Rightarrow> nat \<Rightarrow> nat \<Rightarrow> nat \<Rightarrow> bench_mem \<Rightarrow>
    bench_error + nat \<times> bench_mem" where
  "decode_item p wi processed i job_out mem =
    (if processed < wi_isize wi \<and> dp_workbsize p \<noteq> 0 then
       and_then (decode_block p wi i job_out mem) (\<lambda>(job_out', mem').
         decode_item p wi (processed + dp_workbsize p) (i + 1) job_out' mem')
     else Inr (job_out, mem))"
  by auto
termination
  by (relation "measure (\<lambda>(p, wi, processed, _). wi_isize wi - processed)") auto

fun run_decode :: "(nat \<Rightarrow> decode_params) \<Rightarrow> (nat \<times> timespec) list \<Rightarrow> scheduler \<Rightarrow> (nat \<Rightarrow> nat) \<Rightarrow> bench_mem \<Rightarrow>
    bench_error + (nat \<Rightarrow> nat) \<times> bench_mem" where
  "run_decode p [] s tots mem = Inr (tots, mem)"
| "run_decode p ((t, now) # calls) s tots mem =
    (case getChunk now s of
       (None, s') \<Rightarrow> run_decode p calls s' tots mem
     | (Some wi, s') \<Rightarrow>
         and_then (decode_item (p t) wi 0 0 0 mem) (\<lambda>(job_out, mem').
           run_decode p calls s' (tots(t := (tots t + job_out) mod 2 ^ 64)) mem'))"

subsection \<open>Verification\<close>

declare copy_input_loop.simps [simp del] encode_item.simps [simp del] decode_item.simps [simp del]

text \<open>\<open>check_decoding\<close>: the checksum over the data of the blocks, which are cleared on the way.\<close>

function output_crc :: "nat \<Rightarrow> nat \<Rightarrow> byte list \<Rightarrow> nat \<Rightarrow> nat \<Rightarrow> u32 \<Rightarrow> u32 \<times> byte list" where
  "output_crc off left buf bsize padded c =
    (if left = 0 \<or> bsize = 0 then (c, buf)
     else
       let n = min left bsize
       in output_crc (off + padded) (left - n) (store buf off (replicate n 0)) bsize padded
            (crc (load buf off n) c))"
  by auto
termination by (relation "measure (\<lambda>(off, left, _). left)") auto

definition check_decoding :: "u32 \<Rightarrow> byte list \<Rightarrow> nat \<Rightarrow> nat \<Rightarrow> nat \<Rightarrow> bool" where
  "check_decoding icrc buf isize bsize padded \<longleftrightarrow> fst (output_crc 0 isize buf bsize padded 0) = icrc"

declare output_crc.simps [simp del]

subsection \<open>One iteration of a test\<close>

record test_params =
  tp_encoder :: "nat \<Rightarrow> coder"
  tp_decoder :: "nat \<Rightarrow> coder"
  tp_encode_type :: transform_type
  tp_decode_type :: transform_type
  tp_can_be_skipped :: bool
  tp_ssize :: nat
  tp_verify :: bool
  tp_overhead_iters :: nat
  tp_job_size :: nat
  tp_iter_time :: nat

text \<open>
  \<open>prepareEncoderData\<close> and \<open>prepareDecoderData\<close>: the parameters of thread \<open>i\<close>. The coding function
  of a thread is the codec's function with the element of the parameter array for the thread.
\<close>

definition prepareEncoderData :: "tester \<Rightarrow> test_params \<Rightarrow> nat \<Rightarrow> encode_params" where
  "prepareEncoderData t tp i =
    \<lparr>ep_encoder = tp_encoder tp i, ep_workbsize = workbuf_block_size t, ep_bsize = t_bsize t,
     ep_ssize = tp_ssize tp, ep_verify = tp_verify tp, ep_can_be_skipped = tp_can_be_skipped tp,
     ep_transform_type = tp_encode_type tp, ep_overhead_iters = tp_overhead_iters tp\<rparr>"

definition prepareDecoderData :: "tester \<Rightarrow> test_params \<Rightarrow> nat \<Rightarrow> decode_params" where
  "prepareDecoderData t tp i =
    \<lparr>dp_decoder = tp_decoder tp i, dp_workbsize = workbuf_block_size t, dp_ssize = tp_ssize tp,
     dp_verify = tp_verify tp, dp_overhead_iters = tp_overhead_iters tp\<rparr>"

text \<open>
  The body of the iteration loop of \<open>Tester::test\<close>, from copying the input to the end of decoding.
  \<open>cstart\<close> and \<open>dstart\<close> are the times at which coding starts, \<open>ccalls\<close> and \<open>dcalls\<close> the requests
  for work that the threads make; addresses count from the start of each buffer. The buffers of the
  result are those of decoding: its input and its output.
\<close>

definition clear_buffer :: "tester \<Rightarrow> test_params \<Rightarrow> bench_mem \<Rightarrow> bench_mem" where
  "clear_buffer t tp mem =
    (if \<not> tp_verify tp then mem
     else if tp_encode_type tp = moving then mem\<lparr>in_buf := replicate (workbuf_size t) 0\<rparr>
     else mem\<lparr>out_buf := replicate (workbuf_size t) 0\<rparr>)"

definition swap_buffers :: "test_params \<Rightarrow> bench_mem \<Rightarrow> bench_mem" where
  "swap_buffers tp mem =
    (if tp_encode_type tp = moving then mem\<lparr>in_buf := out_buf mem, out_buf := in_buf mem\<rparr> else mem)"

definition compression_scheduler :: "tester \<Rightarrow> test_params \<Rightarrow> timespec \<Rightarrow> scheduler option" where
  "compression_scheduler t tp start =
    (case size_in_blocks t of None \<Rightarrow> None
     | Some csize \<Rightarrow> new_scheduler 0 0 0 csize (workbuf_block_size t) (tp_job_size tp) start (tp_iter_time tp))"

definition decompression_scheduler :: "tester \<Rightarrow> test_params \<Rightarrow> timespec \<Rightarrow> scheduler option" where
  "decompression_scheduler t tp start =
    new_scheduler 0 0 0 (workbuf_size t) (workbuf_block_size t) (tp_job_size tp) start (tp_iter_time tp)"

definition test_iteration :: "tester \<Rightarrow> test_params \<Rightarrow> timespec \<Rightarrow> (nat \<times> timespec) list \<Rightarrow>
    timespec \<Rightarrow> (nat \<times> timespec) list \<Rightarrow> bench_mem \<Rightarrow>
    bench_error + totals \<times> (nat \<Rightarrow> nat) \<times> bench_mem" where
  "test_iteration t tp cstart ccalls dstart dcalls mem =
    (let mem0 = mem\<lparr>in_buf := copy_input_buffer (inbuf t) (in_buf mem) (t_bsize t) (workbuf_block_size t)\<rparr>
     in and_then (or_error Division_by_zero (compression_scheduler t tp cstart)) (\<lambda>cs.
        and_then (run_encode (prepareEncoderData t tp) ccalls cs (\<lambda>_. (0, 0)) mem0) (\<lambda>(ctots, mem1).
        and_then (or_error Division_by_zero (decompression_scheduler t tp dstart)) (\<lambda>ds.
        and_then (run_decode (prepareDecoderData t tp) dcalls ds (\<lambda>_. 0)
            (swap_buffers tp (clear_buffer t tp mem1))) (\<lambda>(dtots, mem2).
        Inr (ctots, dtots, mem2))))))"

text \<open>The check after the last iteration, with the buffer the decoder leaves the data in.\<close>

definition verify_codec :: "tester \<Rightarrow> test_params \<Rightarrow> bench_mem \<Rightarrow> bool" where
  "verify_codec t tp mem =
    check_decoding (input_crc t) (if tp_decode_type tp = moving then out_buf mem else in_buf mem)
      (input_size t) (t_bsize t) (workbuf_block_size t)"

subsection \<open>The contract of a lossless codec\<close>

text \<open>
  \<open>decodable decs w r xs n d\<close>: from any input block that begins with the first \<open>r\<close> bytes of \<open>xs\<close>
  the decoders restore the \<open>n\<close> bytes \<open>d\<close>, whatever is in the output block, and keep their input. A
  codec has one decoder for each thread.
\<close>

definition decodable :: "coder set \<Rightarrow> nat \<Rightarrow> nat \<Rightarrow> byte list \<Rightarrow> nat \<Rightarrow> byte list \<Rightarrow> bool" where
  "decodable decs w r xs n d \<longleftrightarrow>
    (\<forall>dec\<in>decs. \<forall>ib ob. length ib = w \<and> length ob = w \<and> take r ib = take r xs \<longrightarrow>
      (\<exists>ib' ob' k. dec ib r ob n = Some (ib', ob', k) \<and> k \<noteq> CODING_ERROR \<and>
        length ib' = w \<and> length ob' = w \<and> take r ib' = take r xs \<and> take n ob' = d))"

lemma decodableI:
  assumes "\<And>dec ib ob. dec \<in> decs \<Longrightarrow> length ib = w \<Longrightarrow> length ob = w \<Longrightarrow> take r ib = take r xs \<Longrightarrow>
    \<exists>ib' ob' k. dec ib r ob n = Some (ib', ob', k) \<and> k \<noteq> CODING_ERROR \<and>
      length ib' = w \<and> length ob' = w \<and> take r ib' = take r xs \<and> take n ob' = d"
  shows "decodable decs w r xs n d"
  using assms unfolding decodable_def by blast

lemma decodableD:
  assumes "decodable decs w r xs n d" "dec \<in> decs" "length ib = w" "length ob = w" "take r ib = take r xs"
  obtains ib' ob' k where "dec ib r ob n = Some (ib', ob', k)" "k \<noteq> CODING_ERROR"
    "length ib' = w" "length ob' = w" "take r ib' = take r xs" "take n ob' = d"
  using assms unfolding decodable_def by blast

text \<open>
  A codec that moves the data between two blocks of \<open>w\<close> bytes: on \<open>n\<close> bytes the encoder stays in
  the blocks, keeps its input, and unless it reports an error the decoders invert it. An encoder
  that writes as much as it is told to relies on the output sizes being among \<open>caps\<close>.
\<close>

locale moving_codec =
  fixes enc :: coder and decs :: "coder set" and w bs :: nat and caps :: "nat set"
  assumes enc_law: "length ib = w \<Longrightarrow> length ob = w \<Longrightarrow> 0 < n \<Longrightarrow> n \<le> bs \<Longrightarrow> m \<in> caps \<Longrightarrow>
      \<exists>ib' ob' r. enc ib n ob m = Some (ib', ob', r) \<and> length ib' = w \<and> length ob' = w \<and> r \<le> w \<and>
        take n ib' = take n ib \<and> (r \<noteq> CODING_ERROR \<longrightarrow> decodable decs w r ob' n (take n ib))"
begin

lemma enc_overhead:
  assumes "length ib = w" "length ob = w" "0 < n" "n \<le> bs" "m \<in> caps" "0 < j"
  shows "\<exists>ib' ob' r. overhead_loop j enc ib n ob m ret = Some (ib', ob', r) \<and> length ib' = w \<and>
    length ob' = w \<and> r \<le> w \<and> take n ib' = take n ib \<and>
    (r \<noteq> CODING_ERROR \<longrightarrow> decodable decs w r ob' n (take n ib))"
  using assms
proof (induction j arbitrary: ib ob ret)
  case (Suc j)
  obtain ib' ob' r where 1: "enc ib n ob m = Some (ib', ob', r)" "length ib' = w" "length ob' = w"
    "r \<le> w" "take n ib' = take n ib" "r \<noteq> CODING_ERROR \<longrightarrow> decodable decs w r ob' n (take n ib)"
    using enc_law [OF Suc.prems(1-5)] by blast
  show ?case
  proof (cases "j = 0")
    case True
    then show ?thesis using 1 by simp
  next
    case False
    then show ?thesis using Suc.IH [of ib' ob' r] Suc.prems 1 by simp
  qed
qed simp

end

lemma decodable_overhead:
  assumes "decodable decs w r xs n d" "dec \<in> decs" "length ib = w" "length ob = w" "take r ib = take r xs" "0 < j"
  shows "\<exists>ib' ob' k. overhead_loop j dec ib r ob n ret = Some (ib', ob', k) \<and> k \<noteq> CODING_ERROR \<and>
    length ib' = w \<and> length ob' = w \<and> take r ib' = take r xs \<and> take n ob' = d"
  using assms(3-)
proof (induction j arbitrary: ib ob ret)
  case (Suc j)
  obtain ib' ob' k where 1: "dec ib r ob n = Some (ib', ob', k)" "k \<noteq> CODING_ERROR"
    "length ib' = w" "length ob' = w" "take r ib' = take r xs" "take n ob' = d"
    using decodableD [OF assms(1,2) Suc.prems(1-3)] by metis
  show ?case
  proof (cases "j = 0")
    case True
    then show ?thesis using 1 by simp
  next
    case False
    then show ?thesis using Suc.IH [of ib' ob' k] 1 by simp
  qed
qed simp

text \<open>
  A codec that works in place and keeps the data where it is, such as a checksum: the encoder may
  write behind the data, and the decoders accept what it has left, and any block that begins like it.
\<close>

definition acceptable :: "coder set \<Rightarrow> nat \<Rightarrow> nat \<Rightarrow> byte list \<Rightarrow> nat \<Rightarrow> bool" where
  "acceptable decs w r xs n \<longleftrightarrow>
    (\<forall>dec\<in>decs. \<forall>ib ob. length ib = w \<and> length ob = w \<and> take r ib = take r xs \<longrightarrow>
      (\<exists>ib' ob' k. dec ib r ob n = Some (ib', ob', k) \<and> k \<noteq> CODING_ERROR \<and>
        length ib' = w \<and> length ob' = w \<and> take r ib' = take r xs))"

locale in_place_codec =
  fixes enc :: coder and decs :: "coder set" and w bs :: nat
  assumes enc_keeps: "length ib = w \<Longrightarrow> length ob = w \<Longrightarrow> 0 < n \<Longrightarrow> n \<le> bs \<Longrightarrow>
      \<exists>ib' ob' r. enc ib n ob m = Some (ib', ob', r) \<and> length ib' = w \<and> length ob' = w \<and> n \<le> r \<and> r \<le> w \<and>
        take n ib' = take n ib \<and> acceptable decs w r ib' n"
begin

lemma keeps_overhead:
  assumes "length ib = w" "length ob = w" "0 < n" "n \<le> bs" "0 < j"
  shows "\<exists>ib' ob' r. overhead_loop j enc ib n ob m ret = Some (ib', ob', r) \<and> length ib' = w \<and>
    length ob' = w \<and> n \<le> r \<and> r \<le> w \<and> take n ib' = take n ib \<and> acceptable decs w r ib' n"
  using assms
proof (induction j arbitrary: ib ob ret)
  case (Suc j)
  obtain ib' ob' r where 1: "enc ib n ob m = Some (ib', ob', r)" "length ib' = w" "length ob' = w"
    "n \<le> r" "r \<le> w" "take n ib' = take n ib" "acceptable decs w r ib' n"
    using enc_keeps [OF Suc.prems(1-4)] by blast
  show ?case
  proof (cases "j = 0")
    case True
    then show ?thesis using 1 by simp
  next
    case False
    then show ?thesis using Suc.IH [of ib' ob' r] Suc.prems 1 by simp
  qed
qed simp

end

lemma acceptable_overhead:
  assumes "acceptable decs w r xs n" "dec \<in> decs" "length ib = w" "length ob = w" "take r ib = take r xs" "0 < j"
  shows "\<exists>ib' ob' k. overhead_loop j dec ib r ob n ret = Some (ib', ob', k) \<and> k \<noteq> CODING_ERROR \<and>
    length ib' = w \<and> length ob' = w \<and> take r ib' = take r xs"
  using assms(3-)
proof (induction j arbitrary: ib ob ret)
  case (Suc j)
  obtain ib' ob' k where 1: "dec ib r ob n = Some (ib', ob', k)" "k \<noteq> CODING_ERROR"
    "length ib' = w" "length ob' = w" "take r ib' = take r xs"
    using assms(1,2) Suc.prems(1-3) unfolding acceptable_def by metis
  show ?case
  proof (cases "j = 0")
    case True
    then show ?thesis using 1 by simp
  next
    case False
    then show ?thesis using Suc.IH [of ib' ob' k] 1 by simp
  qed
qed simp

end
