(* ===== verification/Bench_Correct.thy ===== *)
theory Bench_Correct
  imports Benchmark
begin

text \<open>
  The benchmark loses no data. A block is followed from the input buffer through the encoder, the
  metadata and the decoder to the output buffer; the invariants are kept by every block, so by every
  work item, so by any sequence of work items that covers the blocks, which the threads have
  processed when the scheduler first answers -1.
\<close>

subsection \<open>Encoding keeps every block decodable\<close>

lemma round_up_Some: "0 < B \<Longrightarrow> \<exists>r. round_up A B = Some r"
  by (simp add: round_up_def Let_def)

lemma length_zero_from [simp]: "length (zero_from r xs) = length xs"
  and take_zero_from: "r \<le> length xs \<Longrightarrow> take r (zero_from r xs) = take r xs"
  by (simp_all add: zero_from_def)

text \<open>What one block of the encoded buffer holds, with its metadata, for the data \<open>d\<close>.\<close>

definition holds :: "coder set \<Rightarrow> nat \<Rightarrow> nat \<Rightarrow> byte list \<Rightarrow> byte list \<Rightarrow> block_info \<Rightarrow> bool" where
  "holds decs w bs d xs info \<longleftrightarrow>
    (if successfully_encoded info then
       decoded_size info = length d \<and> encoded_size info \<le> w \<and>
       decodable decs w (encoded_size info) xs (length d) d
     else encoded_size info = bs \<and> take (length d) xs = d)"

lemma decodable_cong: "take r xs = take r ys \<Longrightarrow> decodable decs w r xs n d = decodable decs w r ys n d"
  by (simp add: decodable_def)

definition mem_ok :: "nat \<Rightarrow> nat \<Rightarrow> bench_mem \<Rightarrow> bool" where
  "mem_ok N w mem \<longleftrightarrow>
    length (in_buf mem) = N * w \<and> length (out_buf mem) = N * w \<and> length (metas mem) = N"

text \<open>
  The invariant of encoding: the input blocks begin with their data, and the blocks encoded so far
  hold it.
\<close>

definition enc_inv :: "coder set \<Rightarrow> nat \<Rightarrow> nat \<Rightarrow> nat \<Rightarrow> (nat \<Rightarrow> byte list) \<Rightarrow> nat set \<Rightarrow> bench_mem \<Rightarrow> bool" where
  "enc_inv decs N w bs d B mem \<longleftrightarrow> mem_ok N w mem \<and>
    (\<forall>b<N. take (length (d b)) (blk w (in_buf mem) b) = d b) \<and>
    (\<forall>b<N. b \<in> B \<longrightarrow> holds decs w bs (d b) (blk w (out_buf mem) b) (metas mem ! b))"

lemma enc_inv_update:
  assumes "enc_inv decs N w bs d B mem" "b < N" "length ib = w" "length ob = w"
    and "take (length (d b)) ib = d b" "holds decs w bs (d b) ob info"
  shows "enc_inv decs N w bs d (insert b B)
    (mem\<lparr>in_buf := store (in_buf mem) (b * w) ib, out_buf := store (out_buf mem) (b * w) ob,
         metas := (metas mem)[b := info]\<rparr>)"
  using assms(1) blk_store [OF assms(2) _ _ assms(3)] blk_store [OF assms(2) _ _ assms(4)] assms(2-)
  unfolding enc_inv_def mem_ok_def
  by (auto simp: length_store_blk nth_list_update simp del: length_store length_load)

text \<open>Work item \<open>wi\<close> covers the blocks from \<open>b0\<close> up to \<open>b0 + m\<close>; block \<open>b\<close> has \<open>n b\<close> bytes of data.\<close>

definition item_blocks :: "nat \<Rightarrow> nat \<Rightarrow> (nat \<Rightarrow> nat) \<Rightarrow> work_item \<Rightarrow> nat \<Rightarrow> nat \<Rightarrow> bool" where
  "item_blocks w bs n wi b0 m \<longleftrightarrow>
    wi_in wi = b0 * w \<and> wi_out wi = b0 * w \<and> wi_metadata wi = b0 \<and>
    (\<forall>i. i * w < wi_isize wi \<longleftrightarrow> i < m) \<and> (\<forall>i<m. min (wi_isize wi - i * w) bs = n (b0 + i))"

text \<open>The output sizes the loop asks for, on blocks of up to \<open>bs\<close> bytes.\<close>

definition limits_in :: "nat set \<Rightarrow> nat \<Rightarrow> nat \<Rightarrow> bool" where
  "limits_in caps bs ssize \<longleftrightarrow> (\<forall>n c. 0 < n \<and> n \<le> bs \<and> encode_limit n ssize = Some c \<longrightarrow> c \<in> caps)"

definition encodes_with :: "encode_params \<Rightarrow> coder \<Rightarrow> nat \<Rightarrow> nat \<Rightarrow> nat set \<Rightarrow> bool" where
  "encodes_with p enc w bs caps \<longleftrightarrow> limits_in caps bs (ep_ssize p) \<and>
    ep_encoder p = enc \<and> ep_workbsize p = w \<and> ep_bsize p = bs \<and> 0 < ep_ssize p \<and> ep_verify p \<and>
    ep_transform_type p = moving \<and> 0 < ep_overhead_iters p"

text \<open>
  Both outcomes of encoding a block, as stores of whole blocks: \<open>p\<close> verifies, and the coding function
  has left \<open>ib\<close> and \<open>ob\<close>.
\<close>

abbreviation put_block :: "bench_mem \<Rightarrow> nat \<Rightarrow> nat \<Rightarrow> byte list \<Rightarrow> byte list \<Rightarrow> block_info \<Rightarrow> bench_mem" where
  "put_block mem w b ib ob info \<equiv>
    mem\<lparr>in_buf := store (in_buf mem) (b * w) ib, out_buf := store (out_buf mem) (b * w) ob,
        metas := (metas mem)[b := info]\<rparr>"

definition skipped_info :: "nat \<Rightarrow> block_info" where
  "skipped_info bs = \<lparr>encoded_size = bs, decoded_size = bs, successfully_encoded = False\<rparr>"

definition stored_info :: "nat \<Rightarrow> nat \<Rightarrow> block_info" where
  "stored_info r n = \<lparr>encoded_size = r, decoded_size = n, successfully_encoded = True\<rparr>"

lemma encode_block_cases:
  assumes wi: "item_blocks w bs n wi b0 m" "i < m"
    and p: "ep_workbsize p = w" "ep_bsize p = bs" "0 < ep_ssize p" "ep_verify p"
    and run: "overhead_loop (ep_overhead_iters p) (ep_encoder p) (blk w (in_buf mem) (b0 + i)) (n (b0 + i))
        (blk w (out_buf mem) (b0 + i)) cap CODING_ERROR = Some (ib, ob, r)"
    and cap: "encode_limit (n (b0 + i)) (ep_ssize p) = Some cap" and r: "r \<le> w" "w \<le> SIZE_MAX - 20"
  obtains (skipped) tot' where "encode_block p wi (i * w) i tot mem = Inr (tot',
      put_block mem w (b0 + i) ib (take (n (b0 + i)) ib @ drop (n (b0 + i)) ob) (skipped_info bs))"
  | (stored) tot' where "r \<noteq> CODING_ERROR" "encode_block p wi (i * w) i tot mem = Inr (tot',
      put_block mem w (b0 + i) (if ep_transform_type p = moving then ib else zero_from r ib)
        (if ep_transform_type p = moving then zero_from r ob else ob) (stored_info r (n (b0 + i))))"
proof -
  let ?n = "n (b0 + i)"
  have at: "wi_in wi + i * w = (b0 + i) * w" "wi_out wi + i * w = (b0 + i) * w" "wi_metadata wi + i = b0 + i"
    "min (wi_isize wi - i * w) bs = ?n"
    using wi by (simp_all add: item_blocks_def algebra_simps)
  obtain rs where rs: "round_up r (ep_ssize p) = Some rs" using round_up_Some [OF p(3)] by blast
  obtain rc where rc: "round_up ?n (ep_ssize p) = Some rc" using round_up_Some [OF p(3)] by blast
  let ?failed = "r = CODING_ERROR \<or> (ep_can_be_skipped p \<and> (rs \<ge> bs \<or> rs \<ge> ?n))"
  have body: "encode_block p wi (i * w) i tot mem =
      (if ?failed then encode_skipped p wi (i * w) i ?n ib ob tot mem
       else encode_stored p wi (i * w) i ?n r rs ib ob tot mem)"
    using p run cap rs r at unfolding encode_block_def by (simp add: Let_def)
  show ?thesis
  proof (cases ?failed)
    case True
    show ?thesis
      by (rule skipped) (use p rc at in \<open>simp add: body [unfolded if_P [OF True]] encode_skipped_def skipped_info_def\<close>)
  next
    case False
    show ?thesis
      by (rule stored) (use False p r(1) at in
        \<open>simp_all add: body [unfolded if_not_P [OF False]] encode_stored_def stored_info_def Let_def\<close>)
  qed
qed

lemma encode_limit_Some: "0 < ssize \<Longrightarrow> \<exists>cap. encode_limit n ssize = Some cap"
  using round_up_Some [of ssize "n - ssize"] by (simp add: encode_limit_def)

context moving_codec
begin

lemma encode_block_ok:
  assumes inv: "enc_inv decs N w bs d B mem" and p: "encodes_with p enc w bs caps"
    and wi: "item_blocks w bs (length \<circ> d) wi b0 m" "i < m" and b: "b0 + i < N"
    and n: "0 < length (d (b0 + i))" "length (d (b0 + i)) \<le> bs" "bs \<le> w" "w \<le> SIZE_MAX - 20"
  shows "\<exists>tot' mem'. encode_block p wi (i * w) i tot mem = Inr (tot', mem') \<and>
    enc_inv decs N w bs d (insert (b0 + i) B) mem'"
proof -
  let ?b = "b0 + i" and ?n = "length (d (b0 + i))"
  let ?ib = "blk w (in_buf mem) ?b" and ?ob = "blk w (out_buf mem) ?b"
  have len: "length ?ib = w" "length ?ob = w" and data: "take ?n ?ib = d ?b"
    using inv b by (simp_all add: enc_inv_def mem_ok_def length_blk del: length_load)
  have params: "ep_encoder p = enc" "ep_workbsize p = w" "ep_bsize p = bs" "0 < ep_ssize p" "ep_verify p"
    "ep_transform_type p = moving" "0 < ep_overhead_iters p"
    using p by (simp_all add: encodes_with_def)
  obtain cap where cap: "encode_limit ?n (ep_ssize p) = Some cap" using encode_limit_Some params(4) by blast
  have in_caps: "cap \<in> caps" using p cap n by (auto simp: encodes_with_def limits_in_def)
  obtain ib ob r where run: "overhead_loop (ep_overhead_iters p) (ep_encoder p) ?ib ((length \<circ> d) ?b) ?ob
        cap CODING_ERROR = Some (ib, ob, r)"
    and l: "length ib = w" "length ob = w" "r \<le> w" "take ?n ib = d ?b"
    and dec: "r \<noteq> CODING_ERROR \<Longrightarrow> decodable decs w r ob ?n (d ?b)"
    using enc_overhead [OF len n(1,2) in_caps params(7), of CODING_ERROR] params(1) data by auto
  have cap': "encode_limit ((length \<circ> d) ?b) (ep_ssize p) = Some cap" using cap by simp
  show ?thesis
  proof (rule encode_block_cases [OF wi params(2-5) run cap' l(3) n(4), of tot])
    fix tot'
    assume body: "encode_block p wi (i * w) i tot mem = Inr (tot', put_block mem w ?b ib
        (take ((length \<circ> d) ?b) ib @ drop ((length \<circ> d) ?b) ob) (skipped_info bs))"
    have "holds decs w bs (d ?b) (take ?n ib @ drop ?n ob) (skipped_info bs)"
      using l n by (simp add: holds_def skipped_info_def)
    then have "enc_inv decs N w bs d (insert ?b B)
        (put_block mem w ?b ib (take ?n ib @ drop ?n ob) (skipped_info bs))"
      using l n by (intro enc_inv_update inv b) simp_all
    then show ?thesis using body by simp
  next
    fix tot'
    assume r: "r \<noteq> CODING_ERROR" and body: "encode_block p wi (i * w) i tot mem = Inr (tot', put_block mem w ?b
        (if ep_transform_type p = moving then ib else zero_from r ib)
        (if ep_transform_type p = moving then zero_from r ob else ob) (stored_info r ((length \<circ> d) ?b)))"
    have "decodable decs w r (zero_from r ob) ?n (d ?b)"
      using dec [OF r] decodable_cong [OF take_zero_from [of r ob]] l by simp
    then have "holds decs w bs (d ?b) (zero_from r ob) (stored_info r ?n)"
      using l by (simp add: holds_def stored_info_def)
    then have "enc_inv decs N w bs d (insert ?b B) (put_block mem w ?b ib (zero_from r ob) (stored_info r ?n))"
      using l by (intro enc_inv_update inv b) simp_all
    then show ?thesis using body params(6) by simp
  qed
qed

end

text \<open>A loop whose body handles one block handles all blocks of a work item.\<close>

lemma encode_item_ok:
  assumes wi: "item_blocks w bs n wi b0 m" and w: "0 < w" "ep_workbsize p = w"
    and step: "\<And>i tot mem B. i < m \<Longrightarrow> Inv B mem \<Longrightarrow>
      \<exists>tot' mem'. encode_block p wi (i * w) i tot mem = Inr (tot', mem') \<and> Inv (insert (b0 + i) B) mem'"
    and inv: "Inv B mem" "i \<le> m"
  shows "\<exists>tot' mem'. encode_item p wi (i * w) i tot mem = Inr (tot', mem') \<and> Inv (B \<union> {b0 + i..<b0 + m}) mem'"
  using inv
proof (induction "m - i" arbitrary: i tot mem B)
  case 0
  then have "\<not> i * w < wi_isize wi" using wi by (auto simp: item_blocks_def)
  then show ?case using 0 by (subst encode_item.simps) simp
next
  case (Suc k)
  then have i: "i < m" by simp
  then have more: "i * w < wi_isize wi" using wi by (auto simp: item_blocks_def)
  obtain tot1 mem1 where 1: "encode_block p wi (i * w) i tot mem = Inr (tot1, mem1)"
    and inv1: "Inv (insert (b0 + i) B) mem1"
    using step [OF i Suc.prems(1)] by blast
  have eq: "insert (b0 + i) B \<union> {b0 + Suc i..<b0 + m} = B \<union> {b0 + i..<b0 + m}"
    using i by auto
  have "encode_item p wi (i * w) i tot mem = encode_item p wi (Suc i * w) (Suc i) tot1 mem1"
    by (subst encode_item.simps) (use more w 1 in \<open>simp add: add.commute\<close>)
  then show ?case
    using Suc.hyps(1) [of "Suc i" "insert (b0 + i) B" mem1 tot1] Suc.hyps(2) inv1 i
    unfolding eq by auto
qed

subsection \<open>Decoding restores every block\<close>

definition dec_inv :: "coder set \<Rightarrow> nat \<Rightarrow> nat \<Rightarrow> nat \<Rightarrow> (nat \<Rightarrow> byte list) \<Rightarrow> nat set \<Rightarrow> bench_mem \<Rightarrow> bool" where
  "dec_inv decs N w bs d B mem \<longleftrightarrow> mem_ok N w mem \<and>
    (\<forall>b<N. holds decs w bs (d b) (blk w (in_buf mem) b) (metas mem ! b)) \<and>
    (\<forall>b<N. b \<in> B \<longrightarrow> take (length (d b)) (blk w (out_buf mem) b) = d b)"

lemma dec_inv_update:
  assumes "dec_inv decs N w bs d B mem" "b < N" "length ib = w" "length ob = w"
    and "holds decs w bs (d b) ib (metas mem ! b)" "take (length (d b)) ob = d b"
  shows "dec_inv decs N w bs d (insert b B)
    (mem\<lparr>in_buf := store (in_buf mem) (b * w) ib, out_buf := store (out_buf mem) (b * w) ob\<rparr>)"
  using assms(1) blk_store [OF assms(2) _ _ assms(3)] blk_store [OF assms(2) _ _ assms(4)] assms(2-)
  unfolding dec_inv_def mem_ok_def
  by (auto simp: length_store_blk simp del: length_store length_load)

definition decodes_with :: "decode_params \<Rightarrow> coder set \<Rightarrow> nat \<Rightarrow> bool" where
  "decodes_with p decs w \<longleftrightarrow>
    dp_decoder p \<in> decs \<and> dp_workbsize p = w \<and> 0 < dp_ssize p \<and> dp_verify p \<and>
    0 < dp_overhead_iters p"

lemma decode_block_ok:
  assumes inv: "dec_inv decs N w bs d B mem" and p: "decodes_with p decs w"
    and wi: "wi_in wi = b0 * w" "wi_out wi = b0 * w" "wi_metadata wi = b0" and b: "b0 + i < N"
    and n: "length (d (b0 + i)) \<le> bs" "bs \<le> w"
  shows "\<exists>job_out' mem'. decode_block p wi i job_out mem = Inr (job_out', mem') \<and>
    dec_inv decs N w bs d (insert (b0 + i) B) mem'"
proof -
  let ?b = "b0 + i" and ?info = "metas mem ! (b0 + i)"
  let ?ib = "blk w (in_buf mem) ?b" and ?ob = "blk w (out_buf mem) ?b"
  have at: "wi_in wi + i * w = ?b * w" "wi_out wi + i * w = ?b * w" "wi_metadata wi + i = ?b"
    using wi by (simp_all add: algebra_simps)
  have len: "length ?ib = w" "length ?ob = w" and hold: "holds decs w bs (d ?b) ?ib ?info"
    using inv b by (simp_all add: dec_inv_def mem_ok_def length_blk del: length_load)
  have params: "dp_decoder p \<in> decs" "dp_workbsize p = w" "0 < dp_ssize p" "dp_verify p"
    "0 < dp_overhead_iters p"
    using p by (simp_all add: decodes_with_def)
  show ?thesis
  proof (cases "successfully_encoded ?info")
    case True
    then have info: "decoded_size ?info = length (d ?b)"
      and dec: "decodable decs w (encoded_size ?info) ?ib (length (d ?b)) (d ?b)"
      using hold by (simp_all add: holds_def)
    obtain ib ob k where run: "overhead_loop (dp_overhead_iters p) (dp_decoder p) ?ib (encoded_size ?info) ?ob
        (decoded_size ?info) CODING_ERROR = Some (ib, ob, k)" "k \<noteq> CODING_ERROR"
      and l: "length ib = w" "length ob = w" "take (encoded_size ?info) ib = take (encoded_size ?info) ?ib"
        "take (length (d ?b)) ob = d ?b"
      using decodable_overhead [OF dec params(1) len refl params(5), of CODING_ERROR] unfolding info by blast
    have "holds decs w bs (d ?b) ib ?info"
      using hold decodable_cong [OF l(3)] True by (simp add: holds_def)
    then have "dec_inv decs N w bs d (insert ?b B)
      (mem\<lparr>in_buf := store (in_buf mem) (?b * w) ib, out_buf := store (out_buf mem) (?b * w) ob\<rparr>)"
      using l by (intro dec_inv_update inv b)
    moreover obtain ro where "round_up k (dp_ssize p) = Some ro"
      using params(3) round_up_Some by blast
    ultimately show ?thesis
      using True run at params by (simp add: decode_block_def Let_def)
  next
    case False
    then have info: "encoded_size ?info = bs" and data: "take (length (d ?b)) ?ib = d ?b"
      using hold by (simp_all add: holds_def)
    have "take (length (d ?b)) (take bs ?ib @ drop bs ?ob) = d ?b"
      using data len n by (simp add: min_absorb1 del: length_load)
    then have "dec_inv decs N w bs d (insert ?b B)
      (mem\<lparr>in_buf := store (in_buf mem) (?b * w) ?ib,
           out_buf := store (out_buf mem) (?b * w) (take bs ?ib @ drop bs ?ob)\<rparr>)"
      using hold len n by (intro dec_inv_update inv b) (simp_all del: length_load)
    then show ?thesis
      using False info at params n by (simp add: decode_block_def Let_def)
  qed
qed

lemma decode_item_ok:
  assumes wi: "item_blocks w bs n wi b0 m" and w: "0 < w" "dp_workbsize p = w"
    and step: "\<And>i job_out mem B. i < m \<Longrightarrow> Inv B mem \<Longrightarrow>
      \<exists>job_out' mem'. decode_block p wi i job_out mem = Inr (job_out', mem') \<and> Inv (insert (b0 + i) B) mem'"
    and inv: "Inv B mem" "i \<le> m"
  shows "\<exists>job_out' mem'. decode_item p wi (i * w) i job_out mem = Inr (job_out', mem') \<and>
    Inv (B \<union> {b0 + i..<b0 + m}) mem'"
  using inv
proof (induction "m - i" arbitrary: i job_out mem B)
  case 0
  then have "\<not> i * w < wi_isize wi" using wi by (auto simp: item_blocks_def)
  then show ?case using 0 by (subst decode_item.simps) simp
next
  case (Suc k)
  then have i: "i < m" by simp
  then have more: "i * w < wi_isize wi" using wi by (auto simp: item_blocks_def)
  obtain job1 mem1 where 1: "decode_block p wi i job_out mem = Inr (job1, mem1)"
    and inv1: "Inv (insert (b0 + i) B) mem1"
    using step [OF i Suc.prems(1)] by blast
  have eq: "insert (b0 + i) B \<union> {b0 + Suc i..<b0 + m} = B \<union> {b0 + i..<b0 + m}"
    using i by auto
  have "decode_item p wi (i * w) i job_out mem = decode_item p wi (Suc i * w) (Suc i) job1 mem1"
    by (subst decode_item.simps) (use more w 1 in \<open>simp add: add.commute\<close>)
  then show ?case
    using Suc.hyps(1) [of "Suc i" "insert (b0 + i) B" mem1 job1] Suc.hyps(2) inv1 i
    unfolding eq by auto
qed

subsection \<open>The worker threads\<close>

text \<open>
  A loop that takes work items from the scheduler until it has no more. \<open>work\<close> processes an item for
  a thread; \<open>I B st\<close> says that the blocks in \<open>B\<close> have been processed.
\<close>

locale worker =
  fixes work :: "nat \<Rightarrow> work_item \<Rightarrow> 'st \<Rightarrow> 'e + 'st"
    and run :: "(nat \<times> timespec) list \<Rightarrow> scheduler \<Rightarrow> 'st \<Rightarrow> 'e + 'st"
  assumes run_Nil: "run [] s st = Inr st"
    and run_Cons: "run ((t, now) # calls) s st =
      (case getChunk now s of
         (None, s') \<Rightarrow> run calls s' st
       | (Some wi, s') \<Rightarrow> and_then (work t wi st) (run calls s'))"
begin

lemma run_ok:
  assumes "sched_wf s" "sched_at s j" "I B st"
    and "\<And>t k st B. t \<in> fst ` set calls \<Longrightarrow> k < chunks_no s \<Longrightarrow> I B st \<Longrightarrow>
      \<exists>st'. work t (chunk s k) st = Inr st' \<and> I (B \<union> cover k) st'"
  shows "\<exists>st'. run calls s st = Inr st' \<and>
    I (B \<union> \<Union> (cover ` {k. Some k \<in> set (fst (cycles (chunks_no s) (map (expired s \<circ> snd) calls) j))})) st'"
  using assms
proof (induction calls arbitrary: s j B st)
  case Nil
  then show ?case by (simp add: run_Nil)
next
  case (Cons call calls)
  obtain t now where call: "call = (t, now)" by (cases call)
  let ?c = "cycle (chunks_no s) (expired s now) j"
  obtain s1 where s1: "getChunk now s = (map_option (chunk s) (fst ?c), s1)" "same_config s s1"
    "sched_at s1 (snd ?c)"
    by (rule getChunk_step [OF Cons.prems(1,2)])
  have same: "chunk s1 = chunk s" "chunks_no s1 = chunks_no s" "expired s1 = expired s"
    by (rule chunk_same_config [OF s1(2)], rule chunks_no_same_config [OF s1(2)],
        use s1(2) in \<open>simp add: expired_def same_config_def fun_eq_iff\<close>)
  have wf1: "sched_wf s1" using Cons.prems(1) by (simp add: same_config_wf [OF s1(2)])
  have rest: "\<And>t k st B. t \<in> fst ` set calls \<Longrightarrow> k < chunks_no s \<Longrightarrow> I B st \<Longrightarrow>
      \<exists>st'. work t (chunk s k) st = Inr st' \<and> I (B \<union> cover k) st'"
    using Cons.prems(4) by simp
  note IH = Cons.IH [OF wf1 s1(3), unfolded same, OF _ rest]
  show ?case
  proof (cases "fst ?c")
    case None
    then show ?thesis
      using IH [of B st] Cons.prems(3) s1(1) by (auto simp: call run_Cons case_prod_beta)
  next
    case (Some k)
    then have "k < chunks_no s"
      using chunks_no_pos [OF Cons.prems(1)] by (auto simp: cycle.simps split: if_splits)
    then obtain st1 where st1: "work t (chunk s k) st = Inr st1" "I (B \<union> cover k) st1"
      using Cons.prems(3,4) call by fastforce
    have "B \<union> cover k \<union> \<Union> (cover ` {i. Some i \<in> X}) = B \<union> \<Union> (cover ` {i. i = k \<or> Some i \<in> X})" for X
      by auto
    then show ?thesis
      using IH [OF st1(2)] Some s1(1) st1(1) by (simp add: call run_Cons case_prod_beta)
  qed
qed

text \<open>Once the scheduler has been asked often enough, all chunks have been processed.\<close>

lemma run_covers:
  assumes "sched_wf s" "sched_at s 0" "I {} st" "chunks_no s \<le> length calls"
    and "\<And>t k st B. t \<in> fst ` set calls \<Longrightarrow> k < chunks_no s \<Longrightarrow> I B st \<Longrightarrow>
      \<exists>st'. work t (chunk s k) st = Inr st' \<and> I (B \<union> cover k) st'"
  shows "\<exists>st'. run calls s st = Inr st' \<and> I (\<Union> (cover ` {..<chunks_no s})) st'"
proof -
  let ?n = "chunks_no s" and ?es = "map (expired s \<circ> snd) calls"
  have bound: "0 < n \<Longrightarrow> Some k \<in> set (fst (cycles n es j)) \<Longrightarrow> k < n" for n es j k
    by (induction es arbitrary: j) (auto simp: case_prod_beta cycle.simps split: if_splits)
  have "cycles ?n (take ?n ?es) 0 = (map Some [0..<?n], ?n)"
    using assms(4) cycles_pass [of 0 "take ?n ?es" ?n] by simp
  then have eq: "fst (cycles ?n ?es 0) = map Some [0..<?n] @ fst (cycles ?n (drop ?n ?es) ?n)"
    using cycles_append [of ?n "take ?n ?es" "drop ?n ?es" 0]
    by (simp add: case_prod_beta del: take_map drop_map)
  have "k < ?n \<Longrightarrow> Some k \<in> set (fst (cycles ?n ?es 0))" for k
    by (subst eq) simp
  then have "{k. Some k \<in> set (fst (cycles ?n ?es 0))} = {..<?n}"
    using bound [OF chunks_no_pos [OF assms(1)]] by blast
  then show ?thesis
    using run_ok [OF assms(1-3,5), where calls = calls] by simp
qed

end

interpretation encode_worker: worker
  "\<lambda>t wi (tots, mem). and_then (encode_item (p t) wi 0 0 (tots t) mem) (\<lambda>(tot, mem'). Inr (tots(t := tot), mem'))"
  "\<lambda>calls s (tots, mem). run_encode p calls s tots mem"
  for p
  by unfold_locales
     (auto simp: and_then_def split: prod.splits option.splits sum.splits)

interpretation decode_worker: worker
  "\<lambda>t wi (tots, mem). and_then (decode_item (p t) wi 0 0 0 mem)
     (\<lambda>(job_out, mem'). Inr (tots(t := (tots t + job_out) mod 2 ^ 64), mem'))"
  "\<lambda>calls s (tots, mem). run_decode p calls s tots mem"
  for p
  by unfold_locales
     (auto simp: and_then_def split: prod.splits option.splits sum.splits)

text \<open>The blocks of the chunks.\<close>

definition chunk_blocks :: "scheduler \<Rightarrow> nat \<Rightarrow> nat \<Rightarrow> nat set" where
  "chunk_blocks s N k =
    (let c = work_size s div block_size s in {k * c..<k * c + min c (N - k * c)})"

lemma chunk_item_blocks:
  assumes "sched_wf s" "s_in s = 0" "s_out s = 0" "s_metadata s = 0" "block_size s = w"
    and "\<And>b. b * w < s_size s \<longleftrightarrow> b < N" "\<And>b. b < N \<Longrightarrow> min (s_size s - b * w) bs = n b"
    and "bs \<le> w"
  shows "item_blocks w bs n (chunk s k) (k * (work_size s div w))
    (min (work_size s div w) (N - k * (work_size s div w)))"
proof -
  have w: "0 < w" using assms(1,5) by (simp add: sched_wf_def)
  define c where "c = work_size s div w"
  have ws: "work_size s = c * w"
    using assms(1,5) by (simp add: sched_wf_def c_def)
  have in_chunk: "i * w < min (work_size s) (s_size s - k * work_size s) \<longleftrightarrow>
      i < min c (N - k * c)" for i
  proof -
    have "i * w < work_size s \<longleftrightarrow> i < c" using ws w by simp
    moreover have "i * w < s_size s - k * work_size s \<longleftrightarrow> i * w + k * (c * w) < s_size s"
      unfolding ws by (rule less_diff_conv)
    moreover have "i * w + k * (c * w) = (k * c + i) * w" by (simp add: algebra_simps)
    moreover have "(k * c + i) * w < s_size s \<longleftrightarrow> i < N - k * c"
      unfolding assms(6) by auto
    ultimately show ?thesis by simp
  qed
  have size: "min (min (work_size s) (s_size s - k * work_size s) - i * w) bs = n (k * c + i)"
    if i: "i < min c (N - k * c)" for i
  proof -
    have "Suc i * w \<le> c * w" using i by (intro mult_le_mono1) simp
    then have "i * w + w \<le> work_size s" using ws by simp
    then have "min (min (work_size s) (s_size s - k * work_size s) - i * w) bs =
        min (s_size s - k * work_size s - i * w) bs"
      using assms(8) by (auto simp: min_def)
    also have "s_size s - k * work_size s - i * w = s_size s - (k * c + i) * w"
      unfolding ws by (simp add: algebra_simps)
    finally show ?thesis using assms(7) [of "k * c + i"] i by simp
  qed
  show ?thesis
    unfolding c_def [symmetric] using in_chunk size ws w by (auto simp: item_blocks_def chunk_def assms(2-5))
qed

lemma chunk_blocks_cover:
  assumes "sched_wf s" "\<And>b. b * block_size s < s_size s \<longleftrightarrow> b < N"
  shows "\<Union> (chunk_blocks s N ` {..<chunks_no s}) = {..<N}"
proof (intro equalityI subsetI)
  fix b assume "b \<in> \<Union> (chunk_blocks s N ` {..<chunks_no s})"
  then show "b \<in> {..<N}" by (auto simp: chunk_blocks_def Let_def)
next
  define c where "c = work_size s div block_size s"
  have ws: "work_size s = c * block_size s" and c: "0 < c"
    using assms(1) by (auto simp: sched_wf_def c_def dvd_div_eq_0_iff intro!: Nat.gr0I)
  fix b assume "b \<in> {..<N}"
  then have "b < N" by simp
  let ?k = "b div c"
  have k: "?k * c \<le> b" "b < ?k * c + c"
    using c dividend_less_div_times [of c b] by (simp_all add: add.commute)
  have "?k * work_size s \<le> b * block_size s"
    unfolding ws mult.assoc [symmetric] using k(1) by (rule mult_le_mono1)
  also have "\<dots> < s_size s" using assms(2) \<open>b < N\<close> by simp
  finally have "?k < chunks_no s" by (simp add: less_chunks_no [OF assms(1)])
  moreover have "b \<in> chunk_blocks s N ?k"
    using k \<open>b < N\<close> by (simp add: chunk_blocks_def Let_def c_def [symmetric])
  ultimately show "b \<in> \<Union> (chunk_blocks s N ` {..<chunks_no s})" by blast
qed

text \<open>The threads have ended: one of them has got -1.\<close>

definition threads_done :: "scheduler \<Rightarrow> (nat \<times> timespec) list \<Rightarrow> bool" where
  "threads_done s calls \<longleftrightarrow> None \<in> set (fst (getChunks (map snd calls) s))"

text \<open>The requests of \<open>n\<close> threads, in the order in which they get the lock of the scheduler.\<close>

definition ran_by :: "nat \<Rightarrow> scheduler \<Rightarrow> (nat \<times> timespec) list \<Rightarrow> bool" where
  "ran_by n s calls \<longleftrightarrow> threads_done s calls \<and> (\<forall>(i, now)\<in>set calls. i < n)"

lemma ran_by_thread: "ran_by n s calls \<Longrightarrow> i \<in> fst ` set calls \<Longrightarrow> i < n"
  by (auto simp: ran_by_def)

lemma ran_by_done: "ran_by n s calls \<Longrightarrow> threads_done s calls"
  by (simp add: ran_by_def)

lemma threads_done_covers:
  assumes "sched_wf s" "sched_at s 0" "threads_done s calls"
  shows "chunks_no s \<le> length calls"
proof (rule ccontr)
  assume less: "\<not> ?thesis"
  obtain s' where "getChunks (map snd calls) s =
      (map (map_option (chunk s)) (fst (cycles (chunks_no s) (map (expired s) (map snd calls)) 0)), s')"
    by (rule getChunks_cycles [OF assms(1,2)])
  moreover have "fst (cycles (chunks_no s) (map (expired s) (map snd calls)) 0) = map Some [0..<length calls]"
    using less cycles_pass [of 0 "map (expired s) (map snd calls)" "chunks_no s"] by simp
  ultimately show False using assms(3) by (auto simp: threads_done_def)
qed

subsection \<open>The layout is right\<close>

definition block_data :: "tester \<Rightarrow> nat \<Rightarrow> byte list" where
  "block_data t b = take (t_bsize t) (drop (b * t_bsize t) (inbuf t))"

lemma fold_max_ge: "m \<le> fold (\<lambda>f m. max m (f x)) fs (m :: nat)"
  by (induction fs arbitrary: m) (auto intro: order_trans [OF max.cobounded1])

lemma fold_max_less: "m < c \<Longrightarrow> \<forall>f\<in>set fs. f x < c \<Longrightarrow> fold (\<lambda>f m. max m (f x)) fs (m :: nat) < c"
  by (induction fs arbitrary: m) auto

definition tester_ok :: "tester \<Rightarrow> bool" where
  "tester_ok t \<longleftrightarrow>
    0 < t_bsize t \<and> t_bsize t \<le> workbuf_block_size t \<and> 0 < blocks_no t \<and>
    (blocks_no t - 1) * t_bsize t < input_size t \<and> input_size t \<le> blocks_no t * t_bsize t \<and>
    workbuf_size t = blocks_no t * workbuf_block_size t \<and> length (inbuf t) = input_size t \<and>
    input_crc t = crc (inbuf t) 0 \<and> input_size t + t_bsize t \<le> SIZE_MAX"

lemma new_tester_ok:
  assumes "new_tester max_sizes file bs threads = Inr t" "length file < 2 ^ 62"
    and "\<forall>f\<in>set max_sizes. f (t_bsize t) < 2 ^ 62"
  shows "tester_ok t"
proof -
  let ?L = "length file" and ?bs = "min bs (length file)"
  have L: "0 < ?L" using assms(1) by (auto simp: new_tester_def split: if_splits)
  obtain r w where r: "round_up ?L ?bs = Some r"
    and w: "round_up (fold (\<lambda>f m. max m (f ?bs)) max_sizes ?bs + OVERRUN_PAD) ALIGNMENT = Some w"
    and t: "t = \<lparr>input_size = ?L, t_bsize = ?bs, blocks_no = r div ?bs,
       threads_no = min threads (r div ?bs), workbuf_block_size = w, workbuf_size = w * (r div ?bs),
       inbuf = file, input_crc = crc file 0\<rparr>"
    using assms(1) L by (auto simp: new_tester_def Let_def and_then_Inr_iff or_error_Inr_iff)
  have bs: "0 < ?bs" using r L by (auto simp: round_up_def split: if_splits)
  have fits: "?L + ?bs \<le> SIZE_MAX" using assms(2) by (simp add: SIZE_MAX_def)
  have rb: "?L \<le> r" "r < ?L + ?bs" "?bs dvd r" using round_up_bounds [OF r fits] by auto
  then obtain N where N: "r = N * ?bs" by (metis dvdE mult.commute)
  then have N_eq: "r div ?bs = N" using bs by simp
  have "N \<noteq> 0" using N rb(1) L by (intro notI) simp
  moreover have "(N - 1) * ?bs < ?L" using rb(2) unfolding N by (simp add: diff_mult_distrib)
  moreover have "?L \<le> N * ?bs" using rb(1) unfolding N .
  moreover have "?bs \<le> w"
  proof -
    have "fold (\<lambda>f m. max m (f ?bs)) max_sizes ?bs < 2 ^ 62"
      using assms(2,3) t by (intro fold_max_less) auto
    then have "fold (\<lambda>f m. max m (f ?bs)) max_sizes ?bs + OVERRUN_PAD + ALIGNMENT \<le> SIZE_MAX"
      by (simp add: SIZE_MAX_def OVERRUN_PAD_def ALIGNMENT_def)
    from round_up_bounds(2) [OF w this] show ?thesis
      using fold_max_ge [of ?bs ?bs max_sizes] by linarith
  qed
  ultimately show ?thesis
    using t bs fits by (simp add: tester_ok_def N_eq)
qed

lemma length_block_data:
  "tester_ok t \<Longrightarrow> length (block_data t b) = min (t_bsize t) (input_size t - b * t_bsize t)"
  by (simp add: block_data_def tester_ok_def min.commute)

lemma block_data_pos: "tester_ok t \<Longrightarrow> b < blocks_no t \<Longrightarrow> 0 < length (block_data t b)"
proof -
  assume ok: "tester_ok t" and "b < blocks_no t"
  then have "b * t_bsize t \<le> (blocks_no t - 1) * t_bsize t" by (intro mult_le_mono1) simp
  then have "b * t_bsize t < input_size t"
    using ok unfolding tester_ok_def by (elim conjE) (rule le_less_trans)
  then show ?thesis using ok by (simp add: length_block_data) (simp add: tester_ok_def)
qed

lemma round_up_blocks:
  assumes "tester_ok t"
  shows "round_up (input_size t) (t_bsize t) = Some (blocks_no t * t_bsize t)"
proof -
  have ok: "0 < t_bsize t" "0 < blocks_no t" "(blocks_no t - 1) * t_bsize t < input_size t"
    "input_size t \<le> blocks_no t * t_bsize t" "input_size t + t_bsize t \<le> SIZE_MAX"
    using assms by (simp_all add: tester_ok_def)
  obtain r where r: "round_up (input_size t) (t_bsize t) = Some r" "t_bsize t dvd r" "input_size t \<le> r"
    "\<And>m. t_bsize t dvd m \<Longrightarrow> input_size t \<le> m \<Longrightarrow> r \<le> m"
    by (rule round_up_least [OF ok(1,5)]) blast
  obtain k where k: "r = k * t_bsize t" using r(2) by (metis dvdE mult.commute)
  have "(blocks_no t - 1) * t_bsize t < k * t_bsize t" using ok(3) r(3) k by linarith
  then have "blocks_no t - 1 < k" by (simp only: mult_less_cancel2)
  then have "blocks_no t \<le> k" using ok(2) by simp
  then have "blocks_no t * t_bsize t \<le> r" unfolding k by (rule mult_le_mono1)
  moreover have "r \<le> blocks_no t * t_bsize t" using r(4) ok(4) by simp
  ultimately show ?thesis using r(1) by simp
qed

lemma blocks_below:
  assumes "N = Suc M" "M * w < S" "S \<le> N * w"
  shows "b * w < S \<longleftrightarrow> b < (N :: nat)"
proof (cases "b < N")
  case True
  then have "b * w \<le> M * w" using assms(1) by (intro mult_le_mono1) simp
  then have "b * w < S" using assms(2) by (rule le_less_trans)
  then show ?thesis using True by simp
next
  case False
  then have "N * w \<le> b * w" by (intro mult_le_mono1) simp
  then have "S \<le> b * w" using assms(3) by linarith
  then show ?thesis using False by simp
qed

lemma size_in_blocks_layout:
  assumes "tester_ok t"
  obtains S where "size_in_blocks t = Some S" "0 < S" "S \<le> workbuf_size t"
    "\<And>b. b * workbuf_block_size t < S \<longleftrightarrow> b < blocks_no t"
    "\<And>b. b < blocks_no t \<Longrightarrow> min (S - b * workbuf_block_size t) (t_bsize t) = length (block_data t b)"
proof -
  define L bs w N where "L = input_size t" and "bs = t_bsize t" and "w = workbuf_block_size t"
    and "N = blocks_no t"
  note defs = this
  have ok: "0 < bs" "bs \<le> w" "0 < N" "(N - 1) * bs < L" "L \<le> N * bs" "workbuf_size t = N * w"
    "L + bs \<le> SIZE_MAX"
    using assms by (simp_all add: tester_ok_def defs)
  obtain M where M: "N = Suc M" using ok(3) by (cases N) simp_all
  define x where "x = (if L = N * bs then w else L - M * bs)"
  have x: "0 < x" "x \<le> w" "min x bs = L - M * bs"
    using ok M by (auto simp: x_def)
  define S where "S = M * w + x"
  have "(w - bs) * M + M * bs = M * (w - bs + bs)"
    by (simp only: distrib_left mult.commute)
  then have "(w - bs) * M + M * bs = M * w"
    using ok(2) by simp
  then have "L + (w - bs) * (if N * bs = L then N else N - 1) = S"
    using ok M by (auto simp: S_def x_def algebra_simps)
  moreover have "size_in_blocks t = Some (L + (w - bs) * (if N * bs = L then N else N - 1))"
    using round_up_blocks [OF assms] by (simp add: size_in_blocks_def defs)
  ultimately have "size_in_blocks t = Some S" by simp
  moreover have S: "S \<le> N * w" "M * w < S" using x M by (simp_all add: S_def)
  moreover have "b * w < S \<longleftrightarrow> b < N" for b by (rule blocks_below [OF M S(2,1)])
  moreover have "min (S - b * w) bs = length (block_data t b)" if "b < N" for b
  proof (cases "b = M")
    case True
    then show ?thesis using x ok M by (simp add: length_block_data [OF assms] defs [symmetric] S_def)
  next
    case False
    then have "Suc b \<le> M" using that M by simp
    then have "Suc b * w \<le> M * w" "Suc b * bs \<le> M * bs" by (rule mult_le_mono1)+
    then have "w + b * w \<le> S" "bs + b * bs \<le> L" using S(2) ok(4) M by simp_all
    then have "w \<le> S - b * w" "bs \<le> L - b * bs" by linarith+
    then show ?thesis using ok(2) by (simp add: length_block_data [OF assms] defs [symmetric])
  qed
  ultimately show ?thesis
    using that [of S] x ok(6) by (simp add: defs)
qed

lemma load_blk: "n \<le> w \<Longrightarrow> load mem (b * w) n = take n (blk w mem b)"
  by (simp add: load_def)

text \<open>Where the loop has copied \<open>xs\<close> from block \<open>k\<close> on: the blocks before are those of \<open>out\<close>.\<close>

definition copied :: "nat \<Rightarrow> nat \<Rightarrow> nat \<Rightarrow> nat \<Rightarrow> byte list \<Rightarrow> byte list \<Rightarrow> byte list \<Rightarrow> bool" where
  "copied N k bs w xs out res \<longleftrightarrow> length res = N * w \<and>
    (\<forall>b<N. if b < k then blk w res b = blk w out b
      else let d = take bs (drop ((b - k) * bs) xs) in take (length d) (blk w res b) = d)"

lemma copied_step:
  assumes res: "copied N (Suc k) bs w (drop bs xs) (store out (k * w) (take bs xs)) res"
    and k: "k < N" and bs: "bs \<le> w" and out: "length out = N * w"
  shows "copied N k bs w xs out res"
proof -
  let ?d = "take bs xs"
  let ?out = "store out (k * w) ?d"
  have fits: "k * w + w \<le> N * w" by (rule block_end [OF k])
  have "if b < k then blk w res b = blk w out b
      else let d = take bs (drop ((b - k) * bs) xs) in take (length d) (blk w res b) = d" if b: "b < N" for b
  proof -
    have IH: "if b < Suc k then blk w res b = blk w ?out b
        else let d = take bs (drop ((b - Suc k) * bs) (drop bs xs)) in take (length d) (blk w res b) = d"
      using res b unfolding copied_def by blast
    consider "b < k" | "b = k" | "Suc k \<le> b" by linarith
    then show ?thesis
    proof cases
      case 1
      then have "b * w + w \<le> k * w" by (rule block_end)
      then have "blk w ?out b = blk w out b"
        using fits bs out block_end [OF b, of w] by (intro load_store_other) auto
      then show ?thesis using IH 1 by simp
    next
      case 2
      have "load ?out (k * w) (length ?d) = ?d" using fits bs out by (intro load_store_same) simp
      moreover have "length ?d \<le> w" using bs by simp
      ultimately have "take (length ?d) (blk w ?out k) = ?d" using load_blk [of "length ?d" w ?out k] by simp
      then show ?thesis using 2 IH by (simp add: Let_def)
    next
      case 3
      then have "b - k = Suc (b - Suc k)" by simp
      then have "drop ((b - Suc k) * bs) (drop bs xs) = drop ((b - k) * bs) xs" by (simp add: add.commute)
      then show ?thesis using IH 3 by simp
    qed
  qed
  then show ?thesis using res by (simp add: copied_def)
qed

lemma copy_input_loop_ok:
  assumes "length xs \<le> (N - k) * bs" "0 < bs" "bs \<le> w" "length out = N * w" "off = k * w"
  shows "copied N k bs w xs out (copy_input_loop xs off out bs w)"
  using assms
proof (induction xs off out bs w arbitrary: k rule: copy_input_loop.induct)
  case (1 xs off out bs w)
  show ?case
  proof (cases "xs = []")
    case True
    then show ?thesis using 1 by (simp add: copied_def copy_input_loop.simps [of "[]"])
  next
    case False
    have k: "k < N"
    proof (rule ccontr)
      assume "\<not> k < N"
      then have z: "(N - k) * bs = 0" by simp
      from 1(2) have "length xs \<le> 0" unfolding z .
      then show False using False by simp
    qed
    have fits: "off + w \<le> N * w" using block_end [OF k, of w] 1 by simp
    then have lo: "length (store out off (take bs xs)) = N * w" using 1 by simp
    have rest: "length (drop bs xs) \<le> (N - Suc k) * bs"
      using 1(2) k by (simp add: diff_mult_distrib le_diff_conv algebra_simps Suc_diff_le)
    have cond: "\<not> (xs = [] \<or> bs = 0)" using False 1(3) by simp
    have off: "off + w = Suc k * w" using 1(6) by simp
    from 1(1) [OF cond rest 1(3,4) lo off] have "copied N k bs w xs out
        (copy_input_loop (drop bs xs) (off + w) (store out off (take bs xs)) bs w)"
      unfolding 1(6) by (rule copied_step [OF _ k 1(4,5)])
    then show ?thesis using cond by (subst copy_input_loop.simps) simp
  qed
qed

lemma copy_input_buffer_ok:
  assumes "tester_ok t" "length buf = workbuf_size t"
  defines "buf' \<equiv> copy_input_buffer (inbuf t) buf (t_bsize t) (workbuf_block_size t)"
  shows "length buf' = workbuf_size t" and
    "b < blocks_no t \<Longrightarrow> take (length (block_data t b)) (blk (workbuf_block_size t) buf' b) = block_data t b"
  using copy_input_loop_ok [of "inbuf t" "blocks_no t" 0 "t_bsize t" "workbuf_block_size t" buf 0] assms
  by (simp_all add: copied_def tester_ok_def copy_input_buffer_def block_data_def Let_def)

lemma output_crc_ok:
  assumes "length buf = N * w" "0 < bs" "bs \<le> w" "off = k * w" "left = length xs - k * bs"
    and "length xs \<le> N * bs"
    and "\<And>b. k \<le> b \<Longrightarrow> b < N \<Longrightarrow>
      let d = take bs (drop (b * bs) xs) in take (length d) (blk w buf b) = d"
  shows "fst (output_crc off left buf bs w c) = crc (drop (k * bs) xs) c"
  using assms
proof (induction off left buf bs w c arbitrary: k rule: output_crc.induct)
  case (1 off left buf bs w c)
  show ?case
  proof (cases "left = 0")
    case True
    then show ?thesis using 1 by (simp add: output_crc.simps [of _ 0])
  next
    case False
    let ?n = "min left bs" and ?d = "take bs (drop (k * bs) xs)"
    let ?buf = "store buf off (replicate ?n 0)"
    have "k * bs < N * bs" using False 1(6,7) by linarith
    then have k: "k < N" by (simp only: mult_less_cancel2)
    have fits: "off + w \<le> N * w" using block_end [OF k, of w] 1(5) by simp
    have n: "?n = length ?d" "?n \<le> w" using 1 by simp_all
    have data: "load buf off ?n = ?d"
      using load_blk [OF n(2), of buf k] 1(8) [of k] k 1(5) n(1) by (simp add: Let_def)
    have others: "let d = take bs (drop (b * bs) xs) in take (length d) (blk w ?buf b) = d"
      if "Suc k \<le> b" "b < N" for b
    proof -
      have "off + w \<le> b * w" using block_end [of k b w] that 1(5) by simp
      then have "blk w ?buf b = blk w buf b"
        using fits n(2) 1(2) block_end [OF that(2), of w] by (intro load_store_other) auto
      then show ?thesis using 1(8) [of b] that by simp
    qed
    have IH: "fst (output_crc (off + w) (left - ?n) ?buf bs w (crc (load buf off ?n) c)) =
        crc (drop (Suc k * bs) xs) (crc (load buf off ?n) c)"
    proof (rule 1(1) [of ?n "Suc k", OF _ refl])
      show "length ?buf = N * w" using fits n(2) 1(2) by simp
      show "off + w = Suc k * w" using 1(5) by simp
      show "left - ?n = length xs - Suc k * bs" using 1(6) by simp
    qed (use False 1(3,4,7) others in auto)
    have "fst (output_crc off left buf bs w c) =
        fst (output_crc (off + w) (left - ?n) ?buf bs w (crc ?d c))"
      by (subst output_crc.simps) (use False 1(3) data in \<open>simp only: Let_def if_False de_Morgan_disj simp_thms, simp\<close>)
    also have "\<dots> = crc (drop (Suc k * bs) xs) (crc ?d c)"
      using IH data by simp
    also have "\<dots> = crc (drop (k * bs) xs) c"
      using crc_append [of ?d "drop (Suc k * bs) xs" c]
      by (metis add.commute append_take_drop_id drop_drop mult_Suc)
    finally show ?thesis .
  qed
qed

subsection \<open>The threads as a whole\<close>

definition sched_from_start :: "scheduler \<Rightarrow> nat \<Rightarrow> nat \<Rightarrow> bool" where
  "sched_from_start s w N \<longleftrightarrow>
    sched_wf s \<and> sched_at s 0 \<and> s_in s = 0 \<and> s_out s = 0 \<and> s_metadata s = 0 \<and> block_size s = w \<and>
    (\<forall>b. b * w < s_size s \<longleftrightarrow> b < N)"

lemma new_sched_from_start:
  assumes "new_scheduler 0 0 0 S w m start iter = Some s"
    and "0 < S" "S < 2 ^ 64" "S \<le> N * w" "N < 2 ^ 32" "0 < m" "m + w < 2 ^ 64"
    and "\<And>b. b * w < S \<longleftrightarrow> b < N"
  shows "sched_from_start s w N" and "s_size s = S"
proof -
  have "0 < w" using assms(1) by (auto simp: new_scheduler_def split: if_splits)
  then have "N * w < 2 ^ 32 * w" using assms(5) by simp
  then have "S < 2 ^ 32 * w" using assms(4) by linarith
  then have "sched_wf s" using new_scheduler_wf [OF assms(1)] assms by blast
  moreover have fields: "s_in s = 0" "s_out s = 0" "s_metadata s = 0" "block_size s = w" "s_size s = S"
    using assms(1) by (auto simp: new_scheduler_def split: if_splits)
  ultimately show "sched_from_start s w N"
    using new_scheduler_at [OF assms(1)] assms(8) by (simp add: sched_from_start_def)
  show "s_size s = S" by (rule fields(5))
qed

text \<open>
  When the threads are done, the blocks have all been processed: it is enough that the body of the
  loop keeps an invariant, for the parameters of every thread.
\<close>

lemma run_encode_ok:
  assumes s: "sched_from_start s w N" and fin: "threads_done s calls"
    and len: "\<forall>b<N. min (s_size s - b * w) bs = n b" and bs: "bs \<le> w"
    and p: "\<And>t. ep_workbsize (p t) = w"
    and step: "\<And>t wi b0 m i tot mem B. t \<in> fst ` set calls \<Longrightarrow> item_blocks w bs n wi b0 m \<Longrightarrow> i < m \<Longrightarrow> b0 + m \<le> N \<Longrightarrow> Inv B mem \<Longrightarrow>
      \<exists>tot' mem'. encode_block (p t) wi (i * w) i tot mem = Inr (tot', mem') \<and> Inv (insert (b0 + i) B) mem'"
    and inv: "Inv {} mem"
  shows "\<exists>tots' mem'. run_encode p calls s tots mem = Inr (tots', mem') \<and> Inv {..<N} mem'"
proof -
  have wf: "sched_wf s" "sched_at s 0" and w: "0 < w"
    using s by (auto simp: sched_from_start_def sched_wf_def)
  have at: "s_in s = 0" "s_out s = 0" "s_metadata s = 0" "block_size s = w"
    and blocks: "\<And>b. b * w < s_size s \<longleftrightarrow> b < N"
    using s by (simp_all add: sched_from_start_def)
  let ?I = "\<lambda>B (tots, mem). Inv B mem"
  let ?work = "\<lambda>t wi (tots, mem). and_then (encode_item (p t) wi 0 0 (tots t) mem)
      (\<lambda>(tot, mem'). Inr (tots(t := tot), mem'))"
  have item: "\<exists>st'. ?work t (chunk s k) st = Inr st' \<and> ?I (B \<union> chunk_blocks s N k) st'"
    if call: "t \<in> fst ` set calls" and I: "?I B st" for t k st B
  proof -
    obtain tots0 mem0 where st: "st = (tots0, mem0)" by (cases st)
    let ?c = "work_size s div w"
    let ?m = "min ?c (N - k * ?c)"
    have items: "item_blocks w bs n (chunk s k) (k * ?c) ?m"
      using chunk_item_blocks [OF wf(1) at blocks _ bs, of n] len by simp
    show ?thesis
    proof (cases "k * ?c \<le> N")
      case True
      then have le: "k * ?c + ?m \<le> N" by simp
      have "Inv B mem0" using I st by simp
      from encode_item_ok [where Inv = Inv and p = "p t", OF items w p step [OF call items _ le] this, where i = 0 and tot = "tots0 t"]
      show ?thesis by (auto simp: st chunk_blocks_def at Let_def)
    next
      case False
      then have "\<not> 0 < wi_isize (chunk s k)" using items by (auto simp: item_blocks_def dest: spec [of _ 0])
      then show ?thesis
        using I False by (simp add: st encode_item.simps chunk_blocks_def at Let_def)
    qed
  qed
  have "chunks_no s \<le> length calls"
    by (rule threads_done_covers [OF wf fin])
  have "\<exists>st'. (case (tots, mem) of (tots, mem) \<Rightarrow> run_encode p calls s tots mem) = Inr st' \<and>
      ?I (\<Union> (chunk_blocks s N ` {..<chunks_no s})) st'"
    by (rule encode_worker.run_covers [OF wf _ \<open>chunks_no s \<le> length calls\<close>]) (simp add: inv, rule item)
  then show ?thesis
    using chunk_blocks_cover [of s N] wf(1) blocks at(4) by simp
qed

lemma run_decode_ok:
  assumes s: "sched_from_start s w N" and fin: "threads_done s calls" and size: "s_size s = N * w"
    and bs: "bs \<le> w" and p: "\<And>t. dp_workbsize (p t) = w"
    and step: "\<And>t wi b0 m i job_out mem B. t \<in> fst ` set calls \<Longrightarrow> item_blocks w bs (\<lambda>_. bs) wi b0 m \<Longrightarrow> i < m \<Longrightarrow> b0 + m \<le> N \<Longrightarrow> Inv B mem \<Longrightarrow>
      \<exists>job_out' mem'. decode_block (p t) wi i job_out mem = Inr (job_out', mem') \<and> Inv (insert (b0 + i) B) mem'"
    and inv: "Inv {} mem"
  shows "\<exists>tots' mem'. run_decode p calls s tots mem = Inr (tots', mem') \<and> Inv {..<N} mem'"
proof -
  have wf: "sched_wf s" "sched_at s 0" and w: "0 < w"
    using s by (auto simp: sched_from_start_def sched_wf_def)
  have at: "s_in s = 0" "s_out s = 0" "s_metadata s = 0" "block_size s = w"
    and blocks: "\<And>b. b * w < s_size s \<longleftrightarrow> b < N"
    using s by (simp_all add: sched_from_start_def)
  have full: "min (s_size s - b * w) bs = bs" if "b < N" for b
    using block_end [OF that, of w] bs size by simp
  let ?I = "\<lambda>B (tots, mem). Inv B mem"
  let ?work = "\<lambda>t wi (tots, mem). and_then (decode_item (p t) wi 0 0 0 mem)
      (\<lambda>(job_out, mem'). Inr (tots(t := (tots t + job_out) mod 2 ^ 64), mem'))"
  have item: "\<exists>st'. ?work t (chunk s k) st = Inr st' \<and> ?I (B \<union> chunk_blocks s N k) st'"
    if call: "t \<in> fst ` set calls" and I: "?I B st" for t k st B
  proof -
    obtain tots0 mem0 where st: "st = (tots0, mem0)" by (cases st)
    let ?c = "work_size s div w"
    let ?m = "min ?c (N - k * ?c)"
    have items: "item_blocks w bs (\<lambda>_. bs) (chunk s k) (k * ?c) ?m"
      using chunk_item_blocks [OF wf(1) at blocks full bs] by simp
    show ?thesis
    proof (cases "k * ?c \<le> N")
      case True
      then have le: "k * ?c + ?m \<le> N" by simp
      have "Inv B mem0" using I st by simp
      from decode_item_ok [where Inv = Inv and p = "p t", OF items w p step [OF call items _ le] this, where i = 0 and job_out = 0]
      show ?thesis by (auto simp: st chunk_blocks_def at Let_def)
    next
      case False
      then have "\<not> 0 < wi_isize (chunk s k)" using items by (auto simp: item_blocks_def dest: spec [of _ 0])
      then show ?thesis
        using I False by (simp add: st decode_item.simps chunk_blocks_def at Let_def)
    qed
  qed
  have "chunks_no s \<le> length calls"
    by (rule threads_done_covers [OF wf fin])
  have "\<exists>st'. (case (tots, mem) of (tots, mem) \<Rightarrow> run_decode p calls s tots mem) = Inr st' \<and>
      ?I (\<Union> (chunk_blocks s N ` {..<chunks_no s})) st'"
    by (rule decode_worker.run_covers [OF wf _ \<open>chunks_no s \<le> length calls\<close>]) (simp add: inv, rule item)
  then show ?thesis
    using chunk_blocks_cover [of s N] wf(1) blocks at(4) by simp
qed

subsection \<open>The verification accepts every lossless codec\<close>

text \<open>
  A test of a codec that moves its data, with the settings that \<open>main\<close> accepts and \<open>-v\<close>. The threads
  may have different coding functions, as their parameters differ; a block may be decoded by another
  thread than it was encoded by.
\<close>

definition moving_test :: "tester \<Rightarrow> test_params \<Rightarrow> bool" where
  "moving_test t tp \<longleftrightarrow>
    (\<exists>caps decs. (\<forall>i<threads_no t. moving_codec (tp_encoder tp i) decs (workbuf_block_size t) (t_bsize t) caps \<and>
        tp_decoder tp i \<in> decs) \<and> limits_in caps (t_bsize t) (tp_ssize tp)) \<and>
    tp_encode_type tp = moving \<and> tp_decode_type tp = moving \<and> tp_verify tp \<and>
    0 < tp_ssize tp \<and> 0 < tp_overhead_iters tp \<and> 0 < tp_job_size tp \<and> tp_job_size tp < 2 ^ 62"

lemma moving_testI:
  assumes "\<And>i. i < threads_no t \<Longrightarrow> moving_codec (tp_encoder tp i) {tp_decoder tp i} (workbuf_block_size t) (t_bsize t) caps"
    and "\<And>i. i < threads_no t \<Longrightarrow> tp_decoder tp i = dec" "limits_in caps (t_bsize t) (tp_ssize tp)"
    and "tp_encode_type tp = moving" "tp_decode_type tp = moving" "tp_verify tp"
      "0 < tp_ssize tp" "0 < tp_overhead_iters tp" "0 < tp_job_size tp" "tp_job_size tp < 2 ^ 62"
  shows "moving_test t tp"
proof -
  have "moving_codec (tp_encoder tp i) {dec} (workbuf_block_size t) (t_bsize t) caps \<and> tp_decoder tp i \<in> {dec}"
    if "i < threads_no t" for i
    using assms(1) [OF that] assms(2) [OF that] by simp
  then show ?thesis unfolding moving_test_def using assms(3-) by blast
qed

lemma enc_inv_decodes:
  assumes "enc_inv decs N w bs d {..<N} mem" "length zeros = N * w"
  shows "dec_inv decs N w bs d {} (mem\<lparr>in_buf := out_buf mem, out_buf := zeros\<rparr>)"
  using assms by (simp add: enc_inv_def dec_inv_def mem_ok_def)

lemma verify_codec_ok:
  assumes "tester_ok t" "dec_inv decs (blocks_no t) (workbuf_block_size t) (t_bsize t) (block_data t)
      {..<blocks_no t} mem" "tp_decode_type tp = moving"
  shows "verify_codec t tp mem"
  using output_crc_ok [of "out_buf mem" "blocks_no t" "workbuf_block_size t" "t_bsize t" 0 0
      "input_size t" "inbuf t" 0] assms
  by (simp add: verify_codec_def check_decoding_def tester_ok_def dec_inv_def mem_ok_def
      block_data_def Let_def)

text \<open>What the schedulers of an iteration see of the layout.\<close>

definition test_layout :: "tester \<Rightarrow> scheduler \<Rightarrow> scheduler \<Rightarrow> bool" where
  "test_layout t cs ds \<longleftrightarrow> tester_ok t \<and> 0 < workbuf_block_size t \<and> workbuf_block_size t \<le> SIZE_MAX - 20 \<and>
    (\<forall>b<blocks_no t. 0 < length (block_data t b) \<and> length (block_data t b) \<le> t_bsize t) \<and>
    sched_from_start cs (workbuf_block_size t) (blocks_no t) \<and>
    (\<forall>b<blocks_no t. min (s_size cs - b * workbuf_block_size t) (t_bsize t) = length (block_data t b)) \<and>
    sched_from_start ds (workbuf_block_size t) (blocks_no t) \<and> s_size ds = blocks_no t * workbuf_block_size t"

lemma test_layoutI:
  assumes tester: "new_tester max_sizes file desired_bsize threads = Inr t"
    and sizes: "length file < 2 ^ 62" "\<forall>f\<in>set max_sizes. f (t_bsize t) < 2 ^ 62"
      "workbuf_size t < 2 ^ 62" "blocks_no t < 2 ^ 32"
    and job: "0 < tp_job_size tp" "tp_job_size tp < 2 ^ 62"
    and scheds: "compression_scheduler t tp cstart = Some cs" "decompression_scheduler t tp dstart = Some ds"
  shows "test_layout t cs ds"
proof -
  let ?N = "blocks_no t" and ?w = "workbuf_block_size t" and ?bs = "t_bsize t"
  note ok = new_tester_ok [OF tester sizes(1,2)]
  have t: "0 < ?bs" "?bs \<le> ?w" "0 < ?N" "workbuf_size t = ?N * ?w"
    using ok by (simp_all add: tester_ok_def)
  have "1 * ?w \<le> ?N * ?w" using t(3) by (intro mult_le_mono1) simp
  then have "?w \<le> workbuf_size t" using t(4) by (simp only: mult_1)
  then have w: "?w < 2 ^ 62" using sizes(3) by (rule le_less_trans)
  have data: "\<forall>b<?N. 0 < length (block_data t b) \<and> length (block_data t b) \<le> ?bs"
    using block_data_pos [OF ok] length_block_data [OF ok] by simp
  obtain S where S: "size_in_blocks t = Some S" "0 < S" "S \<le> workbuf_size t"
    "\<And>b. b * ?w < S \<longleftrightarrow> b < ?N" "\<And>b. b < ?N \<Longrightarrow> min (S - b * ?w) ?bs = length (block_data t b)"
    by (rule size_in_blocks_layout [OF ok]) blast
  have cs: "new_scheduler 0 0 0 S ?w (tp_job_size tp) cstart (tp_iter_time tp) = Some cs"
    using scheds(1) S(1) by (simp add: compression_scheduler_def)
  have from_start: "sched_from_start cs ?w ?N" "s_size cs = S"
    using new_sched_from_start [OF cs S(2) _ _ sizes(4) job(1) _ S(4)] S(3) sizes(3) t(4) job(2) w
    by simp_all
  have ds: "new_scheduler 0 0 0 (workbuf_size t) ?w (tp_job_size tp) dstart (tp_iter_time tp) = Some ds"
    using scheds(2) by (simp add: decompression_scheduler_def)
  have "0 < ?w" "0 < workbuf_size t" using t by simp_all
  then have from_start2: "sched_from_start ds ?w ?N" "s_size ds = ?N * ?w"
    using new_sched_from_start [OF ds _ _ _ sizes(4) job(1)] sizes(3) t(4) job(2) w by simp_all
  show ?thesis
    using ok t w data S(5) from_start from_start2 by (simp add: test_layout_def SIZE_MAX_def)
qed

lemma copied_input_ok:
  assumes "test_layout t cs ds" "mem_ok (blocks_no t) (workbuf_block_size t) mem"
  shows "enc_inv decs (blocks_no t) (workbuf_block_size t) (t_bsize t) (block_data t) {}
    (mem\<lparr>in_buf := copy_input_buffer (inbuf t) (in_buf mem) (t_bsize t) (workbuf_block_size t)\<rparr>)"
  using copy_input_buffer_ok [of t "in_buf mem"] assms
  by (simp add: enc_inv_def mem_ok_def test_layout_def tester_ok_def)

lemma test_moving:
  assumes layout: "test_layout t cs ds" and test: "moving_test t tp"
    and mem: "mem_ok (blocks_no t) (workbuf_block_size t) mem"
    and encoding: "compression_scheduler t tp cstart = Some cs" "ran_by (threads_no t) cs ccalls"
    and decoding: "decompression_scheduler t tp dstart = Some ds" "ran_by (threads_no t) ds dcalls"
  shows "\<exists>ctots dtots mem'.
    test_iteration t tp cstart ccalls dstart dcalls mem = Inr (ctots, dtots, mem') \<and>
    verify_codec t tp mem' \<and> mem_ok (blocks_no t) (workbuf_block_size t) mem'"
proof -
  let ?N = "blocks_no t" and ?w = "workbuf_block_size t" and ?bs = "t_bsize t" and ?d = "block_data t"
  obtain caps decs where limits: "limits_in caps ?bs (tp_ssize tp)" and
    codec: "\<And>i. i < threads_no t \<Longrightarrow> moving_codec (tp_encoder tp i) decs ?w ?bs caps"
      "\<And>i. i < threads_no t \<Longrightarrow> tp_decoder tp i \<in> decs" and
    tp: "tp_encode_type tp = moving" "tp_decode_type tp = moving" "tp_verify tp" "0 < tp_ssize tp"
    "0 < tp_overhead_iters tp"
    using test by (auto simp: moving_test_def)
  have ok: "tester_ok t" and w: "0 < ?w" "?w \<le> SIZE_MAX - 20" and t: "?bs \<le> ?w" "workbuf_size t = ?N * ?w"
    and data: "\<forall>b<?N. 0 < length (?d b) \<and> length (?d b) \<le> ?bs"
    and cs: "sched_from_start cs ?w ?N" "\<forall>b<?N. min (s_size cs - b * ?w) ?bs = (length \<circ> ?d) b"
    and ds: "sched_from_start ds ?w ?N" "s_size ds = ?N * ?w"
    using layout by (simp_all add: test_layout_def tester_ok_def)
  let ?p = "prepareEncoderData t tp" and ?q = "prepareDecoderData t tp"
  let ?mem0 = "mem\<lparr>in_buf := copy_input_buffer (inbuf t) (in_buf mem) ?bs ?w\<rparr>"
  have p: "encodes_with (?p i) (tp_encoder tp i) ?w ?bs caps" for i
    using tp limits by (simp add: encodes_with_def prepareEncoderData_def)
  have "\<exists>tots' mem'. run_encode ?p ccalls cs (\<lambda>_. (0, 0)) ?mem0 = Inr (tots', mem') \<and>
      enc_inv decs ?N ?w ?bs ?d {..<?N} mem'"
    using data w(2) t(1) p
    by (intro run_encode_ok [OF cs(1) ran_by_done [OF encoding(2)] cs(2) t(1), where Inv = "enc_inv decs ?N ?w ?bs ?d"]
        copied_input_ok [OF layout mem] moving_codec.encode_block_ok [OF codec(1)] ran_by_thread [OF encoding(2)])
       (auto simp: prepareEncoderData_def comp_def)
  then obtain ctots mem1 where enc: "run_encode ?p ccalls cs (\<lambda>_. (0, 0)) ?mem0 = Inr (ctots, mem1)"
    and inv1: "enc_inv decs ?N ?w ?bs ?d {..<?N} mem1" by blast
  let ?mem1 = "mem1\<lparr>in_buf := out_buf mem1, out_buf := replicate (workbuf_size t) 0\<rparr>"
  have swap: "swap_buffers tp (clear_buffer t tp mem1) = ?mem1"
    using tp by (simp add: swap_buffers_def clear_buffer_def)
  have inv2: "dec_inv decs ?N ?w ?bs ?d {} ?mem1"
    by (rule enc_inv_decodes [OF inv1]) (simp add: t(2))
  have q: "decodes_with (?q i) decs ?w" if "i < threads_no t" for i
    using tp codec(2) that by (simp add: decodes_with_def prepareDecoderData_def)
  have "\<exists>tots' mem'. run_decode ?q dcalls ds (\<lambda>_. 0) ?mem1 = Inr (tots', mem') \<and>
      dec_inv decs ?N ?w ?bs ?d {..<?N} mem'"
    using data t(1)
    by (intro run_decode_ok [OF ds(1) ran_by_done [OF decoding(2)] ds(2) t(1), where Inv = "dec_inv decs ?N ?w ?bs ?d"]
        inv2 decode_block_ok q ran_by_thread [OF decoding(2)])
       (auto simp: prepareDecoderData_def item_blocks_def)
  then obtain dtots mem2 where dec: "run_decode ?q dcalls ds (\<lambda>_. 0) ?mem1 = Inr (dtots, mem2)"
    and inv3: "dec_inv decs ?N ?w ?bs ?d {..<?N} mem2" by blast
  have "test_iteration t tp cstart ccalls dstart dcalls mem = Inr (ctots, dtots, mem2)"
    using enc dec encoding(1) decoding(1) by (simp add: test_iteration_def Let_def swap)
  then show ?thesis
    using verify_codec_ok [OF ok inv3 tp(2)] inv3 by (simp add: dec_inv_def)
qed

end
