(* ===== verification/Bench_In_Place.thy ===== *)
theory Bench_In_Place
  imports Bench_Correct
begin

text \<open>
  The test of a codec that works in place and keeps its data where it is, such as a checksum: the
  blocks stay in the input buffer, which the verification then reads.
\<close>

subsection \<open>Encoding and decoding keep the data\<close>

text \<open>What the metadata of an encoded block says of the block \<open>xs\<close> with \<open>n\<close> bytes of data.\<close>

definition accepted :: "coder set \<Rightarrow> nat \<Rightarrow> nat \<Rightarrow> nat \<Rightarrow> byte list \<Rightarrow> block_info \<Rightarrow> bool" where
  "accepted decs w bs n xs info \<longleftrightarrow>
    (if successfully_encoded info then
       decoded_size info = n \<and> n \<le> encoded_size info \<and> encoded_size info \<le> w \<and>
       acceptable decs w (encoded_size info) xs n
     else encoded_size info = bs)"

lemma acceptable_cong: "take r xs = take r ys \<Longrightarrow> acceptable decs w r xs n = acceptable decs w r ys n"
  by (simp add: acceptable_def)

lemma take_take_le: "take r xs = take r ys \<Longrightarrow> n \<le> r \<Longrightarrow> take n xs = take n ys"
  by (metis min.absorb1 take_take)

definition kept_inv :: "coder set \<Rightarrow> nat \<Rightarrow> nat \<Rightarrow> nat \<Rightarrow> (nat \<Rightarrow> byte list) \<Rightarrow> nat set \<Rightarrow> bench_mem \<Rightarrow> bool" where
  "kept_inv decs N w bs d B mem \<longleftrightarrow> mem_ok N w mem \<and>
    (\<forall>b<N. take (length (d b)) (blk w (in_buf mem) b) = d b \<and>
       (b \<in> B \<longrightarrow> accepted decs w bs (length (d b)) (blk w (in_buf mem) b) (metas mem ! b)))"

lemma kept_inv_update:
  assumes "kept_inv decs N w bs d B mem" "b < N" "length ib = w" "length ob = w"
    and "take (length (d b)) ib = d b" "accepted decs w bs (length (d b)) ib info"
  shows "kept_inv decs N w bs d (insert b B) (put_block mem w b ib ob info)"
  using assms(1) blk_store [OF assms(2) _ _ assms(3)] assms(2-)
  unfolding kept_inv_def mem_ok_def
  by (auto simp: length_store_blk nth_list_update simp del: length_store length_load)

definition encodes_in_place :: "encode_params \<Rightarrow> coder \<Rightarrow> nat \<Rightarrow> nat \<Rightarrow> bool" where
  "encodes_in_place p enc w bs \<longleftrightarrow>
    ep_encoder p = enc \<and> ep_workbsize p = w \<and> ep_bsize p = bs \<and> 0 < ep_ssize p \<and> ep_verify p \<and>
    ep_transform_type p = in_place \<and> 0 < ep_overhead_iters p"

context in_place_codec
begin

lemma encode_block_keeps:
  assumes inv: "kept_inv decs N w bs d B mem" and p: "encodes_in_place p enc w bs"
    and wi: "item_blocks w bs (length \<circ> d) wi b0 m" "i < m" and b: "b0 + i < N"
    and n: "0 < length (d (b0 + i))" "length (d (b0 + i)) \<le> bs" "bs \<le> w" "w \<le> SIZE_MAX - 20"
  shows "\<exists>tot' mem'. encode_block p wi (i * w) i tot mem = Inr (tot', mem') \<and>
    kept_inv decs N w bs d (insert (b0 + i) B) mem'"
proof -
  let ?b = "b0 + i" and ?n = "length (d (b0 + i))"
  let ?ib = "blk w (in_buf mem) ?b" and ?ob = "blk w (out_buf mem) ?b"
  have len: "length ?ib = w" "length ?ob = w" and data: "take ?n ?ib = d ?b"
    using inv b by (simp_all add: kept_inv_def mem_ok_def length_blk del: length_load)
  have params: "ep_encoder p = enc" "ep_workbsize p = w" "ep_bsize p = bs" "0 < ep_ssize p" "ep_verify p"
    "ep_transform_type p \<noteq> moving" "0 < ep_overhead_iters p"
    using p by (simp_all add: encodes_in_place_def)
  obtain cap where cap: "encode_limit ((length \<circ> d) ?b) (ep_ssize p) = Some cap"
    using encode_limit_Some params(4) by blast
  obtain ib ob r where run: "overhead_loop (ep_overhead_iters p) (ep_encoder p) ?ib ((length \<circ> d) ?b) ?ob
        cap CODING_ERROR = Some (ib, ob, r)"
    and l: "length ib = w" "length ob = w" "?n \<le> r" "r \<le> w" "take ?n ib = d ?b" "acceptable decs w r ib ?n"
    using keeps_overhead [OF len n(1,2) params(7), of cap CODING_ERROR] params(1) data by auto
  show ?thesis
  proof (rule encode_block_cases [OF wi params(2-5) run cap l(4) n(4), of tot])
    fix tot'
    assume body: "encode_block p wi (i * w) i tot mem = Inr (tot', put_block mem w ?b ib
        (take ((length \<circ> d) ?b) ib @ drop ((length \<circ> d) ?b) ob) (skipped_info bs))"
    have "kept_inv decs N w bs d (insert ?b B) (put_block mem w ?b ib (take ?n ib @ drop ?n ob) (skipped_info bs))"
      using l n by (intro kept_inv_update inv b) (simp_all add: accepted_def skipped_info_def)
    then show ?thesis using body by simp
  next
    fix tot'
    assume body: "encode_block p wi (i * w) i tot mem = Inr (tot', put_block mem w ?b
        (if ep_transform_type p = moving then ib else zero_from r ib)
        (if ep_transform_type p = moving then zero_from r ob else ob) (stored_info r ((length \<circ> d) ?b)))"
    have zero: "take r (zero_from r ib) = take r ib" using take_zero_from l by simp
    then have "accepted decs w bs ?n (zero_from r ib) (stored_info r ?n)"
      using l acceptable_cong [OF zero] by (simp add: accepted_def stored_info_def)
    then have "kept_inv decs N w bs d (insert ?b B) (put_block mem w ?b (zero_from r ib) ob (stored_info r ?n))"
      using l take_take_le [OF zero l(3)] by (intro kept_inv_update inv b) simp_all
    then show ?thesis using body params(6) by simp
  qed
qed

end

lemma put_block_same_info: "put_block mem w b ib ob (metas mem ! b) =
    mem\<lparr>in_buf := store (in_buf mem) (b * w) ib, out_buf := store (out_buf mem) (b * w) ob\<rparr>"
  by (cases mem) simp

lemma decode_block_keeps:
  assumes inv: "kept_inv decs N w bs d {..<N} mem" and p: "decodes_with p decs w"
    and wi: "wi_in wi = b0 * w" "wi_out wi = b0 * w" "wi_metadata wi = b0" and b: "b0 + i < N"
    and n: "length (d (b0 + i)) \<le> bs" "bs \<le> w"
  shows "\<exists>job_out' mem'. decode_block p wi i job_out mem = Inr (job_out', mem') \<and>
    kept_inv decs N w bs d {..<N} mem'"
proof -
  let ?b = "b0 + i" and ?info = "metas mem ! (b0 + i)" and ?n = "length (d (b0 + i))"
  let ?ib = "blk w (in_buf mem) ?b" and ?ob = "blk w (out_buf mem) ?b"
  have at: "wi_in wi + i * w = ?b * w" "wi_out wi + i * w = ?b * w" "wi_metadata wi + i = ?b"
    using wi by (simp_all add: algebra_simps)
  have len: "length ?ib = w" "length ?ob = w"
    and data: "take ?n ?ib = d ?b" and acc: "accepted decs w bs ?n ?ib ?info"
    using inv b by (simp_all add: kept_inv_def mem_ok_def length_blk del: length_load)
  have params: "dp_decoder p \<in> decs" "dp_workbsize p = w" "0 < dp_ssize p" "dp_verify p" "0 < dp_overhead_iters p"
    using p by (simp_all add: decodes_with_def)
  have all: "insert ?b {..<N} = {..<N}" using b by auto
  have keeps: "kept_inv decs N w bs d {..<N}
      (mem\<lparr>in_buf := store (in_buf mem) (?b * w) ib, out_buf := store (out_buf mem) (?b * w) ob\<rparr>)"
    if "length ib = w" "length ob = w" "take ?n ib = d ?b" "accepted decs w bs ?n ib ?info" for ib ob
    using kept_inv_update [OF inv b that] unfolding all put_block_same_info .
  show ?thesis
  proof (cases "successfully_encoded ?info")
    case True
    then have info: "decoded_size ?info = ?n" "?n \<le> encoded_size ?info"
      and "acceptable decs w (encoded_size ?info) ?ib ?n"
      using acc by (simp_all add: accepted_def)
    from acceptable_overhead [OF this(3) params(1) len refl params(5), of CODING_ERROR]
    obtain ib ob k where run: "overhead_loop (dp_overhead_iters p) (dp_decoder p) ?ib (encoded_size ?info) ?ob
        (decoded_size ?info) CODING_ERROR = Some (ib, ob, k)" "k \<noteq> CODING_ERROR"
      and l: "length ib = w" "length ob = w" "take (encoded_size ?info) ib = take (encoded_size ?info) ?ib"
      unfolding info by blast
    have "kept_inv decs N w bs d {..<N}
      (mem\<lparr>in_buf := store (in_buf mem) (?b * w) ib, out_buf := store (out_buf mem) (?b * w) ob\<rparr>)"
      using l acc data acceptable_cong [OF l(3)] take_take_le [OF l(3) info(2)] True
      by (intro keeps) (simp_all add: accepted_def)
    moreover obtain ro where "round_up k (dp_ssize p) = Some ro"
      using params(3) round_up_Some by blast
    ultimately show ?thesis
      using True run at params by (simp add: decode_block_def Let_def)
  next
    case False
    then have info: "encoded_size ?info = bs" using acc by (simp add: accepted_def)
    have "kept_inv decs N w bs d {..<N}
      (mem\<lparr>in_buf := store (in_buf mem) (?b * w) ?ib,
           out_buf := store (out_buf mem) (?b * w) (take bs ?ib @ drop bs ?ob)\<rparr>)"
      using acc data len n by (intro keeps) (simp_all del: length_load)
    then show ?thesis
      using False info at params n by (simp add: decode_block_def Let_def)
  qed
qed

subsection \<open>The verification accepts codecs that keep the data\<close>

definition in_place_test :: "tester \<Rightarrow> test_params \<Rightarrow> bool" where
  "in_place_test t tp \<longleftrightarrow>
    (\<exists>decs. \<forall>i<threads_no t. in_place_codec (tp_encoder tp i) decs (workbuf_block_size t) (t_bsize t) \<and>
        tp_decoder tp i \<in> decs) \<and>
    tp_encode_type tp = in_place \<and> tp_decode_type tp = in_place \<and> tp_verify tp \<and>
    0 < tp_ssize tp \<and> 0 < tp_overhead_iters tp \<and> 0 < tp_job_size tp \<and> tp_job_size tp < 2 ^ 62"

lemma kept_inv_verified:
  assumes "tester_ok t" "kept_inv decs (blocks_no t) (workbuf_block_size t) (t_bsize t) (block_data t)
      {..<blocks_no t} mem" "tp_decode_type tp \<noteq> moving"
  shows "verify_codec t tp mem"
  using output_crc_ok [of "in_buf mem" "blocks_no t" "workbuf_block_size t" "t_bsize t" 0 0
      "input_size t" "inbuf t" 0] assms
  by (simp add: verify_codec_def check_decoding_def tester_ok_def kept_inv_def mem_ok_def
      block_data_def Let_def)

lemma test_in_place:
  assumes layout: "test_layout t cs ds" and test: "in_place_test t tp"
    and mem: "mem_ok (blocks_no t) (workbuf_block_size t) mem"
    and encoding: "compression_scheduler t tp cstart = Some cs" "ran_by (threads_no t) cs ccalls"
    and decoding: "decompression_scheduler t tp dstart = Some ds" "ran_by (threads_no t) ds dcalls"
  shows "\<exists>ctots dtots mem'.
    test_iteration t tp cstart ccalls dstart dcalls mem = Inr (ctots, dtots, mem') \<and>
    verify_codec t tp mem' \<and> mem_ok (blocks_no t) (workbuf_block_size t) mem'"
proof -
  let ?N = "blocks_no t" and ?w = "workbuf_block_size t" and ?bs = "t_bsize t" and ?d = "block_data t"
  obtain decs where codec: "\<And>i. i < threads_no t \<Longrightarrow> in_place_codec (tp_encoder tp i) decs ?w ?bs"
      "\<And>i. i < threads_no t \<Longrightarrow> tp_decoder tp i \<in> decs" and
    tp: "tp_encode_type tp = in_place" "tp_decode_type tp = in_place" "tp_verify tp" "0 < tp_ssize tp"
    "0 < tp_overhead_iters tp"
    using test by (auto simp: in_place_test_def)
  have ok: "tester_ok t" and w: "0 < ?w" "?w \<le> SIZE_MAX - 20" and t: "?bs \<le> ?w" "workbuf_size t = ?N * ?w"
    and data: "\<forall>b<?N. 0 < length (?d b) \<and> length (?d b) \<le> ?bs"
    and cs: "sched_from_start cs ?w ?N" "\<forall>b<?N. min (s_size cs - b * ?w) ?bs = (length \<circ> ?d) b"
    and ds: "sched_from_start ds ?w ?N" "s_size ds = ?N * ?w"
    using layout by (simp_all add: test_layout_def tester_ok_def)
  let ?p = "prepareEncoderData t tp" and ?q = "prepareDecoderData t tp"
  let ?mem0 = "mem\<lparr>in_buf := copy_input_buffer (inbuf t) (in_buf mem) ?bs ?w\<rparr>"
  have p: "encodes_in_place (?p i) (tp_encoder tp i) ?w ?bs" for i
    using tp by (simp add: encodes_in_place_def prepareEncoderData_def)
  have inv0: "kept_inv decs ?N ?w ?bs ?d {} ?mem0"
    using copied_input_ok [OF layout mem] by (simp add: kept_inv_def enc_inv_def)
  have "\<exists>tots' mem'. run_encode ?p ccalls cs (\<lambda>_. (0, 0)) ?mem0 = Inr (tots', mem') \<and>
      kept_inv decs ?N ?w ?bs ?d {..<?N} mem'"
    using data w(2) t(1) p
    by (intro run_encode_ok [OF cs(1) ran_by_done [OF encoding(2)] cs(2) t(1), where Inv = "kept_inv decs ?N ?w ?bs ?d"]
        inv0 in_place_codec.encode_block_keeps [OF codec(1)] ran_by_thread [OF encoding(2)])
       (auto simp: prepareEncoderData_def comp_def)
  then obtain ctots mem1 where enc: "run_encode ?p ccalls cs (\<lambda>_. (0, 0)) ?mem0 = Inr (ctots, mem1)"
    and inv1: "kept_inv decs ?N ?w ?bs ?d {..<?N} mem1" by blast
  let ?mem1 = "mem1\<lparr>out_buf := replicate (workbuf_size t) 0\<rparr>"
  have swap: "swap_buffers tp (clear_buffer t tp mem1) = ?mem1"
    using tp by (simp add: swap_buffers_def clear_buffer_def)
  have inv2: "kept_inv decs ?N ?w ?bs ?d {..<?N} ?mem1"
    using inv1 t(2) by (simp add: kept_inv_def mem_ok_def)
  have q: "decodes_with (?q i) decs ?w" if "i < threads_no t" for i
    using tp codec(2) that by (simp add: decodes_with_def prepareDecoderData_def)
  have "\<exists>tots' mem'. run_decode ?q dcalls ds (\<lambda>_. 0) ?mem1 = Inr (tots', mem') \<and>
      kept_inv decs ?N ?w ?bs ?d {..<?N} mem'"
    using data t(1)
    by (intro run_decode_ok [OF ds(1) ran_by_done [OF decoding(2)] ds(2) t(1), where Inv = "\<lambda>_. kept_inv decs ?N ?w ?bs ?d {..<?N}"]
        inv2 decode_block_keeps q ran_by_thread [OF decoding(2)])
       (auto simp: prepareDecoderData_def item_blocks_def)
  then obtain dtots mem2 where dec: "run_decode ?q dcalls ds (\<lambda>_. 0) ?mem1 = Inr (dtots, mem2)"
    and inv3: "kept_inv decs ?N ?w ?bs ?d {..<?N} mem2" by blast
  have "test_iteration t tp cstart ccalls dstart dcalls mem = Inr (ctots, dtots, mem2)"
    using enc dec encoding(1) decoding(1) by (simp add: test_iteration_def Let_def swap)
  then show ?thesis
    using kept_inv_verified [OF ok inv3] tp(2) inv3 by (simp add: kept_inv_def)
qed

subsection \<open>Both kinds of codecs\<close>

definition lossless_test :: "tester \<Rightarrow> test_params \<Rightarrow> bool" where
  "lossless_test t tp \<longleftrightarrow> moving_test t tp \<or> in_place_test t tp"

lemma test_lossless_layout:
  assumes "test_layout t cs ds" "lossless_test t tp" "mem_ok (blocks_no t) (workbuf_block_size t) mem"
    and "compression_scheduler t tp cstart = Some cs" "ran_by (threads_no t) cs ccalls"
    and "decompression_scheduler t tp dstart = Some ds" "ran_by (threads_no t) ds dcalls"
  shows "\<exists>ctots dtots mem'.
    test_iteration t tp cstart ccalls dstart dcalls mem = Inr (ctots, dtots, mem') \<and>
    verify_codec t tp mem' \<and> mem_ok (blocks_no t) (workbuf_block_size t) mem'"
  using assms test_moving test_in_place unfolding lossless_test_def by metis

lemma test_lossless:
  assumes "new_tester max_sizes file desired_bsize threads = Inr t"
    and "length file < 2 ^ 62" "\<forall>f\<in>set max_sizes. f (t_bsize t) < 2 ^ 62"
      "workbuf_size t < 2 ^ 62" "blocks_no t < 2 ^ 32"
    and test: "lossless_test t tp"
    and "mem_ok (blocks_no t) (workbuf_block_size t) mem"
    and "compression_scheduler t tp cstart = Some cs" "ran_by (threads_no t) cs ccalls"
    and "decompression_scheduler t tp dstart = Some ds" "ran_by (threads_no t) ds dcalls"
  shows "\<exists>ctots dtots mem'.
    test_iteration t tp cstart ccalls dstart dcalls mem = Inr (ctots, dtots, mem') \<and>
    verify_codec t tp mem' \<and> mem_ok (blocks_no t) (workbuf_block_size t) mem'"
proof (rule test_lossless_layout [OF _ test assms(7-)])
  show "test_layout t cs ds"
    using test_layoutI [OF assms(1-5) _ _ assms(8,10)] test
    by (auto simp: lossless_test_def moving_test_def in_place_test_def)
qed

end
