(* ===== verification/Simple_Codecs.thy ===== *)
theory Simple_Codecs
  imports Bench_In_Place
begin

text \<open>
  The pseudocodecs at the end of \<open>simple_codecs.cpp\<close>: doing nothing, copying, clearing and
  swapping bytes; and what the verification of the benchmark makes of them.
\<close>

subsection \<open>The pseudocodecs\<close>

definition nop_c :: coder where
  "nop_c ib isize ob osize = Some (ib, ob, 1)"

definition nop_d :: coder where
  "nop_d ib isize ob osize = Some (ib, ob, osize)"

definition c_memcpy :: coder where
  "c_memcpy ib isize ob osize =
    (if length ib < isize \<or> length ob < isize then None
     else Some (ib, take isize ib @ drop isize ob, isize))"

definition c_memmove :: coder where
  "c_memmove ib isize ob osize =
    (if length ib < isize \<or> length ob < isize then None
     else Some (ib, take isize ib @ drop isize ob, isize))"

definition c_memset :: coder where
  "c_memset ib isize ob osize =
    (if length ob < isize then None else Some (ib, replicate isize 0 @ drop isize ob, isize))"

definition bswap_16 :: "16 word \<Rightarrow> 16 word" where
  "bswap_16 x = drop_bit 8 x OR push_bit 8 x"

definition bswap_32 :: "32 word \<Rightarrow> 32 word" where
  "bswap_32 x = push_bit 16 (ucast (bswap_16 (ucast (x AND 0xffff)))) OR
     ucast (bswap_16 (ucast (drop_bit 16 x)))"

definition bswap_64 :: "64 word \<Rightarrow> 64 word" where
  "bswap_64 x = push_bit 32 (ucast (bswap_32 (ucast (x AND 0xffffffff)))) OR
     ucast (bswap_32 (ucast (drop_bit 32 x)))"

text \<open>
  \<open>*in = _bswap_16(*in)\<close> through a \<open>char *\<close>: the signed character is widened, swapped and cut off
  again. The loop stops where less than, or exactly, one unit is left.
\<close>

function bswap_loop :: "(byte \<Rightarrow> byte) \<Rightarrow> nat \<Rightarrow> nat \<Rightarrow> nat \<Rightarrow> byte list \<Rightarrow> byte list" where
  "bswap_loop f unit isize i ib =
    (if i + unit < isize \<and> 0 < unit
     then bswap_loop f unit isize (i + unit) (ib[i := f (ib ! i)]) else ib)"
  by auto
termination by (relation "measure (\<lambda>(f, unit, isize, i, ib). isize - i)") auto

definition c_bswap16 :: coder where
  "c_bswap16 ib isize ob osize =
    Some (bswap_loop (\<lambda>c. ucast (bswap_16 (scast c))) 2 isize 0 ib, ob, isize)"

definition c_bswap32 :: coder where
  "c_bswap32 ib isize ob osize =
    Some (bswap_loop (\<lambda>c. ucast (bswap_32 (scast c))) 4 isize 0 ib, ob, isize)"

definition c_bswap64 :: coder where
  "c_bswap64 ib isize ob osize =
    Some (bswap_loop (\<lambda>c. ucast (bswap_64 (scast c))) 8 isize 0 ib, ob, isize)"

lemma bswap_16_char:
  "ucast (bswap_16 (scast (c :: byte))) = (if sint c < 0 then 0xff else 0 :: byte)"
proof (rule bit_word_eqI)
  fix i assume i: "i < LENGTH(8)"
  have "bit (ucast (bswap_16 (scast c)) :: byte) i \<longleftrightarrow> bit c 7"
    using i unfolding bswap_16_def
    by (simp only: bit_or_iff bit_push_bit_iff bit_drop_bit_eq bit_unsigned_iff bit_signed_iff o_apply)
       simp
  moreover have "bit c 7 \<longleftrightarrow> sint c < 0"
    using bit_last_iff [of c] by simp
  moreover have "bit (0xff :: byte) i"
  proof -
    have "(0xff :: byte) = - 1" by simp
    then show ?thesis using i by (simp only: bit_minus_1_iff) simp
  qed
  ultimately show "bit (ucast (bswap_16 (scast c)) :: byte) i \<longleftrightarrow> bit (if sint c < 0 then 0xff else 0 :: byte) i"
    by simp
qed


text \<open>Copying is lossless, in blocks that hold the data.\<close>

interpretation memcpy: moving_codec c_memcpy "{c_memcpy}" "bs + k" bs UNIV for bs k
proof unfold_locales
  fix ib ob :: "byte list" and n m :: nat
  assume *: "length ib = bs + k" "length ob = bs + k" "0 < n" "n \<le> bs"
  have "decodable {c_memcpy} (bs + k) n (take n ib @ drop n ob) n (take n ib)"
  proof (rule decodableI)
    fix dec and ib2 ob2 :: "byte list"
    assume "dec \<in> {c_memcpy}" "length ib2 = bs + k" "length ob2 = bs + k"
      "take n ib2 = take n (take n ib @ drop n ob)"
    then show "\<exists>ib' ob' k'. dec ib2 n ob2 n = Some (ib', ob', k') \<and> k' \<noteq> CODING_ERROR \<and>
        length ib' = bs + k \<and> length ob' = bs + k \<and> take n ib' = take n (take n ib @ drop n ob) \<and>
        take n ob' = take n ib"
      using * by (simp add: c_memcpy_def CODING_ERROR_def)
  qed
  then show "\<exists>ib' ob' r. c_memcpy ib n ob m = Some (ib', ob', r) \<and> length ib' = bs + k \<and>
      length ob' = bs + k \<and> r \<le> bs + k \<and> take n ib' = take n ib \<and>
      (r \<noteq> CODING_ERROR \<longrightarrow> decodable {c_memcpy} (bs + k) r ob' n (take n ib))"
    using * by (simp add: c_memcpy_def)
qed

subsection \<open>The verification\<close>


text \<open>A small test: three bytes in blocks of two, one thread, and no time for a second pass.\<close>

definition small_tester :: tester where
  "small_tester = \<lparr>input_size = 3, t_bsize = 2, blocks_no = 2, threads_no = 1,
     workbuf_block_size = 80, workbuf_size = 160, inbuf = [1, 2, 3], input_crc = crc [1, 2, 3] 0\<rparr>"

lemma small_tester: "new_tester [no_blowup] [1, 2, 3] 2 1 = Inr small_tester"
proof -
  have "length [1, 2, 3 :: byte] = 3" by simp
  then show ?thesis
    unfolding new_tester_def
    by (simp add: small_tester_def round_up_def no_blowup_def OVERRUN_PAD_def ALIGNMENT_def
        del: list.size)
qed

definition small_test :: "coder \<Rightarrow> coder \<Rightarrow> transform_type \<Rightarrow> test_params" where
  "small_test enc dec tt = \<lparr>tp_encoder = \<lambda>_. enc, tp_decoder = \<lambda>_. dec, tp_encode_type = tt, tp_decode_type = tt,
     tp_can_be_skipped = True, tp_ssize = 1, tp_verify = True, tp_overhead_iters = 1,
     tp_job_size = 262144, tp_iter_time = 0\<rparr>"

definition small_mem :: bench_mem where
  "small_mem = \<lparr>in_buf = replicate 160 0, out_buf = replicate 160 0,
     metas = replicate 2 \<lparr>encoded_size = 0, decoded_size = 0, successfully_encoded = False\<rparr>\<rparr>"

definition small_scheduler :: "nat \<Rightarrow> scheduler" where
  "small_scheduler isize = the (new_scheduler 0 0 0 isize 80 262144 \<lparr>tv_sec = 0, tv_nsec = 0\<rparr> 0)"

abbreviation small_calls :: "(nat \<times> timespec) list" where
  "small_calls \<equiv> replicate 2 (0, \<lparr>tv_sec = 0, tv_nsec = 0\<rparr>)"

lemma small_schedulers:
  "compression_scheduler small_tester (small_test enc dec tt) \<lparr>tv_sec = 0, tv_nsec = 0\<rparr> = Some (small_scheduler 81)"
  "decompression_scheduler small_tester (small_test enc dec tt) \<lparr>tv_sec = 0, tv_nsec = 0\<rparr> = Some (small_scheduler 160)"
  by (simp_all add: compression_scheduler_def decompression_scheduler_def small_tester_def
      small_test_def small_scheduler_def size_in_blocks_def round_up_def new_scheduler_def)

lemma small_threads_no: "threads_no small_tester = 1"
  by (simp add: small_tester_def)

lemma small_ran_by:
  assumes "0 < isize" "isize < 2 ^ 18"
  shows "ran_by 1 (small_scheduler isize) small_calls"
proof -
  let ?s = "small_scheduler isize" and ?now = "\<lparr>tv_sec = 0, tv_nsec = 0\<rparr>"
  have ws: "work_size ?s = 262160" "s_size ?s = isize"
    by (simp_all add: small_scheduler_def new_scheduler_def sched_work_size_def)
  have wf: "sched_wf ?s" "sched_at ?s 0"
    using assms by (simp_all add: small_scheduler_def new_scheduler_def sched_wf_def sched_at_def
        sched_work_size_def)
  have "chunks_no ?s = 1"
    unfolding chunks_no_def ws using assms by simp
  moreover have "expired ?s ?now"
    by (simp add: expired_def small_scheduler_def new_scheduler_def)
  ultimately have "fst (getChunks (replicate 2 ?now) ?s) = [Some (chunk ?s 0), None]"
    using getChunks_stops [OF wf, of "replicate 2 ?now"] by simp
  then show ?thesis by (simp add: ran_by_def threads_done_def)
qed


end
