(* ===== verification/Abstract_Codecs.thy ===== *)
theory Abstract_Codecs
  imports Simple_Codecs
begin

text \<open>
  The codec classes (\<open>abstractCodecs.cpp\<close>, \<open>abstractCodecs.hpp\<close>) and the look-up of codecs by name
  (\<open>codecs.cpp\<close>). The objects live in a store, the list \<open>CODECS\<close>; a \<open>Codec *\<close> is an index into it,
  so that two references to one object see each other's changes. The virtual functions dispatch on
  the class of the object.
\<close>

subsection \<open>Objects\<close>

text \<open>
  A checksum function gets the block and the size of the data in front, and writes its digest;
  \<open>None\<close> where it leaves the block.
\<close>

type_synonym checksum_t = "byte list \<Rightarrow> nat \<Rightarrow> byte list option"

text \<open>
  What the \<open>args\<close> of a coding function point to: a mode, a checksum function, the address of a
  buffer, a pointer to a codec, or the parameter structure of a pipeline.
\<close>

datatype codec_param =
    Mode int
  | Checksummer checksum_t
  | Workmem nat
  | Codec_ptr nat
  | Pipeline_params "codec_param option" "codec_param option" nat nat

text \<open>Function pointers: an ordinary coding function, or the two of \<open>PipelineCodec\<close>.\<close>

datatype fn_ptr =
    Fn "codec_param option \<Rightarrow> coder"
  | Pipeline_encode
  | Pipeline_decode

record codec_arg =
  arg_name :: string
  arg_encoder :: "fn_ptr option"
  arg_decoder :: "fn_ptr option"

datatype codec_class =
    Plain_codec
  | Multifunction_codec "codec_arg list" string
  | Codec_with_int_modes int int string
  | Combination_codec nat nat
  | Pipeline_codec nat nat
  | Checksum_codec checksum_t
  | Buffered_codec nat nat

record codec =
  codec_name :: string
  codec_version :: string
  codec_args :: string
  codec_encoder :: "fn_ptr option"
  codec_decoder :: "fn_ptr option"
  encode_transform_type :: transform_type
  decode_transform_type :: transform_type
  can_be_skipped :: bool
  max_size :: "nat \<Rightarrow> nat"
  eparams :: "codec_param option list option"
  dparams :: "codec_param option list option"
  codec_class :: codec_class

type_synonym store = "codec list"

definition new_codec :: "string \<Rightarrow> string \<Rightarrow> fn_ptr option \<Rightarrow> fn_ptr option \<Rightarrow> (nat \<Rightarrow> nat) \<Rightarrow>
    transform_type \<Rightarrow> transform_type \<Rightarrow> bool \<Rightarrow> codec_class \<Rightarrow> codec" where
  "new_codec name version enc dec msize ett dtt skip cls =
    \<lparr>codec_name = name, codec_version = version, codec_args = [],
     codec_encoder = enc, codec_decoder = dec,
     encode_transform_type = ett, decode_transform_type = dtt, can_be_skipped = skip,
     max_size = msize, eparams = None, dparams = None, codec_class = cls\<rparr>"

subsection \<open>Arguments\<close>

text \<open>\<open>args.find(c)\<close>, \<open>substr(0, pos)\<close> and \<open>substr(pos + 1)\<close>.\<close>

fun split_at :: "char \<Rightarrow> string \<Rightarrow> (string \<times> string) option" where
  "split_at c [] = None"
| "split_at c (x # xs) =
    (if x = c then Some ([], xs) else map_option (\<lambda>(a, b). (x # a, b)) (split_at c xs))"

definition split_args :: "char \<Rightarrow> string \<Rightarrow> string \<times> string" where
  "split_args c args = (case split_at c args of None \<Rightarrow> (args, []) | Some p \<Rightarrow> p)"

definition default_args :: "string \<Rightarrow> string \<Rightarrow> string" where
  "default_args dflt args = (if args = [] then dflt else args)"

fun get_type :: "codec_arg list \<Rightarrow> string \<Rightarrow> codec_arg option" where
  "get_type [] args = None"
| "get_type (a # as) args =
    (if case_insensitive_compare (arg_name a) args = 0 then Some a else get_type as args)"

text \<open>
  \<open>from_string\<close> into an \<open>intptr_t\<close>: the stream skips white space and reads a decimal number. When
  there is none it fails and stores 0, and when the number does not fit it fails and stores the
  nearest one; \<open>good()\<close> is then false. \<open>None\<close> is the exception \<open>bad_cast\<close>, which is thrown when
  the stream is still good.
\<close>

definition digit :: "char \<Rightarrow> int option" where
  "digit c = (let i = int (of_char c) in if 48 \<le> i \<and> i \<le> 57 then Some (i - 48) else None)"

definition is_space :: "char \<Rightarrow> bool" where
  "is_space c \<longleftrightarrow> (let i = int (of_char c) in i = 32 \<or> 9 \<le> i \<and> i \<le> 13)"

fun read_digits :: "int \<Rightarrow> string \<Rightarrow> int \<times> string" where
  "read_digits v [] = (v, [])"
| "read_digits v (c # cs) = (case digit c of None \<Rightarrow> (v, c # cs) | Some d \<Rightarrow> read_digits (10 * v + d) cs)"

definition read_sign :: "string \<Rightarrow> bool \<times> string" where
  "read_sign s =
    (case s of [] \<Rightarrow> (False, [])
     | c # r \<Rightarrow> if c = CHR ''-'' then (True, r) else if c = CHR ''+'' then (False, r) else (False, c # r))"

definition from_string :: "string \<Rightarrow> int option" where
  "from_string str =
    (let (neg, s) = read_sign (dropWhile is_space str);
         (v, r) = read_digits 0 s;
         v = (if neg then - v else v)
     in if length r = length s then Some 0
        else if v < - (2 ^ 63) then Some (- (2 ^ 63))
        else if 2 ^ 63 - 1 < v then Some (2 ^ 63 - 1)
        else if r = [] then Some v else None)"

subsection \<open>Initialisation\<close>

datatype init_error = Invalid_params | Null_pointer | Too_deep

definition combined_transform_type :: "transform_type \<Rightarrow> transform_type \<Rightarrow> transform_type" where
  "combined_transform_type first second =
    (if first = in_place \<and> second = in_place then in_place
     else if first = moving then (if second = moving then buffered else moving)
     else (if second = moving then moving else buffered))"

text \<open>Element \<open>i\<close> of a parameter array; a null array has null parameters.\<close>

definition param_at :: "codec_param option list option \<Rightarrow> nat \<Rightarrow> codec_param option" where
  "param_at ps i = (case ps of None \<Rightarrow> None | Some xs \<Rightarrow> xs ! i)"

definition multifunction_init :: "codec_arg list \<Rightarrow> string \<Rightarrow> string \<Rightarrow> codec \<Rightarrow> init_error + codec" where
  "multifunction_init allowed dflt args c =
    (case get_type allowed (default_args dflt args) of
       None \<Rightarrow> Inl Invalid_params
     | Some a \<Rightarrow> Inr (c\<lparr>codec_args := default_args dflt args, codec_encoder := arg_encoder a,
                        codec_decoder := arg_decoder a\<rparr>))"

definition int_modes_init :: "int \<Rightarrow> int \<Rightarrow> string \<Rightarrow> string \<Rightarrow> nat \<Rightarrow> codec \<Rightarrow> init_error + codec" where
  "int_modes_init min_mode max_mode dflt args threads c =
    (case from_string (default_args dflt args) of
       None \<Rightarrow> Inl Invalid_params
     | Some mode \<Rightarrow>
         if mode < min_mode \<or> mode > max_mode then Inl Invalid_params
         else let ps = Some (replicate threads (Some (Mode mode)))
              in Inr (c\<lparr>codec_args := default_args dflt args, eparams := ps, dparams := ps\<rparr>))"

text \<open>\<open>Checksum::init\<close> allocates only once.\<close>

definition checksum_init :: "checksum_t \<Rightarrow> nat \<Rightarrow> codec \<Rightarrow> codec" where
  "checksum_init f threads c =
    (if eparams c = None
     then let ps = Some (replicate threads (Some (Checksummer f))) in c\<lparr>eparams := ps, dparams := ps\<rparr>
     else c)"

text \<open>
  \<open>BufferedCodec::init\<close>; \<open>alloc i\<close> is the address of the memory allocated for thread \<open>i\<close>, and the
  parameter is this address with its low bits cleared.
\<close>

definition buffer_address :: "nat \<Rightarrow> nat \<Rightarrow> nat" where
  "buffer_address bufalignment address = address div bufalignment * bufalignment"

definition buffered_init :: "(nat \<Rightarrow> nat) \<Rightarrow> nat \<Rightarrow> nat \<Rightarrow> bool \<Rightarrow> bool \<Rightarrow> codec \<Rightarrow> codec" where
  "buffered_init alloc bufalignment threads init_encoder init_decoder c =
    (if init_encoder \<or> init_decoder
     then let ps = Some (map (\<lambda>i. Some (Workmem (buffer_address bufalignment (alloc i)))) [0..<threads])
          in c\<lparr>eparams := ps, dparams := ps\<rparr>
     else c)"

text \<open>
  The virtual \<open>eparams()\<close> and \<open>dparams()\<close>: a combination asks its codecs. The first argument bounds
  the depth of the calls: composed codecs refer to codecs that were created before them.
\<close>

fun codec_eparams :: "nat \<Rightarrow> store \<Rightarrow> nat \<Rightarrow> codec_param option list option" where
  "codec_eparams 0 st k = None"
| "codec_eparams (Suc depth) st k =
    (case codec_class (st ! k) of Combination_codec e d \<Rightarrow> codec_eparams depth st e | _ \<Rightarrow> eparams (st ! k))"

fun codec_dparams :: "nat \<Rightarrow> store \<Rightarrow> nat \<Rightarrow> codec_param option list option" where
  "codec_dparams 0 st k = None"
| "codec_dparams (Suc depth) st k =
    (case codec_class (st ! k) of Combination_codec e d \<Rightarrow> codec_dparams depth st d | _ \<Rightarrow> dparams (st ! k))"

text \<open>
  The end of \<open>PipelineCodec::init\<close>. The decoder's parameter structures are allocated together with
  the encoder's, and the pointers \<open>dparams()\<close> returns are to the encoder's structures.
\<close>

definition pipeline_finish :: "nat \<Rightarrow> nat \<Rightarrow> nat \<Rightarrow> string \<Rightarrow> nat \<Rightarrow> bool \<Rightarrow> bool \<Rightarrow> store \<Rightarrow> codec \<Rightarrow>
    init_error + codec" where
  "pipeline_finish depth first second second_args threads init_encoder init_decoder st c =
    (let c1 = (if init_encoder then c\<lparr>encode_transform_type := combined_transform_type
                 (encode_transform_type (st ! first)) (encode_transform_type (st ! second))\<rparr> else c);
         c2 = (if init_decoder then c1\<lparr>decode_transform_type := combined_transform_type
                 (decode_transform_type (st ! first)) (decode_transform_type (st ! second))\<rparr> else c1);
         ps = Some (map (\<lambda>i. Some (Pipeline_params (param_at (codec_eparams depth st first) i)
                (param_at (codec_eparams depth st second) i) first second)) [0..<threads]);
         c3 = (if init_encoder then c2\<lparr>eparams := ps\<rparr> else c2)
     in if init_decoder \<and> eparams c3 = None \<and> 0 < threads then Inl Null_pointer
        else let c4 = (if init_decoder then c3\<lparr>dparams := eparams c3\<rparr> else c3)
             in Inr (c4\<lparr>codec_encoder := Some Pipeline_encode, codec_decoder := Some Pipeline_decode,
                  codec_args := codec_args c4 @ ''+'' @
                    (if init_decoder then codec_args (st ! second) else second_args)\<rparr>))"

text \<open>
  The virtual \<open>init\<close>, with the same bound on the depth of the calls.
\<close>

fun codec_init :: "nat \<Rightarrow> (nat \<Rightarrow> nat) \<Rightarrow> nat \<Rightarrow> string \<Rightarrow> nat \<Rightarrow> bool \<Rightarrow> bool \<Rightarrow> store \<Rightarrow>
    init_error + store" where
  "codec_init 0 alloc k args threads init_encoder init_decoder st = Inl Too_deep"
| "codec_init (Suc depth) alloc k args threads init_encoder init_decoder st =
    (case codec_class (st ! k) of
       Plain_codec \<Rightarrow> Inr (st[k := (st ! k)\<lparr>codec_args := args\<rparr>])
     | Multifunction_codec allowed dflt \<Rightarrow>
         and_then (multifunction_init allowed dflt args (st ! k)) (\<lambda>c. Inr (st[k := c]))
     | Codec_with_int_modes min_mode max_mode dflt \<Rightarrow>
         and_then (int_modes_init min_mode max_mode dflt args threads (st ! k)) (\<lambda>c. Inr (st[k := c]))
     | Checksum_codec f \<Rightarrow> Inr (st[k := checksum_init f threads (st ! k)])
     | Buffered_codec bufsize bufalignment \<Rightarrow>
         Inr (st[k := buffered_init alloc bufalignment threads init_encoder init_decoder (st ! k)])
     | Combination_codec e d \<Rightarrow>
         (let (encoder_args, decoder_args) = split_args (CHR ''/'') args
          in and_then (if init_encoder then codec_init depth alloc e encoder_args threads True False st
                       else Inr st) (\<lambda>st1.
             let shown = (if init_encoder then codec_args (st1 ! e) else encoder_args)
             in and_then (if init_decoder then codec_init depth alloc d decoder_args threads False True st1
                          else Inr st1) (\<lambda>st2.
                Inr (st2[k := (st2 ! k)\<lparr>
                  codec_encoder := codec_encoder (st2 ! e), codec_decoder := codec_decoder (st2 ! d),
                  codec_args := shown @ ''/'' @ (if init_decoder then codec_args (st2 ! d) else decoder_args),
                  encode_transform_type := (if init_encoder then encode_transform_type (st2 ! e) else in_place),
                  decode_transform_type := (if init_decoder then decode_transform_type (st2 ! d) else in_place)\<rparr>]))))
     | Pipeline_codec first second \<Rightarrow>
         (let (first_args, second_args) = split_args (CHR ''+'') args
          in and_then (codec_init depth alloc first first_args threads init_encoder init_decoder st) (\<lambda>st1.
             and_then (codec_init depth alloc second second_args threads init_encoder init_decoder st1) (\<lambda>st2.
             and_then (pipeline_finish depth first second second_args threads init_encoder init_decoder st2 (st2 ! k)) (\<lambda>c.
               Inr (st2[k := c]))))))"

text \<open>The virtual \<open>max_encoded_size\<close>.\<close>

fun max_encoded_size :: "nat \<Rightarrow> store \<Rightarrow> nat \<Rightarrow> nat \<Rightarrow> nat" where
  "max_encoded_size 0 st k isize = 0"
| "max_encoded_size (Suc depth) st k isize =
    (case codec_class (st ! k) of
       Combination_codec e d \<Rightarrow> max_encoded_size depth st e isize
     | Pipeline_codec first second \<Rightarrow>
         max_encoded_size depth st second (max_encoded_size depth st first isize)
     | _ \<Rightarrow> max_size (st ! k) isize)"

subsection \<open>Coding\<close>

text \<open>A \<open>size_t\<close> in memory, on a little-endian machine.\<close>

definition size_bytes :: "nat \<Rightarrow> byte list" where
  "size_bytes n = map (\<lambda>i. to_byte (n div 256 ^ i)) [0..<8]"

definition bytes_size :: "byte list \<Rightarrow> nat" where
  "bytes_size bs = (\<Sum>i<8. unat (bs ! i) * 256 ^ i)"

text \<open>
  \<open>PipelineCodec::encode\<close> after the first coder has left its result in \<open>new_input\<close>; the result has
  the two blocks in this order.
\<close>

definition pipeline_second :: "coder \<Rightarrow> byte list \<Rightarrow> byte list \<Rightarrow> nat \<Rightarrow> nat \<Rightarrow>
    (byte list \<times> byte list \<times> nat) option" where
  "pipeline_second enc new_input new_output first_size osize =
    (case enc new_input first_size new_output osize of
       None \<Rightarrow> None
     | Some (ni, no, second_size) \<Rightarrow>
         if second_size = CODING_ERROR then Some (ni, no, CODING_ERROR)
         else if length no < second_size + 8 then None
         else Some (ni, store no second_size (size_bytes first_size), second_size + 8))"

text \<open>
  Calls through a function pointer. The pipeline's functions look at the codec objects when they are
  called; with a transform type for which they have no case they use null pointers.
\<close>

fun call_fn :: "nat \<Rightarrow> store \<Rightarrow> fn_ptr \<Rightarrow> codec_param option \<Rightarrow> coder" where
  "call_fn 0 st f p ib isize ob osize = None"
| "call_fn (Suc depth) st (Fn f) p ib isize ob osize = f p ib isize ob osize"
| "call_fn (Suc depth) st Pipeline_encode p ib isize ob osize =
    (case p of
       Some (Pipeline_params p1 p2 first second) \<Rightarrow>
         (case codec_encoder (st ! first) of
            None \<Rightarrow> None
          | Some f1 \<Rightarrow>
              (case call_fn depth st f1 p1 ib isize ob osize of
                 None \<Rightarrow> None
               | Some (ib', ob', first_size) \<Rightarrow>
                   if first_size = CODING_ERROR then Some (ib', ob', CODING_ERROR)
                   else (case codec_encoder (st ! second) of
                      None \<Rightarrow> None
                    | Some f2 \<Rightarrow>
                        (case encode_transform_type (st ! first) of
                           moving \<Rightarrow> map_option (\<lambda>(ni, no, r). (no, ni, r))
                             (pipeline_second (call_fn depth st f2 p2) ob' ib' first_size osize)
                         | selective \<Rightarrow> None
                         | _ \<Rightarrow> pipeline_second (call_fn depth st f2 p2) ib' ob' first_size osize))))
     | _ \<Rightarrow> None)"
| "call_fn (Suc depth) st Pipeline_decode p ib isize ob osize =
    (case p of
       Some (Pipeline_params p1 p2 first second) \<Rightarrow>
         (case codec_decoder (st ! second) of
            None \<Rightarrow> None
          | Some f2 \<Rightarrow>
              if isize < 8 \<or> length ib < isize then None
              else (case call_fn depth st f2 p2 ib isize ob (bytes_size (load ib (isize - 8) 8)) of
                 None \<Rightarrow> None
               | Some (ib', ob', ret) \<Rightarrow>
                   if ret = CODING_ERROR then Some (ib', ob', CODING_ERROR)
                   else (case codec_encoder (st ! first) of
                      None \<Rightarrow> None
                    | Some f1 \<Rightarrow>
                        (case decode_transform_type (st ! second) of
                           moving \<Rightarrow> map_option (\<lambda>(a, b, r). (b, a, r))
                             (call_fn depth st f1 (Some (Codec_ptr first)) ob' ret ib' isize)
                         | selective \<Rightarrow> None
                         | _ \<Rightarrow> call_fn depth st f1 (Some (Codec_ptr first)) ib' ret ob' osize))))
     | _ \<Rightarrow> None)"

text \<open>\<open>Checksum<digest_size>\<close>: a coding function reads the checksum function from its parameter.\<close>

definition checksum_max_size :: "nat \<Rightarrow> nat \<Rightarrow> nat" where
  "checksum_max_size digest_size n = n + digest_size"

definition checksum_encode :: "nat \<Rightarrow> codec_param option \<Rightarrow> coder" where
  "checksum_encode digest_size p ib isize ob osize =
    (case p of
       Some (Checksummer f) \<Rightarrow>
         if length ib < isize + digest_size then None
         else map_option (\<lambda>digest. (store ib isize (take digest_size digest), ob, isize + digest_size)) (f ib isize)
     | _ \<Rightarrow> None)"

definition checksum_decode :: "nat \<Rightarrow> codec_param option \<Rightarrow> coder" where
  "checksum_decode digest_size p ib isize ob osize =
    (case p of
       Some (Checksummer f) \<Rightarrow>
         if isize < digest_size \<or> length ib < isize then None
         else let data_size = isize - digest_size
              in map_option (\<lambda>digest. (ib, ob,
                  if load ib data_size digest_size \<noteq> take digest_size digest
                  then CODING_ERROR else data_size)) (f ib data_size)
     | _ \<Rightarrow> None)"

subsection \<open>Looking up codecs\<close>

text \<open>\<open>raw_find_codec\<close>: the first codec of the list with the name.\<close>

fun find_from :: "nat \<Rightarrow> string \<Rightarrow> store \<Rightarrow> nat option" where
  "find_from k name [] = None"
| "find_from k name (c # cs) =
    (if case_insensitive_compare (codec_name c) name = 0 then Some k else find_from (Suc k) name cs)"

definition raw_find_codec :: "string \<Rightarrow> store \<Rightarrow> nat option" where
  "raw_find_codec name st = find_from 0 name st"

definition new_pipeline :: "store \<Rightarrow> nat \<Rightarrow> nat \<Rightarrow> codec" where
  "new_pipeline st first second =
    new_codec (codec_name (st ! first) @ ''+'' @ codec_name (st ! second))
      (codec_version (st ! first) @ ''+'' @ codec_version (st ! second))
      (Some Pipeline_encode) (Some Pipeline_decode) (\<lambda>_. 0) moving moving True
      (Pipeline_codec first second)"

definition new_combination :: "store \<Rightarrow> nat \<Rightarrow> nat \<Rightarrow> codec" where
  "new_combination st encoder decoder =
    new_codec (codec_name (st ! encoder) @ ''/'' @ codec_name (st ! decoder))
      (codec_version (st ! encoder) @ ''/'' @ codec_version (st ! decoder))
      (codec_encoder (st ! encoder)) (codec_decoder (st ! decoder)) (\<lambda>_. 0) moving moving True
      (Combination_codec encoder decoder)"

lemma split_at_length: "split_at c xs = Some (a, b) \<Longrightarrow> length a < length xs \<and> length b < length xs"
  by (induction xs arbitrary: a b) (auto split: if_splits)

function find_codec :: "string \<Rightarrow> store \<Rightarrow> nat option \<times> store" where
  "find_codec name st =
    (case raw_find_codec name st of
       Some k \<Rightarrow> (Some k, st)
     | None \<Rightarrow>
         (case split_at (CHR ''+'') name of
            Some (first_name, second_name) \<Rightarrow>
              (let (first, st1) = find_codec first_name st;
                   (second, st2) = find_codec second_name st1
               in case (first, second) of
                    (Some f, Some s) \<Rightarrow> (Some (length st2), st2 @ [new_pipeline st2 f s])
                  | _ \<Rightarrow> (None, st2))
          | None \<Rightarrow>
              (case split_at (CHR ''/'') name of
                 Some (encoder_name, decoder_name) \<Rightarrow>
                   (case (raw_find_codec encoder_name st, raw_find_codec decoder_name st) of
                      (Some e, Some d) \<Rightarrow> (Some (length st), st @ [new_combination st e d])
                    | _ \<Rightarrow> (None, st))
               | None \<Rightarrow> (None, st))))"
  by auto
termination
  by (relation "measure (\<lambda>(name, st). length name)") (auto dest: split_at_length)

declare find_codec.simps [simp del]

subsection \<open>The store is well-founded\<close>

text \<open>Composed codecs refer to codecs that come before them.\<close>

definition refs :: "codec_class \<Rightarrow> nat list" where
  "refs cls = (case cls of Combination_codec e d \<Rightarrow> [e, d] | Pipeline_codec f s \<Rightarrow> [f, s] | _ \<Rightarrow> [])"

definition store_ok :: "store \<Rightarrow> bool" where
  "store_ok st \<longleftrightarrow> (\<forall>k<length st. \<forall>r\<in>set (refs (codec_class (st ! k))). r < k)"

lemma store_ok_append:
  "store_ok st \<Longrightarrow> \<forall>r\<in>set (refs (codec_class c)). r < length st \<Longrightarrow> store_ok (st @ [c])"
  by (auto simp: store_ok_def nth_append less_Suc_eq)

lemma find_from_Some:
  "find_from k name st = Some j \<Longrightarrow>
    k \<le> j \<and> j < k + length st \<and> case_insensitive_compare (codec_name (st ! (j - k))) name = 0"
proof (induction st arbitrary: k)
  case (Cons c cs)
  then show ?case
    by (cases "case_insensitive_compare (codec_name c) name = 0")
       (auto dest!: Cons.IH simp: nth_Cons' split: if_splits)
qed simp

lemma raw_find_Some:
  "raw_find_codec name st = Some k \<Longrightarrow>
    k < length st \<and> case_insensitive_compare (codec_name (st ! k)) name = 0"
  using find_from_Some [of 0 name st k] by (simp add: raw_find_codec_def)

lemma find_from_None:
  "find_from k name st = None \<longleftrightarrow> (\<forall>c\<in>set st. case_insensitive_compare (codec_name c) name \<noteq> 0)"
  by (induction st arbitrary: k) auto

lemma split_at_Some: "split_at c xs = Some (a, b) \<Longrightarrow> xs = a @ c # b \<and> c \<notin> set a"
  by (induction xs arbitrary: a b) (auto split: if_splits)

lemma split_at_append: "c \<notin> set a \<Longrightarrow> split_at c (a @ c # b) = Some (a, b)"
  by (induction a) auto

text \<open>What \<open>find_codec\<close> returns, and what it does to the list.\<close>

definition find_result :: "string \<Rightarrow> store \<Rightarrow> nat option \<Rightarrow> store \<Rightarrow> bool" where
  "find_result name st r st' \<longleftrightarrow>
    (\<exists>new. st' = st @ new) \<and> (store_ok st \<longrightarrow> store_ok st') \<and>
    (\<forall>k. r = Some k \<longrightarrow> k < length st' \<and> case_insensitive_compare (codec_name (st' ! k)) name = 0)"

lemma find_result_names:
  assumes "find_result a st (Some f) st1" "find_result b st1 (Some s) st2"
  shows "f < length st2 \<and> s < length st2 \<and> map toupper (codec_name (st2 ! f)) = map toupper a \<and>
    map toupper (codec_name (st2 ! s)) = map toupper b"
  using assms by (auto simp: find_result_def compare_eq_0_iff nth_append)

lemma find_result_extend:
  assumes "find_result a st r st1" "find_result b st1 r' st2"
  shows "(\<exists>new. st2 = st @ new) \<and> (store_ok st \<longrightarrow> store_ok st2)"
  using assms by (auto simp: find_result_def)

lemma find_codec_result: "find_codec name st = (r, st') \<Longrightarrow> find_result name st r st'"
proof (induction name st arbitrary: r st' rule: find_codec.induct)
  case (1 name st)
  show ?case
  proof (cases "raw_find_codec name st")
    case (Some k)
    then have "r = Some k" "st' = st" using 1(3) by (simp_all add: find_codec.simps [of name st])
    then show ?thesis using raw_find_Some [OF Some] by (simp add: find_result_def)
  next
    case raw: None
    show ?thesis
    proof (cases "split_at (CHR ''+'') name")
      case (Some p)
      obtain a b where p: "p = (a, b)" by (cases p)
      obtain rf st1 where f: "find_codec a st = (rf, st1)" by fastforce
      obtain rs st2 where s: "find_codec b st1 = (rs, st2)" by fastforce
      note f' = 1(1) [OF raw Some p [symmetric] f]
      note s' = 1(2) [OF raw Some p [symmetric] f [symmetric] refl s]
      note ext = find_result_extend [OF f' s']
      show ?thesis
      proof (cases "\<exists>x y. rf = Some x \<and> rs = Some y")
        case True
        then obtain x y where xy: "rf = Some x" "rs = Some y" by blast
        then have "r = Some (length st2)" "st' = st2 @ [new_pipeline st2 x y]"
          using 1(3) raw Some p f s by (simp_all add: find_codec.simps [of name st])
        moreover have "name = a @ CHR ''+'' # b" using split_at_Some Some p by blast
        ultimately show ?thesis
          using find_result_names [OF f' [unfolded xy] s' [unfolded xy]] ext
          by (auto simp: find_result_def compare_eq_0_iff new_pipeline_def new_codec_def refs_def
              intro!: store_ok_append)
      next
        case False
        then have "r = None" "st' = st2"
          using 1(3) raw Some p f s by (auto simp: find_codec.simps [of name st] split: option.splits)
        then show ?thesis using ext by (simp add: find_result_def)
      qed
    next
      case None
      then show ?thesis
        using 1(3) raw raw_find_Some [of _ st]
        by (auto simp: find_codec.simps [of name st] find_result_def compare_eq_0_iff new_combination_def
            new_codec_def refs_def split: option.splits prod.splits intro!: store_ok_append
            dest!: raw_find_Some split_at_Some)
    qed
  qed
qed

text \<open>A second look-up finds the codec and adds nothing.\<close>

lemma find_codec_again:
  assumes "k < length st" "case_insensitive_compare (codec_name (st ! k)) name = 0"
  shows "\<exists>j. find_codec name st = (Some j, st)"
proof (cases "raw_find_codec name st")
  case None
  then show ?thesis
    using assms nth_mem [OF assms(1)] by (auto simp: raw_find_codec_def find_from_None)
next
  case (Some j)
  then show ?thesis by (simp add: find_codec.simps [of name st])
qed

text \<open>
  C26: the look-up only adds codecs at the end of the list and keeps it well-founded; a codec it
  returns has the name that was asked for, and looking the name up again finds a codec without
  adding another.
\<close>

theorem find_codec_correct:
  assumes "store_ok st" "find_codec name st = (r, st')"
  shows "(\<exists>new. st' = st @ new) \<and> store_ok st' \<and>
    (case r of None \<Rightarrow> True
     | Some k \<Rightarrow> k < length st' \<and> case_insensitive_compare (codec_name (st' ! k)) name = 0 \<and>
         (\<exists>j. find_codec name st' = (Some j, st')))"
  using find_codec_result [OF assms(2)] find_codec_again [of _ st' name] assms(1)
  by (auto simp: find_result_def split: option.split)

definition example_store :: store where
  "example_store =
    [new_codec ''memcpy'' ''0'' (Some (Fn (\<lambda>_. c_memcpy))) (Some (Fn (\<lambda>_. c_memcpy))) no_blowup moving moving True Plain_codec,
     new_codec ''nop'' ''0'' (Some (Fn (\<lambda>_. nop_c))) (Some (Fn (\<lambda>_. nop_d))) no_blowup in_place in_place True Plain_codec]"

theorem find_codec_correct_witness:
  "\<exists>j. find_codec ''NOP/memcpy'' (example_store @ [new_combination example_store 1 0]) =
    (Some j, example_store @ [new_combination example_store 1 0])"
proof -
  have "store_ok example_store"
    by (simp add: store_ok_def example_store_def new_codec_def refs_def less_Suc_eq nth_Cons')
  moreover have "find_codec ''NOP/memcpy'' example_store =
      (Some 2, example_store @ [new_combination example_store 1 0])"
    by (subst find_codec.simps) (simp add: raw_find_codec_def example_store_def new_codec_def toupper_def)
  ultimately show ?thesis
    using find_codec_correct [of example_store "''NOP/memcpy''" "Some 2"] by simp
qed

text \<open>
  C28: a combination of a multifunction codec with itself does not keep its encoder. The comment in
  \<open>CombinationCodec::init\<close> says that \<open>Codec/Codec,Params/Params2\<close> is supported; the arguments
  are shown as given, but the encoder is read from the object after the decoder's arguments have
  replaced it.
\<close>

theorem combination_shares_object:
  assumes "codec_class (st ! k) = Multifunction_codec allowed dflt" "codec_class (st ! c) = Combination_codec k k"
    and "k < length st" "c < length st"
    and "get_type allowed a = Some x" "get_type allowed b = Some y" "a \<noteq> []" "b \<noteq> []" "CHR ''/'' \<notin> set a"
  shows "\<exists>st'. codec_init (Suc (Suc depth)) alloc c (a @ ''/'' @ b) threads True True st = Inr st' \<and>
    codec_args (st' ! c) = a @ ''/'' @ b \<and> codec_encoder (st' ! c) = arg_encoder y \<and>
    codec_decoder (st' ! c) = arg_decoder y"
proof -
  have "k \<noteq> c" using assms(1,2) by auto
  moreover have "split_args (CHR ''/'') (a @ ''/'' @ b) = (a, b)"
    using split_at_append [OF assms(9), of b] by (simp add: split_args_def)
  ultimately show ?thesis
    using assms by (simp add: multifunction_init_def default_args_def nth_list_update)
qed

definition fastlz_args :: "coder \<Rightarrow> coder \<Rightarrow> coder \<Rightarrow> codec_arg list" where
  "fastlz_args fastlz1_c fastlz2_c fastlz_d =
    [\<lparr>arg_name = ''1'', arg_encoder = Some (Fn (\<lambda>_. fastlz1_c)), arg_decoder = Some (Fn (\<lambda>_. fastlz_d))\<rparr>,
     \<lparr>arg_name = ''2'', arg_encoder = Some (Fn (\<lambda>_. fastlz2_c)), arg_decoder = Some (Fn (\<lambda>_. fastlz_d))\<rparr>]"

theorem combination_shares_object_witness:
  "let fastlz = new_codec ''fastlz'' ''0'' None None no_blowup moving moving True
         (Multifunction_codec (fastlz_args c_memcpy c_memset c_memcpy) ''1'');
       st = [fastlz, new_combination [fastlz] 0 0]
   in \<exists>st'. codec_init 2 (\<lambda>_. 0) 1 ''1/2'' 1 True True st = Inr st' \<and>
     codec_args (st' ! 1) = ''1/2'' \<and> codec_encoder (st' ! 1) = Some (Fn (\<lambda>_. c_memset))"
proof -
  let ?fastlz = "new_codec ''fastlz'' ''0'' None None no_blowup moving moving True
         (Multifunction_codec (fastlz_args c_memcpy c_memset c_memcpy) ''1'')"
  have y: "get_type (fastlz_args c_memcpy c_memset c_memcpy) ''2'' =
      Some \<lparr>arg_name = ''2'', arg_encoder = Some (Fn (\<lambda>_. c_memset)), arg_decoder = Some (Fn (\<lambda>_. c_memcpy))\<rparr>"
    by (simp add: fastlz_args_def toupper_def)
  have x: "get_type (fastlz_args c_memcpy c_memset c_memcpy) ''1'' =
      Some \<lparr>arg_name = ''1'', arg_encoder = Some (Fn (\<lambda>_. c_memcpy)), arg_decoder = Some (Fn (\<lambda>_. c_memcpy))\<rparr>"
    by (simp add: fastlz_args_def)
  define st where "st = [?fastlz, new_combination [?fastlz] 0 0]"
  have st: "codec_class (st ! 0) = Multifunction_codec (fastlz_args c_memcpy c_memset c_memcpy) ''1''"
    "codec_class (st ! 1) = Combination_codec 0 0" "0 < length st" "1 < length st"
    by (simp_all add: st_def new_combination_def new_codec_def)
  have "''1'' @ ''/'' @ ''2'' = ''1/2''" by simp
  then show ?thesis
    using combination_shares_object [OF st x y, of 0 "\<lambda>_. 0" 1]
    unfolding st_def [symmetric] Let_def numeral_2_eq_2 by fastforce
qed

text \<open>
  \<open>CodecWithIntModes::init\<close> accepts arguments that are not numbers. The conversion fails
  without an exception when the text does not begin with a number, and the mode becomes 0.
\<close>

theorem int_modes_accepts_text:
  assumes "args \<noteq> []" "digit (hd args) = None" "\<not> is_space (hd args)" "hd args \<notin> {CHR ''-'', CHR ''+''}"
    and "min_mode \<le> 0" "0 \<le> max_mode"
  shows "\<exists>c'. int_modes_init min_mode max_mode dflt args threads c = Inr c' \<and>
    eparams c' = Some (replicate threads (Some (Mode 0)))"
proof -
  obtain x xs where args: "args = x # xs" using assms(1) by (cases args) auto
  then have "from_string args = Some 0"
    using assms(2-4) by (simp add: from_string_def read_sign_def)
  then show ?thesis
    using assms by (simp add: int_modes_init_def default_args_def Let_def)
qed

theorem int_modes_accepts_text_witness:
  "\<exists>c'. int_modes_init 0 9 ''6'' ''fast'' 2 (hd example_store) = Inr c' \<and> eparams c' = Some [Some (Mode 0), Some (Mode 0)]"
  using int_modes_accepts_text [of "''fast''" 0 9 "''6''" 2 "hd example_store"]
  by (simp add: digit_def is_space_def numeral_2_eq_2)

text \<open>A number followed by something else is refused.\<close>

lemma from_string_examples:
  "from_string ''12'' = Some 12" "from_string ''-3'' = Some (- 3)" "from_string ''12a'' = None"
  by (simp_all add: from_string_def read_sign_def digit_def is_space_def)

subsection \<open>Checksums\<close>

text \<open>
  C27: a checksum codec leaves the data where it is and appends the digest; its decoder accepts a
  block of the same length exactly when the digest that follows the data is the data's. A changed
  block passes only if the checksum function collides.
\<close>

theorem checksum_codec_correct:
  assumes "n + ds \<le> length ib" "\<And>b. n \<le> length b \<Longrightarrow> f b n = Some (h (take n b))" "\<And>d. ds \<le> length (h d)"
    and "0 < n" "length ib2 = length ib" "load ib2 n ds = take ds (h (take n ib))"
  shows "\<exists>ib'. checksum_encode ds (Some (Checksummer f)) ib n ob m = Some (ib', ob, n + ds) \<and>
      take n ib' = take n ib \<and> load ib' n ds = take ds (h (take n ib)) \<and>
      checksum_decode ds (Some (Checksummer f)) ib' (n + ds) ob m = Some (ib', ob, n) \<and>
      checksum_decode ds (Some (Checksummer f)) ib2 (n + ds) ob m =
        Some (ib2, ob, if take ds (h (take n ib2)) = take ds (h (take n ib)) then n else CODING_ERROR)"
proof -
  let ?d = "take ds (h (take n ib))"
  let ?ib = "store ib n ?d"
  have d: "length ?d = ds" using assms(3) by simp
  have 1: "take n ?ib = take n ib" using assms(1) by (simp add: store_def)
  have 2: "load ?ib n ds = ?d"
    using assms(1) d load_store_same [of n ?d ib] by simp
  have 3: "length ?ib = length ib" using assms(1) d length_store [of n ?d ib] by simp
  show ?thesis
    using assms 1 2 3 d by (auto simp: checksum_encode_def checksum_decode_def Let_def)
qed

theorem checksum_codec_correct_witness:
  "\<exists>ib'. checksum_encode 1 (Some (Checksummer (\<lambda>b n. Some [sum_list (take n b)]))) [1, 2, 3, 0, 0] 3 [] 9 = Some (ib', [], 4) \<and>
    checksum_decode 1 (Some (Checksummer (\<lambda>b n. Some [sum_list (take n b)]))) [1, 2, 4, 6, 0] 4 [] 9 =
      Some ([1, 2, 4, 6, 0], [], CODING_ERROR)"
  using checksum_codec_correct [of 3 1 "[1, 2, 3, 0, 0]" "\<lambda>b n. Some [sum_list (take n b)]" "\<lambda>d. [sum_list d]" "[1, 2, 4, 6, 0]" "[]" 9]
  by (auto simp: load_def eval_nat_numeral)

text \<open>
  A checksum function whose digest of \<open>ds\<close> bytes depends on the data only. With such a function the
  codec keeps the contract of a codec that works in place, in blocks with room for the digest.
\<close>

locale checksum_function =
  fixes f :: checksum_t and h :: "byte list \<Rightarrow> byte list" and ds :: nat
  assumes digest: "n \<le> length b \<Longrightarrow> f b n = Some (h (take n b))"
    and digest_size: "ds \<le> length (h d)"
begin

lemma stored_digest:
  assumes "n + ds \<le> length ib"
  shows "checksum_encode ds (Some (Checksummer f)) ib n ob m =
      Some (store ib n (take ds (h (take n ib))), ob, n + ds)"
    and "take (n + ds) (store ib n (take ds (h (take n ib)))) = take n ib @ take ds (h (take n ib))"
  using assms digest_size [of "take n ib"] digest [of n ib]
  by (simp_all add: checksum_encode_def store_def)

lemma accepted_digest:
  assumes "0 < n" "n + ds \<le> length ib" "take (n + ds) ib = d @ take ds (h d)" "length d = n"
  shows "checksum_decode ds (Some (Checksummer f)) ib (n + ds) ob m = Some (ib, ob, n)"
proof -
  have "take n ib = take n (take (n + ds) ib)" by simp
  then have d: "take n ib = d" unfolding assms(3) using assms(4) by simp
  have "load ib n ds = drop n (take (n + ds) ib)" by (simp add: load_def take_drop add.commute)
  then have "load ib n ds = take ds (h d)" unfolding assms(3) using assms(4) by simp
  then show ?thesis using assms(1,2) digest [of n ib] d by (simp add: checksum_decode_def)
qed

lemma keeps_data:
  assumes "bs + ds \<le> w"
  shows "in_place_codec (checksum_encode ds (Some (Checksummer f)))
    {checksum_decode ds (Some (Checksummer f))} w bs"
proof
  fix ib ob :: "byte list" and n m :: nat
  assume *: "length ib = w" "length ob = w" "0 < n" "n \<le> bs"
  let ?D = "take ds (h (take n ib))" and ?decs = "{checksum_decode ds (Some (Checksummer f))}"
  have fits: "n + ds \<le> length ib" "length ?D = ds"
    using * assms digest_size [of "take n ib"] by simp_all
  note stored = stored_digest [OF fits(1)]
  have "acceptable ?decs w (n + ds) (store ib n ?D) n"
    unfolding acceptable_def stored(2)
  proof (intro ballI allI impI, elim conjE)
    fix dec and ib2 ob2 :: "byte list"
    assume 2: "dec \<in> ?decs" "length ib2 = w" "length ob2 = w" "take (n + ds) ib2 = take n ib @ ?D"
    then have "dec ib2 (n + ds) ob2 n = Some (ib2, ob2, n)"
      using accepted_digest [OF *(3) _ 2(4)] fits * by simp
    then show "\<exists>ib' ob' k. dec ib2 (n + ds) ob2 n = Some (ib', ob', k) \<and> k \<noteq> CODING_ERROR \<and>
        length ib' = w \<and> length ob' = w \<and> take (n + ds) ib' = take n ib @ ?D"
      using 2 *(3) by (simp add: CODING_ERROR_def)
  qed
  moreover have "length (store ib n ?D) = w" "take n (store ib n ?D) = take n ib"
    using fits * by (simp, simp add: store_def)
  ultimately show "\<exists>ib' ob' r. checksum_encode ds (Some (Checksummer f)) ib n ob m = Some (ib', ob', r) \<and>
      length ib' = w \<and> length ob' = w \<and> n \<le> r \<and> r \<le> w \<and> take n ib' = take n ib \<and>
      acceptable ?decs w r ib' n"
    using stored(1) fits * by auto
qed

end

subsection \<open>Pipelines\<close>

text \<open>The block a coder of the given type leaves its result in.\<close>

definition result_block :: "transform_type \<Rightarrow> 'a \<Rightarrow> 'a \<Rightarrow> 'a" where
  "result_block tt ib ob = (if tt = moving then ob else ib)"

lemma combined_transform_type_block:
  "result_block (combined_transform_type t1 t2) ib ob =
    (if t1 = moving then result_block t2 ob ib else result_block t2 ib ob)"
  by (auto simp: result_block_def combined_transform_type_def)



end
