(* ===== verification/Codec_Table.thy ===== *)
theory Codec_Table
  imports Abstract_Codecs
begin

text \<open>
  The tables of \<open>codecs.cpp\<close>: the codecs the program is built with, and the lists of codecs that the
  pseudocodecs of the command line stand for. Which codecs there are depends on preprocessor macros,
  so the tables say which macros an entry needs. Functions of third-party libraries, and of wrappers
  that only call them, are known by their names; what they do is a parameter.
\<close>

subsection \<open>Entries\<close>

datatype size_fn = No_blowup | Default_size | Named_size string

datatype table_entry =
    Codec_entry string string "string option" "string option" size_fn transform_type transform_type
  | Int_modes_entry string string "string option" "string option" int int string size_fn
  | Multifunction_entry string string "(string \<times> string \<times> string) list" string size_fn
  | Buffered_entry string string "string option" "string option" size_fn "nat + string" nat
  | Checksum_entry nat string string string
  | Class_entry string string

fun entry_name :: "table_entry \<Rightarrow> string" where
  "entry_name (Codec_entry name version e d sz ett dtt) = name"
| "entry_name (Int_modes_entry name version e d lo hi dflt sz) = name"
| "entry_name (Multifunction_entry name version args dflt sz) = name"
| "entry_name (Buffered_entry name version e d sz bufsize align) = name"
| "entry_name (Checksum_entry digest_size name version f) = name"
| "entry_name (Class_entry name version) = name"

text \<open>What the program is linked with: functions, sizes and objects of further classes by name.\<close>

record library =
  lib_fn :: "string \<Rightarrow> codec_param option \<Rightarrow> coder"
  lib_size :: "string \<Rightarrow> nat \<Rightarrow> nat"
  lib_const :: "string \<Rightarrow> nat"
  lib_checksum :: "string \<Rightarrow> checksum_t"
  lib_object :: "string \<Rightarrow> codec"

definition size_of :: "library \<Rightarrow> size_fn \<Rightarrow> nat \<Rightarrow> nat" where
  "size_of L sz =
    (case sz of No_blowup \<Rightarrow> no_blowup | Default_size \<Rightarrow> max_compressed_size | Named_size f \<Rightarrow> lib_size L f)"

definition fn_of :: "library \<Rightarrow> string option \<Rightarrow> fn_ptr option" where
  "fn_of L f = map_option (\<lambda>n. Fn (lib_fn L n)) f"

text \<open>The constructors of the classes, with the default arguments of their declarations.\<close>

fun codec_of :: "library \<Rightarrow> table_entry \<Rightarrow> codec" where
  "codec_of L (Codec_entry name version e d sz ett dtt) =
    new_codec name version (fn_of L e) (fn_of L d) (size_of L sz) ett dtt True Plain_codec"
| "codec_of L (Int_modes_entry name version e d min_mode max_mode dflt sz) =
    new_codec name version (fn_of L e) (fn_of L d) (size_of L sz) moving moving True
      (Codec_with_int_modes min_mode max_mode dflt)"
| "codec_of L (Multifunction_entry name version args dflt sz) =
    new_codec name version None None (size_of L sz) moving moving True
      (Multifunction_codec
        (map (\<lambda>(n, e, d). \<lparr>arg_name = n, arg_encoder = fn_of L (Some e), arg_decoder = fn_of L (Some d)\<rparr>) args) dflt)"
| "codec_of L (Buffered_entry name version e d sz bufsize align) =
    new_codec name version (fn_of L e) (fn_of L d) (size_of L sz) moving moving True
      (Buffered_codec (case bufsize of Inl n \<Rightarrow> n | Inr c \<Rightarrow> lib_const L c) align)"
| "codec_of L (Checksum_entry digest_size name version f) =
    new_codec name version (Some (Fn (checksum_encode digest_size))) (Some (Fn (checksum_decode digest_size)))
      (checksum_max_size digest_size) in_place in_place False (Checksum_codec (lib_checksum L f))"
| "codec_of L (Class_entry name version) =
    (lib_object L name)\<lparr>codec_name := name, codec_version := version\<rparr>"

subsection \<open>The codecs\<close>

definition fastlz_args_table :: "(string \<times> string \<times> string) list" where
  "fastlz_args_table =
    [(''1'', ''fastlz1_c'', ''fastlz_d''), (''2'', ''fastlz2_c'', ''fastlz_d'')]"

definition LZF_args :: "(string \<times> string \<times> string) list" where
  "LZF_args =
    [('''', ''LZF_c'', ''LZF_d''), (''very'', ''LZF_very_c'', ''LZF_d''), (''ultra'', ''LZF_ultra_c'', ''LZF_d'')]"

definition LRRLE_args :: "(string \<times> string \<times> string) list" where
  "LRRLE_args =
    [(''64'', ''lrrle64_c'', ''lrrle64_d''), (''128'', ''lrrle128_c'', ''lrrle128_d''), (''192'', ''lrrle192_c'', ''lrrle192_d''), (''256'', ''lrrle256_c'', ''lrrle256_d'')]"

definition RLE64_args :: "(string \<times> string \<times> string) list" where
  "RLE64_args =
    [(''8'', ''RLE8_c'', ''RLE8_d''), (''16'', ''RLE16_c'', ''RLE16_d''), (''32'', ''RLE32_c'', ''RLE32_d''), (''64'', ''RLE64_c'', ''RLE64_d'')]"

definition multifunction_codecs :: "(string list \<times> table_entry list) list" where
  "multifunction_codecs =
    [([''FSBENCH_USE_FASTLZ''],
      [Multifunction_entry ''fastlz'' ''0.1.0'' fastlz_args_table ''1'' (Named_size ''fastlz_m'')]),
     ([''FSBENCH_USE_LRRLE''],
      [Multifunction_entry ''lrrle'' ''0'' LRRLE_args ''256'' Default_size]),
     ([''FSBENCH_USE_LZF''],
      [Multifunction_entry ''LZF'' ''3.6'' LZF_args '''' No_blowup]),
     ([''FSBENCH_USE_RLE64''],
      [Multifunction_entry ''RLE64'' ''R3.00'' RLE64_args ''64'' Default_size])]"

definition int_mode_codecs :: "(string list \<times> table_entry list) list" where
  "int_mode_codecs =
    [([''FSBENCH_USE_7Z''],
      [Int_modes_entry ''7z-deflate'' ''9.20'' (Some ''FsBench7z::deflate'') (Some ''FsBench7z::inflate'') 1 9 ''5'' No_blowup,
       Int_modes_entry ''7z-deflate64'' ''9.20'' (Some ''FsBench7z::deflate64'') (Some ''FsBench7z::inflate64'') 1 9 ''5'' No_blowup]),
     ([''FSBENCH_USE_BLOSC''],
      [Int_modes_entry ''blosc'' ''1.2.3'' (Some ''blosc_c'') (Some ''blosc_d'') 1 9 ''5'' No_blowup]),
     ([''FSBENCH_USE_BZ2''],
      [Int_modes_entry ''bzip2'' ''1.0.6'' (Some ''bz2_c'') (Some ''bz2_d'') 1 9 ''9'' No_blowup]),
     ([''FSBENCH_USE_CRUSH''],
      [Int_modes_entry ''crush'' ''0.0.1'' (Some ''crush_c'') (Some ''crush_d'') 0 2 ''0'' Default_size]),
     ([''FSBENCH_USE_CRYPTOPP''],
      [Int_modes_entry ''cryptopp-deflate'' ''5.6.1'' (Some ''FsBenchCryptoPP::deflate'') (Some ''FsBenchCryptoPP::inflate'') 1 9 ''6'' No_blowup]),
     ([''FSBENCH_USE_LODEPNG''],
      [Int_modes_entry ''lodepng'' ''20120729'' (Some ''lodepng_c'') (Some ''lodepng_d'') 64 32768 ''32768'' No_blowup]),
     ([''FSBENCH_USE_LZG''],
      [Int_modes_entry ''lzg'' ''1.0.6'' (Some ''LZG_c'') (Some ''LZG_d'') 1 9 ''5'' (Named_size ''LZG_m'')]),
     ([''FSBENCH_USE_LZP_DS''],
      [Int_modes_entry ''lzp_ds'' ''v0'' (Some ''lzp_ds_c'') (Some ''lzp_ds_d'') 1 512 ''32'' Default_size]),
     ([''FSBENCH_USE_LZX_COMPRESS''],
      [Int_modes_entry ''lzx_compress'' ''2005-07-06'' (Some ''LZX_c'') None 15 21 ''21'' Default_size]),
     ([''FSBENCH_USE_MINIZ''],
      [Int_modes_entry ''miniz'' ''1.11'' (Some ''miniz_c'') (Some ''miniz_d'') 1 10 ''6'' No_blowup]),
     ([''FSBENCH_USE_PG_LZ''],
      [Int_modes_entry ''pg_lz'' ''9.3.4'' (Some ''pg_lz_c'') (Some ''pg_lz_d'') 0 1 ''0'' No_blowup]),
     ([''FSBENCH_USE_ZLIB''],
      [Int_modes_entry ''zlib'' ''1.2.8'' (Some ''zlib_c'') (Some ''zlib_d'') 1 9 ''6'' No_blowup]),
     ([''FSBENCH_USE_ZLIB_INTEL''],
      [Int_modes_entry ''zlib'' ''2014-06-16 Intel'' (Some ''zlib_c'') (Some ''zlib_d'') 1 9 ''6'' No_blowup]),
     ([''FSBENCH_USE_ZLING''],
      [Int_modes_entry ''zling'' ''20140324'' (Some ''FsBenchZling::zling_c'') (Some ''FsBenchZling::zling_d'') 0 4 ''0'' No_blowup]),
     ([''FSBENCH_USE_ZOPFLI''],
      [Int_modes_entry ''zopfli'' ''1.0.0'' (Some ''zopfli_c'') None 1 1000000 ''15'' No_blowup])]"

definition plain_codecs :: "(string list \<times> table_entry list) list" where
  "plain_codecs =
    [([''FSBENCH_USE_AR''],
      [Codec_entry ''ar'' ''2013-06-03'' (Some ''FsBenchAr::ar_c'') (Some ''FsBenchAr::ar_d'') No_blowup moving moving]),
     ([''FSBENCH_USE_BCL''],
      [Codec_entry ''bcl-huffman'' ''1.2.0'' (Some ''FsBenchBCL::huffman'') (Some ''FsBenchBCL::unhuffman'') (Named_size ''FsBenchBCL::huffman_maxsize'') moving moving,
       Codec_entry ''bcl-lz'' ''1.2.0'' (Some ''FsBenchBCL::lz'') (Some ''FsBenchBCL::unlz'') (Named_size ''FsBenchBCL::lz_maxsize'') moving moving,
       Codec_entry ''bcl-rle'' ''1.2.0'' (Some ''FsBenchBCL::rle'') (Some ''FsBenchBCL::unrle'') (Named_size ''FsBenchBCL::rle_maxsize'') moving moving,
       Class_entry ''bcl-lzfast'' ''1.2.0'']),
     ([''FSBENCH_USE_BROTLI''],
      [Codec_entry ''Brotli'' ''2015-02-01'' (Some ''brotli_c'') (Some ''brotli_d'') No_blowup moving moving]),
     ([''FSBENCH_USE_DOBOZ''],
      [Codec_entry ''Doboz'' ''2011-03-19'' (Some ''Doboz_c'') (Some ''Doboz_d'') No_blowup moving moving]),
     ([''FSBENCH_USE_DENSITY''],
      [Codec_entry ''density::chameleon'' ''0.12.5 beta'' (Some ''density_chameleon_compress'') (Some ''density_decompress'') No_blowup moving moving,
       Codec_entry ''density::cheetah'' ''0.12.5 beta'' (Some ''density_cheetah_compress'') (Some ''density_decompress'') No_blowup moving moving,
       Codec_entry ''density::lion'' ''0.12.5 beta'' (Some ''density_lion_compress'') (Some ''density_decompress'') No_blowup moving moving]),
     ([''FSBENCH_USE_FSE''],
      [Codec_entry ''fse'' ''2014-04-07'' (Some ''fse_c'') (Some ''fse_d'') (Named_size ''fse_m'') moving moving]),
     ([''FSBENCH_USE_GIPFELI''],
      [Codec_entry ''gipfeli'' ''2014-06-27'' (Some ''FsBenchGipfeli::compress'') (Some ''FsBenchGipfeli::decompress'') (Named_size ''FsBenchGipfeli::max_size'') moving moving]),
     ([''FSBENCH_USE_HALIBUT''],
      [Codec_entry ''Halibut-deflate'' ''SVN r9550'' (Some ''halibut_c'') (Some ''halibut_d'') No_blowup moving moving]),
     ([''FSBENCH_USE_LZ4''],
      [Codec_entry ''LZ4 fast 17'' ''r129'' (Some ''LZ4_cf17'') (Some ''LZ4_d_safe'') No_blowup moving moving,
       Codec_entry ''LZ4 fast 3'' ''r129'' (Some ''LZ4_cf3'') (Some ''LZ4_d_safe'') No_blowup moving moving,
       Codec_entry ''LZ4'' ''r129'' (Some ''LZ4_c'') (Some ''LZ4_d_safe'') No_blowup moving moving,
       Codec_entry ''LZ4hc'' ''r129'' (Some ''LZ4hc_c'') (Some ''LZ4_d_fast'') No_blowup moving moving,
       Codec_entry ''LZ4safe'' ''r129'' None (Some ''LZ4_d_safe'') No_blowup moving moving]),
     ([''FSBENCH_USE_LZFX''],
      [Codec_entry ''LZFX'' ''r16'' (Some ''LZFX_c'') (Some ''LZFX_d'') Default_size moving moving]),
     ([''FSBENCH_USE_ZFS''],
      [Codec_entry ''lzjb'' ''FreeBSD r263244'' (Some ''LZJB_c'') (Some ''LZJB_d'') No_blowup moving moving]),
     ([''FSBENCH_USE_LZMAT''],
      [Codec_entry ''lzmat'' ''1.1'' (Some ''lzmat_c'') (Some ''lzmat_d'') No_blowup moving moving]),
     ([''FSBENCH_USE_LZV1''],
      [Buffered_entry ''LZV1'' ''0.5'' (Some ''LZV1_c'') (Some ''LZV1_d'') No_blowup (Inl 32768) 2]),
     ([''FSBENCH_USE_LZWC''],
      [Codec_entry ''LZWC'' ''0.4'' (Some ''LZWC_c'') (Some ''LZWC_d'') No_blowup moving moving]),
     ([''FSBENCH_USE_MMINI''],
      [Buffered_entry ''mmini_huffman'' ''2012-12-23'' (Some ''mmini_huffman_c'') (Some ''mmini_huffman_d'') No_blowup (Inr ''MMINI_HUFFHEAP_SIZE'') 1,
       Codec_entry ''mmini_lzl'' ''2012-12-23'' (Some ''mmini_lzl_c'') (Some ''mmini_lzl_d'') No_blowup moving moving])]"

definition nakamichi_codecs :: "(string list \<times> table_entry list) list" where
  "nakamichi_codecs =
    [([''FSBENCH_USE_NAKAMICHI''],
      [Codec_entry ''Nakamichi'' ''Kaidanji FIX'' (Some ''nakamichi_Kaidanji_c'') (Some ''nakamichi_Kaidanji_d'') Default_size moving moving,
       Codec_entry ''Nakamichi-Aratama'' ''Aratama'' (Some ''nakamichi_Aratama_c'') (Some ''nakamichi_Aratama_d'') Default_size moving moving,
       Codec_entry ''Nakamichi-Butsuhira'' ''Butsuhira'' (Some ''nakamichi_Butsuhira_c'') (Some ''nakamichi_Butsuhira_d'') Default_size moving moving,
       Codec_entry ''Nakamichi-ButsuhiraBranchless'' ''ButsuhiraBranchless'' (Some ''nakamichi_ButsuhiraBranchless_c'') (Some ''nakamichi_ButsuhiraBranchless_d'') Default_size moving moving,
       Codec_entry ''Nakamichi-Daikuni'' ''Daikuni'' (Some ''nakamichi_Daikuni_c'') (Some ''nakamichi_Daikuni_d'') Default_size moving moving,
       Codec_entry ''Nakamichi-Hanabi'' ''Hanabi'' (Some ''nakamichi_Hanabi_c'') (Some ''nakamichi_Hanabi_d'') Default_size moving moving,
       Codec_entry ''Nakamichi-Hanazakari'' ''Hanazakari'' (Some ''nakamichi_Hanazakari_c'') (Some ''nakamichi_Hanazakari_d'') Default_size moving moving,
       Codec_entry ''Nakamichi-Hitomi'' ''Hitomi'' (Some ''nakamichi_Hitomi_c'') (Some ''nakamichi_Hitomi_d'') Default_size moving moving,
       Codec_entry ''Nakamichi-Inazuma'' ''Inazuma'' (Some ''nakamichi_Inazuma_c'') (Some ''nakamichi_Inazuma_d'') Default_size moving moving,
       Codec_entry ''Nakamichi-Jiten'' ''Jiten'' (Some ''nakamichi_Jiten_c'') (Some ''nakamichi_Jiten_d'') Default_size moving moving,
       Codec_entry ''Nakamichi-Kaibutsu'' ''Kaibutsu'' (Some ''nakamichi_Kaibutsu_c'') (Some ''nakamichi_Kaibutsu_d'') Default_size moving moving,
       Codec_entry ''Nakamichi-Kaiko'' ''Kaiko'' (Some ''nakamichi_Kaiko_c'') (Some ''nakamichi_Kaiko_d'') Default_size moving moving,
       Codec_entry ''Nakamichi-Kinezumi'' ''Kinezumi'' (Some ''nakamichi_Kinezumi_c'') (Some ''nakamichi_Kinezumi_d'') Default_size moving moving,
       Codec_entry ''Nakamichi-Kinroba'' ''Kinroba'' (Some ''nakamichi_Kinroba_c'') (Some ''nakamichi_Kinroba_d'') Default_size moving moving,
       Codec_entry ''Nakamichi-Kinutora'' ''Kinutora'' (Some ''nakamichi_Kinutora_c'') (Some ''nakamichi_Kinutora_d'') Default_size moving moving,
       Codec_entry ''Nakamichi-Kitsune'' ''Kitsune'' (Some ''nakamichi_Kitsune_c'') (Some ''nakamichi_Kitsune_d'') Default_size moving moving,
       Codec_entry ''Nakamichi-Kumataka'' ''Kumataka'' (Some ''nakamichi_Kumataka_c'') (Some ''nakamichi_Kumataka_d'') Default_size moving moving,
       Codec_entry ''Nakamichi-Nekomata'' ''Nekomata'' (Some ''nakamichi_Nekomata_c'') (Some ''nakamichi_Nekomata_d'') Default_size moving moving,
       Codec_entry ''Nakamichi-Nin'' ''Nin'' (Some ''nakamichi_Nin_c'') (Some ''nakamichi_Nin_d'') Default_size moving moving,
       Codec_entry ''Nakamichi-Nirenpatsu'' ''Nirenpatsu'' (Some ''nakamichi_Nirenpatsu_c'') (Some ''nakamichi_Nirenpatsu_d'') Default_size moving moving,
       Codec_entry ''Nakamichi-Sanagi'' ''Sanagi'' (Some ''nakamichi_Sanagi_c'') (Some ''nakamichi_Sanagi_d'') Default_size moving moving,
       Codec_entry ''Nakamichi-Sanbashi'' ''Sanbashi'' (Some ''nakamichi_Sanbashi_c'') (Some ''nakamichi_Sanbashi_d'') Default_size moving moving,
       Codec_entry ''Nakamichi-Sanrenpatsu'' ''Sanrenpatsu'' (Some ''nakamichi_Sanrenpatsu_c'') (Some ''nakamichi_Sanrenpatsu_d'') Default_size moving moving,
       Codec_entry ''Nakamichi-Sanshi'' ''Sanshi'' (Some ''nakamichi_Sanshi_c'') (Some ''nakamichi_Sanshi_d'') Default_size moving moving,
       Codec_entry ''Nakamichi-Suiken'' ''Suiken'' (Some ''nakamichi_Suiken_c'') (Some ''nakamichi_Suiken_d'') Default_size moving moving,
       Codec_entry ''Nakamichi-Tengu'' ''Tengu'' (Some ''nakamichi_Tengu_c'') (Some ''nakamichi_Tengu_d'') Default_size moving moving,
       Codec_entry ''Nakamichi-Washi'' ''Washi'' (Some ''nakamichi_Washi_c'') (Some ''nakamichi_Washi_d'') Default_size moving moving,
       Codec_entry ''Nakamichi-Yoko'' ''Yoko'' (Some ''nakamichi_Yoko_c'') (Some ''nakamichi_Yoko_d'') Default_size moving moving,
       Codec_entry ''Nakamichi-Zangetsu'' ''Zangetsu'' (Some ''nakamichi_Zangetsu_c'') (Some ''nakamichi_Zangetsu_d'') Default_size moving moving,
       Codec_entry ''Nakamichi-M'' ''M2.0'' (Some ''nakamichi_m_c'') (Some ''nakamichi_m_d'') Default_size moving moving])]"

definition other_codecs :: "(string list \<times> table_entry list) list" where
  "other_codecs =
    [([''FSBENCH_USE_NOBUO_ITO_LZSS''],
      [Codec_entry ''Nobuo-Ito-LZSS'' ''1.0'' (Some ''nobuo_ito_lzss_c'') (Some ''nobuo_ito_lzss_d'') Default_size moving moving]),
     ([''FSBENCH_USE_QUICKLZZIP''],
      [Codec_entry ''QuickLZ-zip'' ''0.4'' (Some ''qlzzip_c'') None Default_size moving moving]),
     ([''FSBENCH_USE_SHRINKER''],
      [Codec_entry ''Shrinker'' ''r6'' (Some ''Shrinker_c'') (Some ''Shrinker_d'') (Named_size ''Shrinker_m'') moving moving]),
     ([''FSBENCH_USE_SNAPPY''],
      [Codec_entry ''Snappy'' ''1.1.0'' (Some ''snappy_c'') (Some ''snappy_d'') (Named_size ''snappy_m'') moving moving]),
     ([''FSBENCH_USE_TINF''],
      [Codec_entry ''tinf'' ''1.00'' None (Some ''FsBenchTinf::inflate'') No_blowup moving moving]),
     ([''FSBENCH_USE_WFLZ''],
      [Buffered_entry ''wfLZ'' ''r10'' (Some ''wfLZ_fast_c'') (Some ''wfLZ_d'') (Named_size ''wfLZ_m'') (Inr ''wfLZ_mem()'') 8,
       Buffered_entry ''wfLZ_fast'' ''r10'' (Some ''wfLZ_c'') (Some ''wfLZ_d'') (Named_size ''wfLZ_m'') (Inr ''wfLZ_mem()'') 8]),
     ([''FSBENCH_USE_Z3LIB''],
      [Buffered_entry ''z3lib'' ''1.3'' (Some ''FsBenchZ3Lib::z3lib_c'') (Some ''FsBenchZ3Lib::z3lib_d'') No_blowup (Inr ''FsBenchZ3Lib::mem_size'') 1]),
     ([''FSBENCH_USE_NRV''],
      [Class_entry ''nrv2b'' ''1.03'',
       Class_entry ''nrv2d'' ''1.03'',
       Class_entry ''nrv2e'' ''1.03'']),
     ([''FSBENCH_USE_BLZ''],
      [Class_entry ''BriefLZ'' ''1.0.5'']),
     ([''FSBENCH_USE_LZHAM''],
      [Class_entry ''LZHAM'' ''2015-01-31'']),
     ([''FSBENCH_USE_LZO''],
      [Class_entry ''LZO'' ''2.08'']),
     ([''FSBENCH_USE_LZSS_IM''],
      [Class_entry ''LZSS-IM'' ''2008-07-31'']),
     ([''FSBENCH_USE_QUICKLZ''],
      [Class_entry ''QuickLZ'' ''1.5.1b6'']),
     ([''FSBENCH_USE_SCZ''],
      [Class_entry ''scz'' ''2008-11-25'']),
     ([''FSBENCH_USE_TOR''],
      [Class_entry ''tornado'' ''0.6a'']),
     ([''FSBENCH_USE_YAPPY''],
      [Class_entry ''Yappy'' ''v2'']),
     ([''FSBENCH_USE_ZSTD''],
      [Codec_entry ''ZSTD'' ''2015-01-31'' (Some ''ZSTD_c'') (Some ''ZSTD_d'') No_blowup moving moving])]"

definition checksum_codecs :: "(string list \<times> table_entry list) list" where
  "checksum_codecs =
    [([''FSBENCH_USE_BLAKE2''],
      [Checksum_entry 64 ''Blake2b'' ''20121223'' ''fsbench_blake2b'',
       Checksum_entry 64 ''Blake2bp'' ''20121223'' ''fsbench_blake2bp'',
       Checksum_entry 32 ''Blake2s'' ''20121223'' ''fsbench_blake2s'',
       Checksum_entry 32 ''Blake2sp'' ''20121223'' ''fsbench_blake2sp'']),
     ([''FSBENCH_USE_CITYHASH''],
      [Checksum_entry 4 ''CityHash32'' ''1.1.0'' ''CityHash32'',
       Checksum_entry 8 ''CityHash64'' ''1.1.0'' ''CityHash64'',
       Checksum_entry 16 ''CityHash128'' ''1.1.0'' ''CityHash128'']),
     ([''FSBENCH_USE_CRAPWOW''],
      [Checksum_entry 4 ''CrapWow'' ''2012-06-07'' ''CrapWow'']),
     ([''FSBENCH_USE_CRYPTOPP''],
      [Checksum_entry 4 ''cryptopp-adler32'' ''5.6.1'' ''FsBenchCryptoPP::adler32'',
       Checksum_entry 4 ''cryptopp-crc32'' ''5.6.1'' ''FsBenchCryptoPP::crc'',
       Checksum_entry 16 ''cryptopp-md5'' ''5.6.1'' ''FsBenchCryptoPP::md5'',
       Checksum_entry 28 ''cryptopp-sha224'' ''5.6.1'' ''FsBenchCryptoPP::sha224'',
       Checksum_entry 32 ''cryptopp-sha256'' ''5.6.1'' ''FsBenchCryptoPP::sha256'',
       Checksum_entry 48 ''cryptopp-sha384'' ''5.6.1'' ''FsBenchCryptoPP::sha384'',
       Checksum_entry 64 ''cryptopp-sha512'' ''5.6.1'' ''FsBenchCryptoPP::sha512'']),
     ([''FSBENCH_USE_FARMHASH''],
      [Checksum_entry 4 ''FarmHash32'' ''SVN r4'' ''FarmHash32'',
       Checksum_entry 8 ''FarmHash64'' ''SVN r4'' ''FarmHash64'',
       Checksum_entry 16 ''FarmHash128'' ''SVN r4'' ''FarmHash128'']),
     ([''FSBENCH_USE_FASTCRYPTO''],
      [Checksum_entry 8 ''uhash'' ''2007-04-17'' ''FsBenchFastCrypto::uhash'',
       Checksum_entry 16 ''vhash'' ''2007-04-17'' ''FsBenchFastCrypto::vhash'',
       Checksum_entry 8 ''umac'' ''2007-04-17'' ''FsBenchFastCrypto::umac'',
       Checksum_entry 16 ''vmac'' ''2007-04-17'' ''FsBenchFastCrypto::vmac'']),
     ([''FSBENCH_USE_MURMUR''],
      [Checksum_entry 4 ''murmur3_x86_32'' ''2012-02-29'' ''murmur_x86_32'',
       Checksum_entry 16 ''murmur3_x86_128'' ''2012-02-29'' ''murmur_x86_128'',
       Checksum_entry 16 ''murmur3_x64_128'' ''2012-02-29'' ''murmur_x64_128'']),
     ([''FSBENCH_USE_SIPHASH''],
      [Checksum_entry 8 ''SipHash24'' ''reference'' ''siphash'']),
     ([''FSBENCH_USE_SPOOKY''],
      [Checksum_entry 16 ''SpookyHash'' ''V2 2012-08-05'' ''spooky'']),
     ([''FSBENCH_USE_SANMAYCE_FNV''],
      [Checksum_entry 4 ''FNV1a-Jesteress'' ''2013-06-16'' ''fnv1_jesteress'',
       Checksum_entry 4 ''FNV1a-Mantis'' ''2013-06-16'' ''fnv1_mantis'',
       Checksum_entry 4 ''FNV1a-Meiyan'' ''2013-06-16'' ''fnv1_meiyan'',
       Checksum_entry 8 ''FNV1a-Tesla'' ''2013-06-16'' ''fnv1_tesla'',
       Checksum_entry 8 ''FNV1a-Tesla3'' ''2013-06-16'' ''fnv1_tesla3'',
       Checksum_entry 4 ''FNV1a-Yorikke'' ''2013-06-16'' ''fnv1_yorikke'',
       Checksum_entry 4 ''FNV1a-YoshimitsuTRIAD'' ''2013-06-16'' ''fnv1_yoshimitsu_triad'',
       Checksum_entry 8 ''FNV1a-Yoshimura'' ''2013-06-16'' ''fnv1_yoshimura'']),
     ([''FSBENCH_USE_SANMAYCE_FNV'', ''FSBENCH_SSE2''],
      [Checksum_entry 4 ''FNV1a-YoshimitsuTRIADiiXMM'' ''2013-06-16'' ''fnv1_yoshimitsu_triad_iixmm'',
       Checksum_entry 4 ''FNV1a-penumbra'' ''2013-06-16'' ''fnv1_penumbra''])]"

definition sha3_codecs :: "(string list \<times> table_entry list) list" where
  "sha3_codecs =
    [([''FSBENCH_USE_SHA3_RND1''],
      [Checksum_entry 28 ''Edon-R224'' ''v20'' ''FsBenchSHA3::Edon_R::fsbench_hash_224'',
       Checksum_entry 32 ''Edon-R256'' ''v20'' ''FsBenchSHA3::Edon_R::fsbench_hash_256'',
       Checksum_entry 48 ''Edon-R384'' ''v20'' ''FsBenchSHA3::Edon_R::fsbench_hash_384'',
       Checksum_entry 64 ''Edon-R512'' ''v20'' ''FsBenchSHA3::Edon_R::fsbench_hash_512'',
       Checksum_entry 28 ''SWIFFTX224'' ''SHA3 rnd 1 64bit opt'' ''FsBenchSHA3::SWIFFTX::fsbench_hash_224'',
       Checksum_entry 32 ''SWIFFTX256'' ''SHA3 rnd 1 64bit opt'' ''FsBenchSHA3::SWIFFTX::fsbench_hash_256'',
       Checksum_entry 48 ''SWIFFTX384'' ''SHA3 rnd 1 64bit opt'' ''FsBenchSHA3::SWIFFTX::fsbench_hash_384'',
       Checksum_entry 64 ''SWIFFTX512'' ''SHA3 rnd 1 64bit opt'' ''FsBenchSHA3::SWIFFTX::fsbench_hash_512'']),
     ([''FSBENCH_USE_SHA3_RND2''],
      [Checksum_entry 28 ''BlueMidnightWish224'' ''SHA3 rnd 2 64bit opt'' ''FsBenchSHA3::BlueMidnightWish2::fsbench_hash_224'',
       Checksum_entry 32 ''BlueMidnightWish256'' ''SHA3 rnd 2 64bit opt'' ''FsBenchSHA3::BlueMidnightWish2::fsbench_hash_256'',
       Checksum_entry 48 ''BlueMidnightWish384'' ''SHA3 rnd 1 64bit opt'' ''FsBenchSHA3::BlueMidnightWish::fsbench_hash_384'',
       Checksum_entry 64 ''BlueMidnightWish512'' ''SHA3 rnd 1 64bit opt'' ''FsBenchSHA3::BlueMidnightWish::fsbench_hash_512'']),
     ([''FSBENCH_USE_SHA3_RND2'', ''FSBENCH_SSE2''],
      [Checksum_entry 28 ''CubeHash224'' ''SHA3 rnd 1 64bit opt'' ''FsBenchSHA3::CubeHash::fsbench_hash_224'',
       Checksum_entry 32 ''CubeHash256'' ''SHA3 rnd 1 64bit opt'' ''FsBenchSHA3::CubeHash::fsbench_hash_256'',
       Checksum_entry 48 ''CubeHash384'' ''SHA3 rnd 1 64bit opt'' ''FsBenchSHA3::CubeHash::fsbench_hash_384'',
       Checksum_entry 64 ''CubeHash512'' ''SHA3 rnd 1 64bit opt'' ''FsBenchSHA3::CubeHash::fsbench_hash_512'']),
     ([''FSBENCH_USE_SHA3_RND3''],
      [Checksum_entry 28 ''Blake224'' ''SHA3 Final 64bit opt'' ''FsBenchSHA3::Blake::fsbench_hash_224'',
       Checksum_entry 32 ''Blake256'' ''SHA3 Final 64bit opt'' ''FsBenchSHA3::Blake::fsbench_hash_256'',
       Checksum_entry 48 ''Blake384'' ''SHA3 Final 64bit opt'' ''FsBenchSHA3::Blake::fsbench_hash_384'',
       Checksum_entry 64 ''Blake512'' ''SHA3 Final 64bit opt'' ''FsBenchSHA3::Blake::fsbench_hash_512'',
       Checksum_entry 28 ''Keccak224'' ''3.2'' ''FsBenchSHA3::Keccak::fsbench_hash_224'',
       Checksum_entry 32 ''Keccak256'' ''3.2'' ''FsBenchSHA3::Keccak::fsbench_hash_256'',
       Checksum_entry 48 ''Keccak384'' ''3.2'' ''FsBenchSHA3::Keccak::fsbench_hash_384'',
       Checksum_entry 64 ''Keccak512'' ''3.2'' ''FsBenchSHA3::Keccak::fsbench_hash_512'',
       Checksum_entry 28 ''JH224'' ''SHA3 Final 64bit opt'' ''FsBenchSHA3::JH::fsbench_hash_224'',
       Checksum_entry 32 ''JH256'' ''SHA3 Final 64bit opt'' ''FsBenchSHA3::JH::fsbench_hash_256'',
       Checksum_entry 48 ''JH384'' ''SHA3 Final 64bit opt'' ''FsBenchSHA3::JH::fsbench_hash_384'',
       Checksum_entry 64 ''JH512'' ''SHA3 Final 64bit opt'' ''FsBenchSHA3::JH::fsbench_hash_512'',
       Checksum_entry 28 ''Skein224'' ''SHA3 Final 64bit opt'' ''FsBenchSHA3::Skein::fsbench_hash_224'',
       Checksum_entry 32 ''Skein256'' ''SHA3 Final 64bit opt'' ''FsBenchSHA3::Skein::fsbench_hash_256'',
       Checksum_entry 48 ''Skein384'' ''SHA3 Final 64bit opt'' ''FsBenchSHA3::Skein::fsbench_hash_384'',
       Checksum_entry 64 ''Skein512'' ''SHA3 Final 64bit opt'' ''FsBenchSHA3::Skein::fsbench_hash_512'',
       Checksum_entry 128 ''Skein1024'' ''SHA3 Final 64bit opt'' ''FsBenchSHA3::Skein::fsbench_hash_1024'']),
     ([''FSBENCH_USE_SHA3_RND3_GROESTL''],
      [Checksum_entry 28 ''Groestl224'' ''SHA3 Final 64bit opt'' ''FsBenchSHA3::Groestl::fsbench_hash_224'',
       Checksum_entry 32 ''Groestl256'' ''SHA3 Final 64bit opt'' ''FsBenchSHA3::Groestl::fsbench_hash_256'',
       Checksum_entry 48 ''Groestl384'' ''SHA3 Final 64bit opt'' ''FsBenchSHA3::Groestl::fsbench_hash_384'',
       Checksum_entry 64 ''Groestl512'' ''SHA3 Final 64bit opt'' ''FsBenchSHA3::Groestl::fsbench_hash_512''])]"

definition more_checksums :: "(string list \<times> table_entry list) list" where
  "more_checksums =
    [([''FSBENCH_USE_XXHASH''],
      [Checksum_entry 4 ''xxhash'' ''r39'' ''xxhash'',
       Checksum_entry 4 ''xxhash64'' ''r39'' ''xxhash64'']),
     ([''FSBENCH_USE_ZFS''],
      [Checksum_entry 32 ''fletcher2'' ''FreeBSD r263244'' ''fletcher2'',
       Checksum_entry 32 ''fletcher4'' ''FreeBSD r263244'' ''fletcher4''])]"

definition cipher_codecs :: "(string list \<times> table_entry list) list" where
  "cipher_codecs =
    [([''FSBENCH_USE_ECRYPT''],
      [Class_entry ''AES128Bernstein'' ''little-4'',
       Class_entry ''AES256Hongjun'' ''v1'',
       Class_entry ''ChaCha'' ''20080118'',
       Class_entry ''HC128'' ''2007-01b'',
       Class_entry ''HC256'' ''2007-01'',
       Class_entry ''Lex'' ''v2'',
       Class_entry ''Rabbit'' ''opt2'',
       Class_entry ''RC4'' ''2005-08-21'',
       Class_entry ''Salsa20_8'' ''merged'',
       Class_entry ''Salsa20_12'' ''merged'',
       Class_entry ''Salsa20'' ''merged'',
       Class_entry ''Snow2'' ''fast'',
       Class_entry ''Sosemanuk'' ''2005-04-26'',
       Class_entry ''Trivium'' ''2006-02-23''])]"

definition pseudo_codecs :: "(string list \<times> table_entry list) list" where
  "pseudo_codecs =
    [([],
      [Codec_entry ''nop'' ''0'' (Some ''nop_c'') (Some ''nop_d'') No_blowup in_place in_place,
       Codec_entry ''bswap16'' ''0'' (Some ''c_bswap16'') (Some ''c_bswap16'') No_blowup in_place in_place,
       Codec_entry ''bswap32'' ''0'' (Some ''c_bswap32'') (Some ''c_bswap32'') No_blowup in_place in_place,
       Codec_entry ''bswap64'' ''0'' (Some ''c_bswap64'') (Some ''c_bswap64'') No_blowup in_place in_place,
       Codec_entry ''memcpy'' ''0'' (Some ''c_memcpy'') (Some ''c_memcpy'') No_blowup moving moving,
       Codec_entry ''memmove'' ''0'' (Some ''c_memmove'') (Some ''c_memmove'') No_blowup moving moving,
       Codec_entry ''memset'' ''0'' (Some ''c_memset'') (Some ''c_memset'') No_blowup moving moving])]"

definition codec_table :: "(string list \<times> table_entry list) list" where
  "codec_table = multifunction_codecs @ int_mode_codecs @ plain_codecs @ nakamichi_codecs @ other_codecs @
    checksum_codecs @ sha3_codecs @ more_checksums @ cipher_codecs @ pseudo_codecs"

text \<open>\<open>CODECS\<close> at the start, in a build in which the macros \<open>m\<close> with \<open>cfg m\<close> are defined.\<close>

definition enabled :: "(string \<Rightarrow> bool) \<Rightarrow> (string list \<times> table_entry list) list \<Rightarrow> table_entry list" where
  "enabled cfg table = concat (map snd (filter (\<lambda>(ms, _). \<forall>m\<in>set ms. cfg m) table))"

definition initial_codecs :: "(string \<Rightarrow> bool) \<Rightarrow> library \<Rightarrow> store" where
  "initial_codecs cfg L = map (codec_of L) (enabled cfg codec_table)"

subsection \<open>The lists\<close>

datatype lookup = Raw string string | Find string string

fun lookup_name :: "lookup \<Rightarrow> string" where
  "lookup_name (Raw name params) = name"
| "lookup_name (Find name params) = name"

definition default_codecs :: "lookup list" where
  "default_codecs =
    [Raw ''bcl-rle'' '''',
     Raw ''blosc'' '''',
     Raw ''density::chameleon'' '''',
     Raw ''density::cheetah'' '''',
     Raw ''density::lion'' '''',
     Raw ''fastlz'' '''',
     Raw ''LZ4 fast 17'' '''',
     Raw ''LZ4 fast 3'' '''',
     Raw ''LZ4'' '''',
     Raw ''LZF'' ''very'',
     Raw ''LZJB'' '''',
     Raw ''LZO'' '''',
     Raw ''QuickLZ'' '''',
     Raw ''RLE64'' '''',
     Raw ''Shrinker'' '''',
     Raw ''Snappy'' '''',
     Raw ''wfLZ'' '''',
     Raw ''ZSTD'' '''']"

definition fast_compressors :: "lookup list" where
  "fast_compressors =
    [Raw ''bcl-rle'' '''',
     Raw ''blosc'' '''',
     Raw ''density::chameleon'' '''',
     Raw ''density::cheetah'' '''',
     Raw ''density::lion'' '''',
     Raw ''fastlz'' '''',
     Raw ''lrrle'' '''',
     Raw ''LZ4'' '''',
     Raw ''LZF'' ''very'',
     Raw ''LZJB'' '''',
     Raw ''LZO'' '''',
     Raw ''QuickLZ'' '''',
     Raw ''RLE64'' '''',
     Raw ''Shrinker'' '''',
     Raw ''Snappy'' '''',
     Raw ''wfLZ'' '''',
     Raw ''ZSTD'' '''']"

definition all_compressors :: "lookup list" where
  "all_compressors =
    [Raw ''7z-deflate'' '''',
     Raw ''7z-deflate64'' '''',
     Raw ''ar'' '''',
     Raw ''bcl-huffman'' '''',
     Raw ''bcl-lzfast'' '''',
     Raw ''bcl-rle'' '''',
     Raw ''blosc'' '''',
     Raw ''BriefLZ'' '''',
     Raw ''Brotli'' '''',
     Raw ''bzip2'' '''',
     Raw ''crush'' '''',
     Raw ''cryptopp-deflate'' '''',
     Raw ''density::chameleon'' '''',
     Raw ''density::cheetah'' '''',
     Raw ''density::lion'' '''',
     Raw ''Doboz'' '''',
     Raw ''fastlz'' '''',
     Raw ''fse'' '''',
     Raw ''gipfeli'' '''',
     Raw ''halibut-deflate'' '''',
     Raw ''lodepng'' '''',
     Raw ''lrrle'' '''',
     Raw ''LZ4'' '''',
     Raw ''LZ4hc'' '''',
     Raw ''LZF'' '''',
     Raw ''LZFX'' '''',
     Raw ''lzg'' '''',
     Raw ''LZHAM'' '''',
     Raw ''LZJB'' '''',
     Raw ''lzmat'' '''',
     Raw ''LZO'' '''',
     Raw ''lzp_ds'' '''',
     Raw ''LZSS-IM'' '''',
     Raw ''lzv1'' '''',
     Raw ''lzwc'' '''',
     Find ''lzx_compress/nop'' '''',
     Raw ''miniz'' '''',
     Raw ''mmini_huffman'' '''',
     Raw ''mmini_lzl'' '''',
     Raw ''Nakamichi'' '''',
     Raw ''Nakamichi-Aratama'' '''',
     Raw ''Nakamichi-Butsuhira'' '''',
     Raw ''Nakamichi-ButsuhiraBranchless'' '''',
     Raw ''Nakamichi-Daikuni'' '''',
     Raw ''Nakamichi-Hanabi'' '''',
     Raw ''Nakamichi-Hanazakari'' '''',
     Raw ''Nakamichi-Hitomi'' '''',
     Raw ''Nakamichi-Inazuma'' '''',
     Raw ''Nakamichi-Jiten'' '''',
     Raw ''Nakamichi-Kaibutsu'' '''',
     Raw ''Nakamichi-Kaiko'' '''',
     Raw ''Nakamichi-Kinezumi'' '''',
     Raw ''Nakamichi-Kinroba'' '''',
     Raw ''Nakamichi-Kinutora'' '''',
     Raw ''Nakamichi-Kitsune'' '''',
     Raw ''Nakamichi-Kumataka'' '''',
     Raw ''Nakamichi-Nekomata'' '''',
     Raw ''Nakamichi-Nin'' '''',
     Raw ''Nakamichi-Nirenpatsu'' '''',
     Raw ''Nakamichi-Sanagi'' '''',
     Raw ''Nakamichi-Sanbashi'' '''',
     Raw ''Nakamichi-Sanrenpatsu'' '''',
     Raw ''Nakamichi-Sanshi'' '''',
     Raw ''Nakamichi-Suiken'' '''',
     Raw ''Nakamichi-Tengu'' '''',
     Raw ''Nakamichi-Washi'' '''',
     Raw ''Nakamichi-Yoko'' '''',
     Raw ''Nakamichi-Zangetsu'' '''',
     Raw ''Nakamichi-M'' '''',
     Raw ''Nobuo-Ito-LZSS'' '''',
     Raw ''nrv2b'' '''',
     Raw ''nrv2d'' '''',
     Raw ''nrv2e'' '''',
     Raw ''pg_lz'' '''',
     Raw ''QuickLZ'' '''',
     Find ''QuickLZ-zip/zlib'' '''',
     Raw ''RLE64'' '''',
     Raw ''scz'' '''',
     Raw ''Shrinker'' '''',
     Raw ''Snappy'' '''',
     Raw ''wfLZ'' '''',
     Find ''zlib/tinf'' '''',
     Raw ''Tornado'' '''',
     Raw ''Yappy'' '''',
     Raw ''z3lib'' '''',
     Raw ''zlib'' '''',
     Raw ''zling'' '''',
     Find ''zopfli/zlib'' '''',
     Raw ''ZSTD'' '''']"

definition all_ciphers :: "lookup list" where
  "all_ciphers =
    [Raw ''AES128Bernstein'' '''',
     Raw ''AES256Hongjun'' '''',
     Raw ''ChaCha'' '''',
     Raw ''HC128'' '''',
     Raw ''HC256'' '''',
     Raw ''Lex'' '''',
     Raw ''Rabbit'' '''',
     Raw ''RC4'' '''',
     Raw ''Salsa20_8'' '''',
     Raw ''Salsa20_12'' '''',
     Raw ''Salsa20'' '''',
     Raw ''Snow2'' '''',
     Raw ''Sosemanuk'' '''',
     Raw ''Trivium'' '''']"

definition all_checksums :: "lookup list" where
  "all_checksums =
    [Raw ''Blake2b'' '''',
     Raw ''Blake2bp'' '''',
     Raw ''Blake2s'' '''',
     Raw ''Blake2sp'' '''',
     Raw ''CityHash32'' '''',
     Raw ''CityHash64'' '''',
     Raw ''CityHash128'' '''',
     Raw ''CrapWow'' '''',
     Raw ''cryptopp-adler32'' '''',
     Raw ''cryptopp-crc32'' '''',
     Raw ''cryptopp-md5'' '''',
     Raw ''cryptopp-sha224'' '''',
     Raw ''cryptopp-sha256'' '''',
     Raw ''cryptopp-sha384'' '''',
     Raw ''cryptopp-sha512'' '''',
     Raw ''uhash'' '''',
     Raw ''vhash'' '''',
     Raw ''umac'' '''',
     Raw ''vmac'' '''',
     Raw ''farmhash32'' '''',
     Raw ''farmhash64'' '''',
     Raw ''farmhash128'' '''',
     Raw ''SipHash24'' '''',
     Raw ''murmur3_x86_32'' '''',
     Raw ''murmur3_x86_128'' '''',
     Raw ''murmur3_x64_128'' '''',
     Raw ''SpookyHash'' '''',
     Raw ''FNV1a-Jesteress'' '''',
     Raw ''FNV1a-Mantis'' '''',
     Raw ''FNV1a-Meiyan'' '''',
     Raw ''FNV1a-Penumbra'' '''',
     Raw ''FNV1a-Tesla'' '''',
     Raw ''FNV1a-Tesla3'' '''',
     Raw ''FNV1a-Yorikke'' '''',
     Raw ''FNV1a-YoshimitsuTRIAD'' '''',
     Raw ''FNV1a-YoshimitsuTRIADiiXMM'' '''',
     Raw ''FNV1a-Yoshimura'' '''',
     Raw ''Edon-R224'' '''',
     Raw ''Edon-R256'' '''',
     Raw ''Edon-R384'' '''',
     Raw ''Edon-R512'' '''',
     Raw ''SWIFFTX224'' '''',
     Raw ''SWIFFTX256'' '''',
     Raw ''SWIFFTX384'' '''',
     Raw ''SWIFFTX512'' '''',
     Raw ''BlueMidnightWish224'' '''',
     Raw ''BlueMidnightWish256'' '''',
     Raw ''BlueMidnightWish384'' '''',
     Raw ''BlueMidnightWish512'' '''',
     Raw ''CubeHash224'' '''',
     Raw ''CubeHash256'' '''',
     Raw ''CubeHash384'' '''',
     Raw ''CubeHash512'' '''',
     Raw ''Blake224'' '''',
     Raw ''Blake256'' '''',
     Raw ''Blake384'' '''',
     Raw ''Blake512'' '''',
     Raw ''Keccak224'' '''',
     Raw ''Keccak256'' '''',
     Raw ''Keccak384'' '''',
     Raw ''Keccak512'' '''',
     Raw ''JH224'' '''',
     Raw ''JH256'' '''',
     Raw ''JH384'' '''',
     Raw ''JHX512'' '''',
     Raw ''Skein224'' '''',
     Raw ''Skein256'' '''',
     Raw ''Skein384'' '''',
     Raw ''Skein512'' '''',
     Raw ''Skein1024'' '''',
     Raw ''Groestl224'' '''',
     Raw ''Groestl256'' '''',
     Raw ''Groestl384'' '''',
     Raw ''Groestl512'' '''',
     Raw ''xxhash'' '''',
     Raw ''xxhash64'' '''',
     Raw ''fletcher2'' '''',
     Raw ''fletcher4'' '''']"

definition all_others :: "lookup list" where
  "all_others =
    [Raw ''bswap16'' '''',
     Raw ''bswap32'' '''',
     Raw ''bswap64'' '''',
     Raw ''memcpy'' '''',
     Raw ''memmove'' '''',
     Raw ''nop'' '''']"

text \<open>The initialisers are evaluated in their order; \<open>find_codec\<close> adds codecs on the way.\<close>

fun lookup_pair :: "lookup \<Rightarrow> store \<Rightarrow> (nat option \<times> string) \<times> store" where
  "lookup_pair (Raw name params) st = ((raw_find_codec name st, params), st)"
| "lookup_pair (Find name params) st = (case find_codec name st of (r, st') \<Rightarrow> ((r, params), st'))"

fun lookups :: "lookup list \<Rightarrow> store \<Rightarrow> (nat option \<times> string) list \<times> store" where
  "lookups [] st = ([], st)"
| "lookups (l # ls) st =
    (let (r, st1) = lookup_pair l st; (rs, st2) = lookups ls st1 in (r # rs, st2))"

definition createParamsList :: "(nat option \<times> string) list \<Rightarrow> (nat \<times> string) list" where
  "createParamsList lst = concat (map (\<lambda>(c, p). case c of None \<Rightarrow> [] | Some k \<Rightarrow> [(k, p)]) lst)"

record pseudocodecs =
  DEFAULT_CODECS :: "(nat \<times> string) list"
  FAST_COMPRESSORS :: "(nat \<times> string) list"
  ALL_COMPRESSORS :: "(nat \<times> string) list"
  ALL_CIPHERS :: "(nat \<times> string) list"
  ALL_CHECKSUMS :: "(nat \<times> string) list"
  ALL_OTHERS :: "(nat \<times> string) list"

definition init_pseudocodecs :: "store \<Rightarrow> pseudocodecs \<times> store" where
  "init_pseudocodecs st =
    (let (d, st) = lookups default_codecs st;
         (f, st) = lookups fast_compressors st;
         (c, st) = lookups all_compressors st;
         (e, st) = lookups all_ciphers st;
         (s, st) = lookups all_checksums st;
         (r, st) = lookups all_others st
     in (\<lparr>DEFAULT_CODECS = createParamsList d, FAST_COMPRESSORS = createParamsList f,
          ALL_COMPRESSORS = createParamsList c, ALL_CIPHERS = createParamsList e,
          ALL_CHECKSUMS = createParamsList s, ALL_OTHERS = createParamsList r\<rparr>, st))"


subsection \<open>What the lists hold\<close>

text \<open>
  A list that was initialised from \<open>ls\<close>: its entries are codecs of the store that have, up to case,
  the names of the look-ups; and an entry of the store with such a name has made an entry.
\<close>

definition list_from :: "lookup list \<Rightarrow> store \<Rightarrow> (nat \<times> string) list \<Rightarrow> bool" where
  "list_from ls st ps \<longleftrightarrow> (\<forall>(k, p)\<in>set ps. k < length st \<and>
    (\<exists>l\<in>set ls. case_insensitive_compare (codec_name (st ! k)) (lookup_name l) = 0))"

definition extends :: "store \<Rightarrow> store \<Rightarrow> bool" where
  "extends st st' \<longleftrightarrow> (\<exists>new. st' = st @ new) \<and> (store_ok st \<longrightarrow> store_ok st')"

lemma extends_refl: "extends st st"
  by (simp add: extends_def)

lemma extends_trans: "extends st st' \<Longrightarrow> extends st' st'' \<Longrightarrow> extends st st''"
  by (auto simp: extends_def)

lemma extends_nth: "extends st st' \<Longrightarrow> k < length st \<Longrightarrow> k < length st' \<and> st' ! k = st ! k"
  by (auto simp: extends_def nth_append)

lemma list_from_extends: "list_from ls st ps \<Longrightarrow> extends st st' \<Longrightarrow> list_from ls st' ps"
  using extends_nth by (fastforce simp: list_from_def)

lemma lookup_pair_result:
  assumes "lookup_pair l st = ((r, p), st')"
  shows "extends st st' \<and> (\<forall>k. r = Some k \<longrightarrow> k < length st' \<and>
    case_insensitive_compare (codec_name (st' ! k)) (lookup_name l) = 0)"
proof (cases l)
  case (Raw n q)
  then show ?thesis using assms raw_find_Some by (auto simp: extends_refl)
next
  case (Find n q)
  then show ?thesis
    using assms find_codec_result [of n st r st']
    by (auto simp: find_result_def extends_def split: prod.splits)
qed

lemma lookups_result:
  "lookups ls st = (rs, st') \<Longrightarrow> extends st st' \<and> list_from ls st' (createParamsList rs)"
proof (induction ls arbitrary: st rs)
  case (Cons l ls)
  obtain r p st1 where 1: "lookup_pair l st = ((r, p), st1)" by (metis surj_pair)
  obtain rs2 where 2: "lookups ls st1 = (rs2, st')" "rs = (r, p) # rs2"
    using Cons.prems 1 by (auto split: prod.splits)
  note l = lookup_pair_result [OF 1] and ls = Cons.IH [OF 2(1)]
  have "list_from (l # ls) st' (createParamsList rs2)" using ls by (fastforce simp: list_from_def)
  moreover have "r = Some k \<Longrightarrow> k < length st' \<and> case_insensitive_compare (codec_name (st' ! k)) (lookup_name l) = 0" for k
    using l ls extends_nth by fastforce
  ultimately show ?case
    using l ls extends_trans 2(2) by (auto simp: createParamsList_def list_from_def split: option.splits)
qed (simp add: extends_refl createParamsList_def list_from_def)

lemma init_pseudocodecs_result:
  assumes "init_pseudocodecs st = (ps, st')"
  shows "extends st st' \<and> list_from default_codecs st' (DEFAULT_CODECS ps) \<and>
    list_from fast_compressors st' (FAST_COMPRESSORS ps) \<and> list_from all_compressors st' (ALL_COMPRESSORS ps) \<and>
    list_from all_ciphers st' (ALL_CIPHERS ps) \<and> list_from all_checksums st' (ALL_CHECKSUMS ps) \<and>
    list_from all_others st' (ALL_OTHERS ps)"
proof -
  obtain d st1 where d: "lookups default_codecs st = (d, st1)" by fastforce
  obtain f st2 where f: "lookups fast_compressors st1 = (f, st2)" by fastforce
  obtain c st3 where c: "lookups all_compressors st2 = (c, st3)" by fastforce
  obtain e st4 where e: "lookups all_ciphers st3 = (e, st4)" by fastforce
  obtain s st5 where s: "lookups all_checksums st4 = (s, st5)" by fastforce
  obtain r st6 where r: "lookups all_others st5 = (r, st6)" by fastforce
  note res = lookups_result [OF d] lookups_result [OF f] lookups_result [OF c] lookups_result [OF e]
    lookups_result [OF s] lookups_result [OF r]
  have st6: "st6 = st'" using assms d f c e s r by (simp add: init_pseudocodecs_def)
  note x5 = res(6) [THEN conjunct1, unfolded st6]
  note x4 = extends_trans [OF res(5) [THEN conjunct1] x5]
  note x3 = extends_trans [OF res(4) [THEN conjunct1] x4]
  note x2 = extends_trans [OF res(3) [THEN conjunct1] x3]
  note x1 = extends_trans [OF res(2) [THEN conjunct1] x2]
  note x0 = extends_trans [OF res(1) [THEN conjunct1] x1]
  have ps: "ps = \<lparr>DEFAULT_CODECS = createParamsList d, FAST_COMPRESSORS = createParamsList f,
      ALL_COMPRESSORS = createParamsList c, ALL_CIPHERS = createParamsList e,
      ALL_CHECKSUMS = createParamsList s, ALL_OTHERS = createParamsList r\<rparr>"
    using assms d f c e s r by (simp add: init_pseudocodecs_def)
  show ?thesis
    using x0 list_from_extends [OF res(1) [THEN conjunct2] x1] list_from_extends [OF res(2) [THEN conjunct2] x2]
      list_from_extends [OF res(3) [THEN conjunct2] x3] list_from_extends [OF res(4) [THEN conjunct2] x4]
      list_from_extends [OF res(5) [THEN conjunct2] x5] res(6) [unfolded st6] by (simp add: ps)
qed

lemma lookups_found:
  assumes "lookups ls st = (rs, st')" "Raw n p \<in> set ls" "c \<in> set st" "case_insensitive_compare (codec_name c) n = 0"
  shows "\<exists>k. (k, p) \<in> set (createParamsList rs) \<and> k < length st' \<and>
    case_insensitive_compare (codec_name (st' ! k)) n = 0"
  using assms
proof (induction ls arbitrary: st rs)
  case (Cons l ls)
  obtain r q st1 where 1: "lookup_pair l st = ((r, q), st1)" by (metis surj_pair)
  obtain rs2 where 2: "lookups ls st1 = (rs2, st')" "rs = (r, q) # rs2"
    using Cons.prems 1 by (auto split: prod.splits)
  show ?case
  proof (cases "l = Raw n p")
    case True
    obtain k where k: "raw_find_codec n st = Some k"
      using Cons.prems(3,4) find_from_None [of 0 n st] by (cases "raw_find_codec n st") (auto simp: raw_find_codec_def)
    then have "(k, p) \<in> set (createParamsList rs)"
      using True 1 2 by (simp add: createParamsList_def)
    moreover have "extends st st'"
      using lookup_pair_result [OF 1] lookups_result [OF 2(1)] extends_trans by blast
    ultimately show ?thesis using raw_find_Some [OF k] extends_nth by metis
  next
    case False
    have "c \<in> set st1" using lookup_pair_result [OF 1] Cons.prems(3) by (auto simp: extends_def)
    then show ?thesis
      using Cons.IH [OF 2(1)] False Cons.prems 2(2) by (fastforce simp: createParamsList_def)
  qed
qed simp

subsection \<open>The lists of checksums\<close>

definition checksum_table :: "(string list \<times> table_entry list) list" where
  "checksum_table = checksum_codecs @ sha3_codecs @ more_checksums"

lemma checksum_names:
  "list_all (\<lambda>e. entry_name e \<in> set (''JH512'' # ''FarmHash32'' # ''FarmHash64'' # ''FarmHash128'' # ''FNV1a-penumbra'' #
      map lookup_name all_checksums)) (concat (map snd checksum_table))"
  by code_simp

lemma checksum_names_case:
  "list_all (\<lambda>m. list_ex (\<lambda>l. case_insensitive_compare m (lookup_name l) = 0) all_checksums)
    [''FarmHash32'', ''FarmHash64'', ''FarmHash128'', ''FNV1a-penumbra'']"
  by code_simp

lemma jh512_not_listed:
  "list_all (\<lambda>l. case_insensitive_compare ''JH512'' (lookup_name l) \<noteq> 0) all_checksums"
  by code_simp

lemma all_checksums_raw: "list_all (\<lambda>l. l = Raw (lookup_name l) []) all_checksums"
  by (simp add: all_checksums_def)

lemma codec_name_of [simp]: "codec_name (codec_of L e) = entry_name e"
  by (cases e) (simp_all add: new_codec_def)

lemma initial_codecs_ok:
  assumes "\<And>name. refs (codec_class (lib_object L name)) = []"
  shows "store_ok (initial_codecs cfg L)"
proof -
  have "refs (codec_class (codec_of L e)) = []" for e
    using assms by (cases e) (simp_all add: new_codec_def refs_def split: codec_class.splits)
  then show ?thesis by (simp add: store_ok_def initial_codecs_def)
qed

lemma checksum_listed_name:
  assumes "(ms, es) \<in> set checksum_table" "e \<in> set es" "entry_name e \<noteq> ''JH512''"
  shows "\<exists>n. Raw n [] \<in> set all_checksums \<and> case_insensitive_compare (entry_name e) n = 0"
proof -
  have "e \<in> set (concat (map snd checksum_table))" using assms(1,2) by force
  then have "entry_name e \<in> set (''JH512'' # ''FarmHash32'' # ''FarmHash64'' # ''FarmHash128'' # ''FNV1a-penumbra'' #
      map lookup_name all_checksums)"
    using checksum_names unfolding list_all_iff by blast
  then consider "entry_name e \<in> set (map lookup_name all_checksums)"
    | "entry_name e \<in> set [''FarmHash32'', ''FarmHash64'', ''FarmHash128'', ''FNV1a-penumbra'']"
    using assms(3) by auto
  then have "\<exists>n\<in>set (map lookup_name all_checksums). case_insensitive_compare (entry_name e) n = 0"
  proof cases
    case 1
    then show ?thesis using compare_refl by blast
  next
    case 2
    then show ?thesis
      using checksum_names_case [unfolded list_all_iff, rule_format, of "entry_name e"]
      unfolding list_ex_iff by auto
  qed
  then show ?thesis using all_checksums_raw unfolding list_all_iff by force
qed

text \<open>
  C39: the pseudocodec \<open>checksums\<close>, which is also a part of \<open>all\<close>, stands for every checksum the program
  is built with except JH512, which is registered under this name and listed as JHX512.
\<close>

theorem checksums_listed:
  assumes "(ms, es) \<in> set checksum_table" "e \<in> set es" "\<forall>m\<in>set ms. cfg m"
    and "init_pseudocodecs (initial_codecs cfg L) = (ps, st)"
  shows "(\<exists>(k, p)\<in>set (ALL_CHECKSUMS ps). k < length st \<and>
      case_insensitive_compare (codec_name (st ! k)) (entry_name e) = 0) \<longleftrightarrow> entry_name e \<noteq> ''JH512''"
proof (cases "entry_name e = ''JH512''")
  case True
  have "list_from all_checksums st (ALL_CHECKSUMS ps)"
    using init_pseudocodecs_result [OF assms(4)] by simp
  then have "case_insensitive_compare (codec_name (st ! k)) ''JH512'' \<noteq> 0" if "(k, p) \<in> set (ALL_CHECKSUMS ps)" for k p
    using that jh512_not_listed unfolding list_from_def list_all_iff compare_eq_0_iff by fastforce
  then show ?thesis using True by auto
next
  case False
  obtain n where n: "Raw n [] \<in> set all_checksums" "case_insensitive_compare (entry_name e) n = 0"
    using checksum_listed_name [OF assms(1,2) False] by blast
  let ?st0 = "initial_codecs cfg L"
  have "(ms, es) \<in> set codec_table" using assms(1) by (auto simp: checksum_table_def codec_table_def)
  then have "e \<in> set (enabled cfg codec_table)" using assms(2,3) by (force simp: enabled_def)
  then have e: "codec_of L e \<in> set ?st0" by (simp add: initial_codecs_def)
  obtain d st1 where d: "lookups default_codecs ?st0 = (d, st1)" by fastforce
  obtain f st2 where f: "lookups fast_compressors st1 = (f, st2)" by fastforce
  obtain c st3 where c: "lookups all_compressors st2 = (c, st3)" by fastforce
  obtain x st4 where x: "lookups all_ciphers st3 = (x, st4)" by fastforce
  obtain s st5 where s: "lookups all_checksums st4 = (s, st5)" by fastforce
  obtain r st6 where r: "lookups all_others st5 = (r, st6)" by fastforce
  have ps: "ALL_CHECKSUMS ps = createParamsList s" "st6 = st"
    using assms(4) d f c x s r by (auto simp: init_pseudocodecs_def)
  have "extends ?st0 st4"
    using lookups_result [OF d] lookups_result [OF f] lookups_result [OF c] lookups_result [OF x]
    by (meson extends_trans)
  then have "codec_of L e \<in> set st4" using e by (auto simp: extends_def)
  then obtain k where k: "(k, []) \<in> set (createParamsList s)" "k < length st5"
    "case_insensitive_compare (codec_name (st5 ! k)) n = 0"
    using lookups_found [OF s n(1)] n(2) by (metis codec_name_of)
  then have "k < length st \<and> st ! k = st5 ! k"
    using lookups_result [OF r] extends_nth ps(2) by blast
  moreover have "case_insensitive_compare (codec_name (st5 ! k)) (entry_name e) = 0"
    using k(3) n(2) by (simp add: compare_eq_0_iff)
  ultimately show ?thesis using k(1) ps(1) False by auto
qed

definition example_library :: library where
  "example_library = \<lparr>lib_fn = \<lambda>_ _. c_memcpy, lib_size = \<lambda>_. no_blowup, lib_const = \<lambda>_. 64,
    lib_checksum = \<lambda>_ b n. Some (replicate 128 0),
    lib_object = \<lambda>name. new_codec name [] None None no_blowup moving moving True Plain_codec\<rparr>"

theorem checksums_listed_witness:
  "let (ps, st) = init_pseudocodecs (initial_codecs (\<lambda>m. m = ''FSBENCH_USE_SHA3_RND3'') example_library)
   in \<not> (\<exists>(k, p)\<in>set (ALL_CHECKSUMS ps). k < length st \<and> case_insensitive_compare (codec_name (st ! k)) ''JH512'' = 0)"
proof -
  obtain ps st where i: "init_pseudocodecs (initial_codecs (\<lambda>m. m = ''FSBENCH_USE_SHA3_RND3'') example_library) = (ps, st)"
    by fastforce
  have "list_ex (\<lambda>(ms, es). ms = [''FSBENCH_USE_SHA3_RND3''] \<and>
      Checksum_entry 64 ''JH512'' ''SHA3 Final 64bit opt'' ''FsBenchSHA3::JH::fsbench_hash_512'' \<in> set es) checksum_table"
    by code_simp
  then have "\<exists>es. ([''FSBENCH_USE_SHA3_RND3''], es) \<in> set checksum_table \<and>
      Checksum_entry 64 ''JH512'' ''SHA3 Final 64bit opt'' ''FsBenchSHA3::JH::fsbench_hash_512'' \<in> set es"
    unfolding list_ex_iff by blast
  then obtain es where es: "([''FSBENCH_USE_SHA3_RND3''], es) \<in> set checksum_table"
    "Checksum_entry 64 ''JH512'' ''SHA3 Final 64bit opt'' ''FsBenchSHA3::JH::fsbench_hash_512'' \<in> set es" by blast
  show ?thesis using checksums_listed [OF es _ i] i by simp
qed

end
