(* ===== verification/Command_Line.thy ===== *)
theory Command_Line
  imports Codec_Table Bench_Correct Machine_Words
begin

text \<open>
  The command line (\<open>main\<close> of \<open>main.cpp\<close>): options and codecs are read from the left, the last
  argument names the file. The model gets the arguments without the name of the program and the
  contents of the files; it ends where the \<open>Tester\<close> has been constructed.
\<close>

subsection \<open>Numbers\<close>

text \<open>\<open>atoi\<close>; \<open>None\<close> where the number is not an \<open>int\<close> and C leaves the result undefined.\<close>

definition atoi :: "string \<Rightarrow> int option" where
  "atoi str =
    (let (neg, s) = read_sign (dropWhile is_space str);
         v = fst (read_digits 0 s);
         v = (if neg then - v else v)
     in if - (2 ^ 31) \<le> v \<and> v < 2 ^ 31 then Some v else None)"

subsection \<open>Settings\<close>

record settings =
  opt_iterations :: u64
  opt_overhead_iterations :: u64
  opt_bsize :: u64
  opt_ssize :: u64
  opt_verify :: bool
  opt_threads :: int
  opt_warmup_iters :: int
  opt_csv :: bool
  opt_iter_time :: u32
  opt_job_size :: u64
  opt_codecs :: "(nat \<times> string) list"

definition default_settings :: settings where
  "default_settings =
    \<lparr>opt_iterations = 4, opt_overhead_iterations = 1, opt_bsize = 1717986918, opt_ssize = 1,
     opt_verify = False, opt_threads = 1, opt_warmup_iters = 20, opt_csv = False, opt_iter_time = 500,
     opt_job_size = 262144, opt_codecs = []\<rparr>"

datatype main_error =
    Number_undefined
  | Not_positive char
  | Unknown_option string
  | Unknown_codec string
  | Usage
  | Cannot_open
  | No_valid_codecs
  | Tester_error bench_error

text \<open>
  A number option. The value of \<open>atoi\<close> is converted to the type of the variable, and the test
  \<open>bsize <= 0\<close> is made afterwards, on an unsigned number for most options.
\<close>

definition number_option :: "char \<Rightarrow> string \<Rightarrow> (int \<Rightarrow> 'a) \<Rightarrow> ('a \<Rightarrow> bool) \<Rightarrow> ('a \<Rightarrow> settings) \<Rightarrow>
    main_error + settings" where
  "number_option c str convert bad put =
    (case atoi str of
       None \<Rightarrow> Inl Number_undefined
     | Some n \<Rightarrow> if bad (convert n) then Inl (Not_positive c) else Inr (put (convert n)))"

definition apply_option :: "string \<Rightarrow> settings \<Rightarrow> main_error + settings" where
  "apply_option arg s =
    (case tl arg of
       [] \<Rightarrow> Inl (Unknown_option arg)
     | c # num \<Rightarrow>
         if c = CHR ''b'' then number_option c num word_of_int (\<lambda>x. x \<le> 0) (\<lambda>x. s\<lparr>opt_bsize := x\<rparr>)
         else if c = CHR ''c'' then Inr (s\<lparr>opt_csv := True\<rparr>)
         else if c = CHR ''i'' then number_option c num word_of_int (\<lambda>x. x \<le> 0) (\<lambda>x. s\<lparr>opt_iterations := x\<rparr>)
         else if c = CHR ''j'' then number_option c num word_of_int (\<lambda>x. x \<le> 0) (\<lambda>x. s\<lparr>opt_job_size := x\<rparr>)
         else if c = CHR ''m'' then number_option c num word_of_int (\<lambda>x. x \<le> 0) (\<lambda>x. s\<lparr>opt_ssize := x\<rparr>)
         else if c = CHR ''o'' then
           number_option c num word_of_int (\<lambda>x. x = 0) (\<lambda>x. s\<lparr>opt_overhead_iterations := x\<rparr>)
         else if c = CHR ''s'' then number_option c num word_of_int (\<lambda>_. False) (\<lambda>x. s\<lparr>opt_iter_time := x\<rparr>)
         else if c = CHR ''t'' then number_option c num (\<lambda>n. n) (\<lambda>n. n \<le> 0) (\<lambda>n. s\<lparr>opt_threads := n\<rparr>)
         else if c = CHR ''v'' then Inr (s\<lparr>opt_verify := True\<rparr>)
         else if c = CHR ''w'' then number_option c num (\<lambda>n. n) (\<lambda>n. n < 0) (\<lambda>n. s\<lparr>opt_warmup_iters := n\<rparr>)
         else Inl (Unknown_option arg))"

subsection \<open>Codecs\<close>

text \<open>The pseudocodecs; \<open>None\<close> when the argument is none of them.\<close>

definition pseudocodec :: "pseudocodecs \<Rightarrow> string \<Rightarrow> (nat \<times> string) list option" where
  "pseudocodec ps arg =
    (if case_insensitive_compare arg ''all'' = 0
     then Some (ALL_COMPRESSORS ps @ ALL_CHECKSUMS ps @ ALL_CIPHERS ps @ ALL_OTHERS ps)
     else if case_insensitive_compare arg ''default'' = 0 then Some (DEFAULT_CODECS ps)
     else if case_insensitive_compare arg ''fast'' = 0 then Some (FAST_COMPRESSORS ps)
     else if case_insensitive_compare arg ''compressors'' = 0 then Some (ALL_COMPRESSORS ps)
     else if case_insensitive_compare arg ''checksums'' = 0 then Some (ALL_CHECKSUMS ps)
     else if case_insensitive_compare arg ''ciphers'' = 0 then Some (ALL_CIPHERS ps)
     else if case_insensitive_compare arg ''others'' = 0 then Some (ALL_OTHERS ps)
     else None)"

definition select_codecs :: "pseudocodecs \<Rightarrow> string \<Rightarrow> store \<Rightarrow> main_error + (nat \<times> string) list \<times> store" where
  "select_codecs ps arg st =
    (case pseudocodec ps arg of
       Some cs \<Rightarrow> Inr (cs, st)
     | None \<Rightarrow>
         (let (codec, params) = split_args (CHR '','') arg
          in case find_codec codec st of
               (Some k, st') \<Rightarrow> Inr ([(k, params)], st')
             | (None, st') \<Rightarrow> Inl (Unknown_codec codec)))"

subsection \<open>Arguments\<close>

definition parse_arg :: "pseudocodecs \<Rightarrow> string \<Rightarrow> settings \<times> store \<Rightarrow> main_error + settings \<times> store" where
  "parse_arg ps arg ss =
    (if arg \<noteq> [] \<and> hd arg = CHR ''-''
     then and_then (apply_option arg (fst ss)) (\<lambda>s. Inr (s, snd ss))
     else and_then (select_codecs ps arg (snd ss)) (\<lambda>(cs, st).
       Inr ((fst ss)\<lparr>opt_codecs := opt_codecs (fst ss) @ cs\<rparr>, st)))"

fun parse_args :: "pseudocodecs \<Rightarrow> string list \<Rightarrow> settings \<times> store \<Rightarrow> main_error + string \<times> settings \<times> store" where
  "parse_args ps [] ss = Inl Usage"
| "parse_args ps [file] ss = Inr (file, ss)"
| "parse_args ps (arg # args) ss = and_then (parse_arg ps arg ss) (parse_args ps args)"

text \<open>The codecs of the test: those of the command line, or the default ones.\<close>

definition chosen_codecs :: "pseudocodecs \<Rightarrow> settings \<Rightarrow> main_error + settings" where
  "chosen_codecs ps s =
    (let s = (if opt_codecs s = [] then s\<lparr>opt_codecs := DEFAULT_CODECS ps\<rparr> else s)
     in if opt_codecs s = [] then Inl No_valid_codecs else Inr s)"

definition start_tester :: "settings \<Rightarrow> store \<Rightarrow> byte list \<Rightarrow> bench_error + tester" where
  "start_tester s st contents =
    new_tester (map (\<lambda>(k, _). max_encoded_size (length st) st k) (opt_codecs s)) contents
      (unat (opt_bsize s)) (nat (opt_threads s))"

datatype outcome = Help nat | Failed main_error | Started settings store tester

definition main_run :: "pseudocodecs \<Rightarrow> settings \<Rightarrow> store \<Rightarrow> byte list option \<Rightarrow> outcome" where
  "main_run ps s st contents =
    (case contents of
       None \<Rightarrow> Failed Cannot_open
     | Some bytes \<Rightarrow>
         (case chosen_codecs ps s of
            Inl e \<Rightarrow> Failed e
          | Inr s' \<Rightarrow>
              (case start_tester s' st bytes of
                 Inl e \<Rightarrow> Failed (Tester_error e)
               | Inr t \<Rightarrow> Started s' st t)))"

definition main_args :: "pseudocodecs \<Rightarrow> store \<Rightarrow> (string \<Rightarrow> byte list option) \<Rightarrow> string list \<Rightarrow> outcome" where
  "main_args ps st files args =
    (if length args = 2 \<and> case_insensitive_compare (hd args) ''help'' = 0 then
       (case find_codec (last args) st of
          (Some k, st') \<Rightarrow> Help k
        | (None, st') \<Rightarrow> Failed (Unknown_codec (last args)))
     else
       (case parse_args ps args (default_settings, st) of
          Inl e \<Rightarrow> Failed e
        | Inr (file, s, st') \<Rightarrow> main_run ps s st' (files file)))"


subsection \<open>Accepted settings are well-formed\<close>

definition settings_ok :: "settings \<Rightarrow> store \<Rightarrow> bool" where
  "settings_ok s st \<longleftrightarrow>
    opt_iterations s \<noteq> 0 \<and> opt_overhead_iterations s \<noteq> 0 \<and> opt_bsize s \<noteq> 0 \<and> opt_ssize s \<noteq> 0 \<and>
    opt_job_size s \<noteq> 0 \<and> 0 < opt_threads s \<and> opt_threads s < 2 ^ 31 \<and>
    0 \<le> opt_warmup_iters s \<and> opt_warmup_iters s < 2 ^ 31 \<and>
    store_ok st \<and> (\<forall>(k, p)\<in>set (opt_codecs s). k < length st)"

definition codecs_in :: "store \<Rightarrow> (nat \<times> string) list \<Rightarrow> bool" where
  "codecs_in st cs \<longleftrightarrow> (\<forall>(k, p)\<in>set cs. k < length st)"

definition pseudocodecs_in :: "store \<Rightarrow> pseudocodecs \<Rightarrow> bool" where
  "pseudocodecs_in st ps \<longleftrightarrow> codecs_in st (DEFAULT_CODECS ps) \<and> codecs_in st (FAST_COMPRESSORS ps) \<and>
    codecs_in st (ALL_COMPRESSORS ps) \<and> codecs_in st (ALL_CIPHERS ps) \<and> codecs_in st (ALL_CHECKSUMS ps) \<and>
    codecs_in st (ALL_OTHERS ps)"

lemma codecs_in_extends: "codecs_in st cs \<Longrightarrow> extends st st' \<Longrightarrow> codecs_in st' cs"
  using extends_nth by (fastforce simp: codecs_in_def)

lemma pseudocodecs_in_extends: "pseudocodecs_in st ps \<Longrightarrow> extends st st' \<Longrightarrow> pseudocodecs_in st' ps"
  using codecs_in_extends by (simp add: pseudocodecs_in_def) blast

lemma list_from_in: "list_from ls st cs \<Longrightarrow> codecs_in st cs"
  by (auto simp: list_from_def codecs_in_def)

lemma init_pseudocodecs_in:
  "init_pseudocodecs st = (ps, st') \<Longrightarrow> extends st st' \<and> pseudocodecs_in st' ps"
  using init_pseudocodecs_result list_from_in by (simp add: pseudocodecs_in_def) blast

lemma atoi_range: "atoi str = Some n \<Longrightarrow> - (2 ^ 31) \<le> n \<and> n < 2 ^ 31"
  by (auto simp: atoi_def Let_def split: prod.splits if_splits)

lemma number_option_Inr:
  "number_option c str convert bad put = Inr s \<Longrightarrow>
    \<exists>n. atoi str = Some n \<and> \<not> bad (convert n) \<and> s = put (convert n)"
  by (auto simp: number_option_def split: option.splits if_splits)

lemma apply_option_ok: "apply_option arg s = Inr s' \<Longrightarrow> settings_ok s st \<Longrightarrow> settings_ok s' st"
  using atoi_range
  by (fastforce simp: apply_option_def settings_ok_def split: list.splits if_splits dest!: number_option_Inr)

lemma select_codecs_ok:
  assumes "select_codecs ps arg st = Inr (cs, st')" "pseudocodecs_in st ps"
  shows "extends st st' \<and> codecs_in st' cs"
proof (cases "pseudocodec ps arg")
  case None
  obtain codec params where c: "split_args (CHR '','') arg = (codec, params)" by fastforce
  then obtain k where k: "find_codec codec st = (Some k, st')" "cs = [(k, params)]"
    using assms(1) None by (auto simp: select_codecs_def split: prod.splits option.splits)
  then show ?thesis
    using find_codec_result [OF k(1)] by (auto simp: find_result_def extends_def codecs_in_def)
next
  case (Some cs')
  have "codecs_in st cs'"
    using Some assms(2) by (auto simp: pseudocodec_def pseudocodecs_in_def codecs_in_def split: if_splits)
  then show ?thesis using Some assms(1) by (simp add: select_codecs_def extends_refl)
qed

lemma settings_ok_extends: "settings_ok s st \<Longrightarrow> extends st st' \<Longrightarrow> settings_ok s st'"
  using codecs_in_extends [of st "opt_codecs s" st'] by (auto simp: settings_ok_def extends_def codecs_in_def)

lemma settings_ok_codecs:
  "settings_ok s st \<Longrightarrow> codecs_in st cs \<Longrightarrow> settings_ok (s\<lparr>opt_codecs := cs\<rparr>) st"
  by (simp add: settings_ok_def codecs_in_def)

lemma parse_arg_ok:
  assumes "parse_arg ps arg (s, st) = Inr (s', st')" "settings_ok s st" "pseudocodecs_in st ps"
  shows "settings_ok s' st' \<and> extends st st'"
proof (cases "arg \<noteq> [] \<and> hd arg = CHR ''-''")
  case True
  then show ?thesis
    using assms apply_option_ok by (auto simp: parse_arg_def and_then_Inr_iff extends_refl)
next
  case False
  then obtain cs where cs: "select_codecs ps arg st = Inr (cs, st')" "s' = s\<lparr>opt_codecs := opt_codecs s @ cs\<rparr>"
    using assms(1) by (auto simp: parse_arg_def and_then_Inr_iff)
  note sel = select_codecs_ok [OF cs(1) assms(3)]
  have "settings_ok s st'" using settings_ok_extends assms(2) sel by blast
  moreover from this have "codecs_in st' (opt_codecs s @ cs)" using sel by (auto simp: settings_ok_def codecs_in_def)
  ultimately show ?thesis using cs(2) sel settings_ok_codecs by simp
qed

lemma parse_args_ok:
  "parse_args ps args (s, st) = Inr (file, s', st') \<Longrightarrow> settings_ok s st \<Longrightarrow> pseudocodecs_in st ps \<Longrightarrow>
    settings_ok s' st' \<and> pseudocodecs_in st' ps"
proof (induction ps args "(s, st)" arbitrary: s st rule: parse_args.induct)
  case (3 ps arg a args)
  then obtain s1 st1 where 1: "parse_arg ps arg (s, st) = Inr (s1, st1)"
    "parse_args ps (a # args) (s1, st1) = Inr (file, s', st')"
    by (auto simp: and_then_Inr_iff)
  note ok = parse_arg_ok [OF 1(1) 3(3,4)]
  then show ?case using 3(1) [OF 1(2)] pseudocodecs_in_extends 3(4) by blast
qed auto

lemma default_settings_ok: "store_ok st \<Longrightarrow> settings_ok default_settings st"
  by (simp add: settings_ok_def default_settings_def)

lemma parse_args_error: "parse_args ps args ss = Inl e \<Longrightarrow> e \<noteq> Tester_error b"
proof (induction ps args ss rule: parse_args.induct)
  case (3 ps arg a args ss)
  then show ?case
    by (auto simp: and_then_def parse_arg_def select_codecs_def apply_option_def number_option_def
        split: sum.splits list.splits option.splits if_splits prod.splits)
qed auto

lemma round_up_ALIGNMENT: "(round_up n ALIGNMENT = None) = False"
  by (simp add: round_up_def ALIGNMENT_def Let_def)

lemma start_tester_divides:
  assumes "settings_ok s st"
  shows "start_tester s st bytes \<noteq> Inl Division_by_zero"
proof
  assume *: "start_tester s st bytes = Inl Division_by_zero"
  let ?bs = "min (unat (opt_bsize s)) (length bytes)"
  have bytes: "length bytes \<noteq> 0" using * by (auto simp: start_tester_def new_tester_def)
  moreover have "0 < unat (opt_bsize s)" using assms by (simp add: settings_ok_def unat_gt_0)
  ultimately have "\<exists>r. round_up (length bytes) ?bs = Some r" by (intro round_up_Some) simp
  then show False
    using * bytes by (auto simp: round_up_ALIGNMENT start_tester_def new_tester_def Let_def and_then_def or_error_def split: option.splits)
qed

lemma start_tester_layout:
  assumes "start_tester s st bytes = Inr t"
    "length (inbuf t) < 2 ^ 62" "\<forall>(k, p)\<in>set (opt_codecs s). max_encoded_size (length st) st k (t_bsize t) < 2 ^ 62"
  shows "tester_ok t"
proof -
  have "inbuf t = bytes"
    using assms(1) by (auto simp: start_tester_def new_tester_def Let_def and_then_Inr_iff or_error_Inr_iff split: if_splits)
  then show ?thesis
    using new_tester_ok [OF assms(1) [unfolded start_tester_def]] assms(2,3) by (simp add: split_beta)
qed

text \<open>What holds when a test is started, and the only errors otherwise.\<close>

lemma main_args_started:
  assumes "\<And>name. refs (codec_class (lib_object L name)) = []"
    and "init_pseudocodecs (initial_codecs cfg L) = (ps, st0)"
  shows "main_args ps st0 files args = Started s st t \<Longrightarrow>
      settings_ok s st \<and> opt_codecs s \<noteq> [] \<and> (\<exists>bytes. start_tester s st bytes = Inr t)"
    and "main_args ps st0 files args = Failed e \<Longrightarrow> e \<noteq> Tester_error Division_by_zero"
proof -
  have st0: "store_ok st0" "pseudocodecs_in st0 ps"
    using init_pseudocodecs_in [OF assms(2)] initial_codecs_ok [OF assms(1)] by (auto simp: extends_def)
  have chosen: "settings_ok s' st \<and> opt_codecs s' \<noteq> []"
    if "settings_ok s st" "pseudocodecs_in st ps" "chosen_codecs ps s = Inr s'" for s s' st
    using that settings_ok_codecs [OF that(1), of "DEFAULT_CODECS ps"]
    by (auto simp: chosen_codecs_def Let_def pseudocodecs_in_def split: if_splits)
  have "chosen_codecs ps s = Inl e \<Longrightarrow> e = No_valid_codecs" for s e
    by (auto simp: chosen_codecs_def Let_def split: if_splits)
  then have run: "case main_run ps s st contents of
      Help k \<Rightarrow> True
    | Failed e \<Rightarrow> e \<noteq> Tester_error Division_by_zero
    | Started s st t \<Rightarrow> settings_ok s st \<and> opt_codecs s \<noteq> [] \<and> (\<exists>bytes. start_tester s st bytes = Inr t)"
    if "settings_ok s st" "pseudocodecs_in st ps" for s st contents
    using chosen [OF that] start_tester_divides
    by (auto simp: main_run_def split: option.split sum.split)
  have all: "case main_args ps st0 files args of
      Help k \<Rightarrow> True
    | Failed e \<Rightarrow> e \<noteq> Tester_error Division_by_zero
    | Started s st t \<Rightarrow> settings_ok s st \<and> opt_codecs s \<noteq> [] \<and> (\<exists>bytes. start_tester s st bytes = Inr t)"
    using run parse_args_ok [OF _ default_settings_ok [OF st0(1)] st0(2)] parse_args_error
    by (auto simp: main_args_def split: option.split sum.split prod.split)
  show "main_args ps st0 files args = Started s st t \<Longrightarrow>
      settings_ok s st \<and> opt_codecs s \<noteq> [] \<and> (\<exists>bytes. start_tester s st bytes = Inr t)"
    using all by simp
  show "main_args ps st0 files args = Failed e \<Longrightarrow> e \<noteq> Tester_error Division_by_zero"
    using all by simp
qed


lemma nop_first: "\<exists>rest. initial_codecs (\<lambda>_. False) L =
    codec_of L (Codec_entry ''nop'' ''0'' (Some ''nop_c'') (Some ''nop_d'') No_blowup in_place in_place) # rest"
proof -
  have "\<exists>rest. enabled (\<lambda>_. False) codec_table =
      Codec_entry ''nop'' ''0'' (Some ''nop_c'') (Some ''nop_d'') No_blowup in_place in_place # rest"
    by (simp add: enabled_def codec_table_def multifunction_codecs_def int_mode_codecs_def plain_codecs_def
        nakamichi_codecs_def other_codecs_def checksum_codecs_def sha3_codecs_def more_checksums_def
        cipher_codecs_def pseudo_codecs_def)
  then show ?thesis by (auto simp: initial_codecs_def)
qed


text \<open>The tests for positive numbers let negative ones pass: the variables are unsigned.\<close>

lemma negative_accepted:
  assumes "atoi num = Some n" "n < 0"
  shows "apply_option (CHR ''-'' # CHR ''b'' # num) s = Inr (s\<lparr>opt_bsize := word_of_int n\<rparr>)"
    "unat (word_of_int n :: u64) = nat (2 ^ 64 + n)"
proof -
  have r: "- (2 ^ 31) \<le> n" using atoi_range [OF assms(1)] by simp
  have "uint (word_of_int n :: u64) = (n + 2 ^ 64) mod 2 ^ 64" by (simp add: uint_word_of_int)
  also have "\<dots> = n + 2 ^ 64" using r assms(2) by (intro mod_pos_pos_trivial) auto
  finally have u: "uint (word_of_int n :: u64) = n + 2 ^ 64" .
  then show "unat (word_of_int n :: u64) = nat (2 ^ 64 + n)" by (simp add: unat_eq_nat_uint add.commute)
  have "(word_of_int n :: u64) \<noteq> 0"
  proof
    assume "(word_of_int n :: u64) = 0"
    then have "n + 2 ^ 64 = 0" using u by simp
    then show False using r by simp
  qed
  then show "apply_option (CHR ''-'' # CHR ''b'' # num) s = Inr (s\<lparr>opt_bsize := word_of_int n\<rparr>)"
    using assms(1) by (simp add: apply_option_def number_option_def)
qed

end
