(* ===== verification/Tester_Run.thy ===== *)
theory Tester_Run
  imports Command_Line
begin

text \<open>
  \<open>Tester::test\<close> as a whole: it initialises one codec object after the other, takes its
  measurements, checks the decoded data and lets the object clean up. The parts meet here: the
  settings of the command line, the objects of the codec table, the coding loops and the coders.
\<close>

subsection \<open>One codec\<close>

text \<open>\<open>warmup\<close>: the working buffers get what is in the input buffer.\<close>

definition warmup_step :: "tester \<Rightarrow> bench_mem \<Rightarrow> bench_mem" where
  "warmup_step t mem =
    (let out = store (out_buf mem) 0 (take (min (input_size t) (workbuf_size t)) (inbuf t))
     in mem\<lparr>in_buf := store (in_buf mem) 0 (take (workbuf_size t) out), out_buf := out\<rparr>)"

definition warmup :: "tester \<Rightarrow> nat \<Rightarrow> bench_mem \<Rightarrow> bench_mem" where
  "warmup t iters mem = (warmup_step t ^^ iters) mem"

text \<open>What \<open>prepareEncoderData\<close> and \<open>prepareDecoderData\<close> read from the codec object.\<close>

definition codec_test :: "settings \<Rightarrow> store \<Rightarrow> nat \<Rightarrow> test_params" where
  "codec_test s st k =
    \<lparr>tp_encoder = (\<lambda>i. call_fn (length st) st (the (codec_encoder (st ! k)))
        (param_at (codec_eparams (length st) st k) i)),
     tp_decoder = (\<lambda>i. call_fn (length st) st (the (codec_decoder (st ! k)))
        (param_at (codec_dparams (length st) st k) i)),
     tp_encode_type = encode_transform_type (st ! k), tp_decode_type = decode_transform_type (st ! k),
     tp_can_be_skipped = can_be_skipped (st ! k), tp_ssize = unat (opt_ssize s), tp_verify = opt_verify s,
     tp_overhead_iters = unat (opt_overhead_iterations s), tp_job_size = unat (opt_job_size s),
     tp_iter_time = unat (opt_iter_time s)\<rparr>"

definition check_codec :: "codec \<Rightarrow> bool" where
  "check_codec c \<longleftrightarrow> codec_encoder c \<noteq> None \<and> codec_decoder c \<noteq> None"

text \<open>
  The virtual \<open>cleanup\<close>, with the bound on the depth of the calls that \<open>codec_init\<close> has. Freed
  parameters are null pointers.
\<close>

fun codec_cleanup :: "nat \<Rightarrow> nat \<Rightarrow> store \<Rightarrow> store" where
  "codec_cleanup 0 k st = st"
| "codec_cleanup (Suc depth) k st =
    (case codec_class (st ! k) of
       Plain_codec \<Rightarrow> st
     | Multifunction_codec allowed dflt \<Rightarrow> st
     | Combination_codec e d \<Rightarrow> codec_cleanup depth d (codec_cleanup depth e st)
     | Pipeline_codec first second \<Rightarrow>
         (let st' = codec_cleanup depth second (codec_cleanup depth first st)
          in st'[k := (st' ! k)\<lparr>eparams := None, dparams := None\<rparr>])
     | _ \<Rightarrow> st[k := (st ! k)\<lparr>eparams := None, dparams := None\<rparr>])"

text \<open>The times at which the coding of an iteration starts, and the threads' requests for work.\<close>

record run_clock =
  enc_start :: timespec
  enc_calls :: "(nat \<times> timespec) list"
  dec_start :: timespec
  dec_calls :: "(nat \<times> timespec) list"

text \<open>
  The iterations, with the two working buffers in their order. The statistics, which choose the best
  times, are not modelled.
\<close>

fun test_iterations :: "tester \<Rightarrow> test_params \<Rightarrow> (nat \<Rightarrow> run_clock) \<Rightarrow> nat \<Rightarrow> bench_mem \<Rightarrow>
    bench_error + bench_mem" where
  "test_iterations t tp clock 0 mem = Inr mem"
| "test_iterations t tp clock (Suc n) mem =
    and_then (test_iteration t tp (enc_start (clock n)) (enc_calls (clock n))
        (dec_start (clock n)) (dec_calls (clock n)) mem) (\<lambda>(ctots, dtots, mem').
      test_iterations t tp clock n (swap_buffers tp mem'))"

text \<open>The check after the last iteration clears the data it reads.\<close>

definition check_output :: "tester \<Rightarrow> test_params \<Rightarrow> bench_mem \<Rightarrow> bool \<times> bench_mem" where
  "check_output t tp mem =
    (let m = swap_buffers tp mem;
         clear = (\<lambda>buf. snd (output_crc 0 (input_size t) buf (t_bsize t) (workbuf_block_size t) 0))
     in (verify_codec t tp m,
         swap_buffers tp (if tp_decode_type tp = moving then m\<lparr>out_buf := clear (out_buf m)\<rparr>
                          else m\<lparr>in_buf := clear (in_buf m)\<rparr>)))"

subsection \<open>All codecs\<close>

datatype test_error = Init_failed init_error | Test_failed bench_error

text \<open>What the test says of a codec: it cannot be tested, its times, or also whether the data agreed.\<close>

datatype codec_result = Not_testable | Measured | Checked bool

definition measure_codec :: "tester \<Rightarrow> settings \<Rightarrow> (nat \<Rightarrow> run_clock) \<Rightarrow> nat \<Rightarrow> store \<Rightarrow> bench_mem \<Rightarrow>
    test_error + codec_result \<times> store \<times> bench_mem" where
  "measure_codec t s clock k st mem =
    (let tp = codec_test s st k
     in case test_iterations t tp clock (unat (opt_iterations s)) mem of
          Inl e \<Rightarrow> Inl (Test_failed e)
        | Inr mem' \<Rightarrow>
            let (r, mem'') = (if opt_verify s then map_prod Checked id (check_output t tp mem') else (Measured, mem'))
            in Inr (r, codec_cleanup (length st) k st, mem''))"

definition test_codec :: "tester \<Rightarrow> settings \<Rightarrow> (nat \<Rightarrow> nat) \<Rightarrow> (nat \<Rightarrow> run_clock) \<Rightarrow> nat \<times> string \<Rightarrow> store \<Rightarrow>
    bench_mem \<Rightarrow> test_error + codec_result \<times> store \<times> bench_mem" where
  "test_codec t s alloc clock kp st mem =
    (case codec_init (length st) alloc (fst kp) (snd kp) (threads_no t) True True st of
       Inl e \<Rightarrow> Inl (Init_failed e)
     | Inr st' \<Rightarrow>
         if check_codec (st' ! fst kp) then measure_codec t s clock (fst kp) st' mem
         else Inr (Not_testable, st', mem))"

fun test_codecs :: "tester \<Rightarrow> settings \<Rightarrow> (nat \<Rightarrow> nat) \<Rightarrow> (nat \<Rightarrow> nat \<Rightarrow> run_clock) \<Rightarrow> (nat \<times> string) list \<Rightarrow>
    store \<Rightarrow> bench_mem \<Rightarrow> test_error + codec_result list \<times> store \<times> bench_mem" where
  "test_codecs t s alloc clock [] st mem = Inr ([], st, mem)"
| "test_codecs t s alloc clock (kp # kps) st mem =
    and_then (test_codec t s alloc (clock (length kps)) kp st mem) (\<lambda>(r, st', mem').
    and_then (test_codecs t s alloc clock kps st' mem') (\<lambda>(rs, st'', mem'').
    Inr (r # rs, st'', mem'')))"

definition tester_test :: "tester \<Rightarrow> settings \<Rightarrow> (nat \<Rightarrow> nat) \<Rightarrow> (nat \<Rightarrow> nat \<Rightarrow> run_clock) \<Rightarrow> store \<Rightarrow>
    bench_mem \<Rightarrow> test_error + codec_result list \<times> store \<times> bench_mem" where
  "tester_test t s alloc clock st mem =
    test_codecs t s alloc clock (opt_codecs s) st (warmup t (nat (opt_warmup_iters s)) mem)"

subsection \<open>The working buffers keep their sizes\<close>

lemma mem_ok_swap [simp]: "mem_ok N w (swap_buffers tp mem) \<longleftrightarrow> mem_ok N w mem"
  by (auto simp: swap_buffers_def mem_ok_def)

lemma swap_swap [simp]: "swap_buffers tp (swap_buffers tp mem) = mem"
  by (simp add: swap_buffers_def)

lemma warmup_ok:
  assumes "tester_ok t" "mem_ok (blocks_no t) (workbuf_block_size t) mem"
  shows "mem_ok (blocks_no t) (workbuf_block_size t) (warmup t n mem)"
proof (induction n)
  case 0
  then show ?case using assms(2) by (simp add: warmup_def)
next
  case (Suc n)
  moreover have "mem_ok (blocks_no t) (workbuf_block_size t) (warmup_step t m)"
    if "mem_ok (blocks_no t) (workbuf_block_size t) m" for m
    using that assms(1) by (simp add: warmup_step_def mem_ok_def tester_ok_def Let_def store_def)
  ultimately show ?case by (simp add: warmup_def)
qed

lemma length_output_crc:
  assumes "length buf = N * w" "0 < bs" "bs \<le> w" "off = k * w" "left \<le> (N - k) * bs"
  shows "length (snd (output_crc off left buf bs w c)) = length buf"
  using assms
proof (induction off left buf bs w c arbitrary: k rule: output_crc.induct)
  case (1 off left buf bs w c)
  show ?case
  proof (cases "left = 0")
    case True
    then show ?thesis by (simp add: output_crc.simps [of _ 0])
  next
    case False
    let ?n = "min left bs"
    let ?buf = "store buf off (replicate ?n 0)"
    have "k < N" using False 1(6) by (auto intro: ccontr)
    then have "off + w \<le> N * w" using block_end [of k N w] 1(5) by simp
    then have len: "length ?buf = length buf" using 1(2-4) by simp
    have next_off: "off + w = Suc k * w" using 1(5) by simp
    have rest: "left - ?n \<le> (N - Suc k) * bs"
      using 1(6) \<open>k < N\<close> by (cases "left \<le> bs") (simp_all add: diff_mult_distrib)
    have "length (snd (output_crc (off + w) (left - ?n) ?buf bs w (crc (load buf off ?n) c))) = length ?buf"
      using 1(1) [OF _ refl _ 1(3,4) next_off rest] False 1(2,3) len by simp
    then show ?thesis using False 1(3) len by (subst output_crc.simps) (simp add: Let_def)
  qed
qed

lemma check_output_ok:
  assumes "tester_ok t" "mem_ok (blocks_no t) (workbuf_block_size t) mem"
  shows "\<exists>mem'. check_output t tp mem = (verify_codec t tp (swap_buffers tp mem), mem') \<and>
    mem_ok (blocks_no t) (workbuf_block_size t) mem'"
proof -
  let ?clear = "\<lambda>buf. snd (output_crc 0 (input_size t) buf (t_bsize t) (workbuf_block_size t) 0)"
  have "length (?clear buf) = length buf" if "length buf = blocks_no t * workbuf_block_size t" for buf
    using length_output_crc [of buf "blocks_no t" "workbuf_block_size t" "t_bsize t" 0 0 "input_size t" 0] that assms(1)
    by (simp add: tester_ok_def)
  then have "mem_ok (blocks_no t) (workbuf_block_size t) (m\<lparr>out_buf := ?clear (out_buf m)\<rparr>)"
    "mem_ok (blocks_no t) (workbuf_block_size t) (m\<lparr>in_buf := ?clear (in_buf m)\<rparr>)"
    if "mem_ok (blocks_no t) (workbuf_block_size t) m" for m
    using that by (simp_all add: mem_ok_def)
  then show ?thesis using assms(2) by (simp add: check_output_def Let_def)
qed

subsection \<open>Lossless codecs\<close>

text \<open>
  The clock and the order of the requests, for every codec and every iteration: the threads of the
  tester take the work until there is no more.
\<close>

definition clock_ok :: "tester \<Rightarrow> settings \<Rightarrow> (nat \<Rightarrow> nat \<Rightarrow> run_clock) \<Rightarrow> bool" where
  "clock_ok t s clock \<longleftrightarrow> (\<forall>i j st k. \<exists>cs ds.
    compression_scheduler t (codec_test s st k) (enc_start (clock i j)) = Some cs \<and>
    ran_by (threads_no t) cs (enc_calls (clock i j)) \<and>
    decompression_scheduler t (codec_test s st k) (dec_start (clock i j)) = Some ds \<and>
    ran_by (threads_no t) ds (dec_calls (clock i j)))"

text \<open>A test as \<open>main\<close> starts it, of a file of moderate size, with a moderate job size.\<close>

definition sizes_ok :: "tester \<Rightarrow> settings \<Rightarrow> (nat \<Rightarrow> nat) list \<Rightarrow> byte list \<Rightarrow> bool" where
  "sizes_ok t s max_sizes contents \<longleftrightarrow>
    length contents < 2 ^ 62 \<and> (\<forall>f\<in>set max_sizes. f (t_bsize t) < 2 ^ 62) \<and>
    workbuf_size t < 2 ^ 62 \<and> blocks_no t < 2 ^ 32 \<and> unat (opt_job_size s) < 2 ^ 62"

definition starts :: "tester \<Rightarrow> settings \<Rightarrow> (nat \<Rightarrow> nat \<Rightarrow> run_clock) \<Rightarrow> bool" where
  "starts t s clock \<longleftrightarrow>
    (\<exists>max_sizes contents bs threads. new_tester max_sizes contents bs threads = Inr t \<and>
      sizes_ok t s max_sizes contents) \<and> opt_iterations s \<noteq> 0 \<and> clock_ok t s clock"

abbreviation buffers_ok :: "tester \<Rightarrow> bench_mem \<Rightarrow> bool" where
  "buffers_ok t \<equiv> mem_ok (blocks_no t) (workbuf_block_size t)"

lemma starts_tester_ok: "starts t s clock \<Longrightarrow> tester_ok t"
  unfolding starts_def sizes_ok_def using new_tester_ok by blast

lemma iteration_ok:
  assumes "starts t s clock" and lossless: "lossless_test t (codec_test s st k)" and mem: "buffers_ok t mem"
  shows "\<exists>ctots dtots mem'. test_iteration t (codec_test s st k) (enc_start (clock i j)) (enc_calls (clock i j))
      (dec_start (clock i j)) (dec_calls (clock i j)) mem = Inr (ctots, dtots, mem') \<and>
    verify_codec t (codec_test s st k) mem' \<and> buffers_ok t mem'"
proof -
  obtain cs ds where scheds:
    "compression_scheduler t (codec_test s st k) (enc_start (clock i j)) = Some cs"
    "ran_by (threads_no t) cs (enc_calls (clock i j))"
    "decompression_scheduler t (codec_test s st k) (dec_start (clock i j)) = Some ds"
    "ran_by (threads_no t) ds (dec_calls (clock i j))"
    using assms(1) unfolding starts_def clock_ok_def by blast
  obtain max_sizes contents bs threads where t: "new_tester max_sizes contents bs threads = Inr t"
    and sizes: "length contents < 2 ^ 62" "\<forall>f\<in>set max_sizes. f (t_bsize t) < 2 ^ 62"
      "workbuf_size t < 2 ^ 62" "blocks_no t < 2 ^ 32"
    using assms(1) unfolding starts_def sizes_ok_def by blast
  show ?thesis by (rule test_lossless [OF t sizes lossless mem scheds])
qed

lemma iterations_ok:
  assumes "starts t s clock" "lossless_test t (codec_test s st k)" "buffers_ok t mem" "0 < n"
  shows "\<exists>mem'. test_iterations t (codec_test s st k) (clock i) n mem = Inr mem' \<and>
    verify_codec t (codec_test s st k) (swap_buffers (codec_test s st k) mem') \<and> buffers_ok t mem'"
  using assms(3,4)
proof (induction n arbitrary: mem)
  case (Suc n)
  obtain ctots dtots mem' where 1: "test_iteration t (codec_test s st k) (enc_start (clock i n)) (enc_calls (clock i n))
      (dec_start (clock i n)) (dec_calls (clock i n)) mem = Inr (ctots, dtots, mem')"
    and ok: "verify_codec t (codec_test s st k) mem'" "buffers_ok t mem'"
    using iteration_ok [OF assms(1,2) Suc.prems(1)] by blast
  show ?case
  proof (cases "n = 0")
    case True
    then show ?thesis using 1 ok by simp
  next
    case False
    then show ?thesis using Suc.IH [of "swap_buffers (codec_test s st k) mem'"] 1 ok by simp
  qed
qed simp

lemma measure_ok:
  assumes "starts t s clock" "lossless_test t (codec_test s st k)" "buffers_ok t mem" "opt_verify s"
  shows "\<exists>mem'. measure_codec t s (clock i) k st mem = Inr (Checked True, codec_cleanup (length st) k st, mem') \<and>
    buffers_ok t mem'"
proof -
  have "0 < unat (opt_iterations s)" using assms(1) by (simp add: starts_def unat_gt_0)
  then obtain mem1 where 1: "test_iterations t (codec_test s st k) (clock i) (unat (opt_iterations s)) mem = Inr mem1"
    "verify_codec t (codec_test s st k) (swap_buffers (codec_test s st k) mem1)" "buffers_ok t mem1"
    using iterations_ok [OF assms(1-3)] by blast
  then show ?thesis
    using check_output_ok [OF starts_tester_ok 1(3), of s clock "codec_test s st k"] assms(1,4)
    by (auto simp: measure_codec_def Let_def)
qed

text \<open>
  It is enough that each codec object can be initialised and then is a lossless codec, and that
  cleaning up keeps the objects fit for this.
\<close>

lemma codecs_ok:
  assumes "starts t s clock" "opt_verify s" "buffers_ok t mem" "I st"
    and "\<And>k args st. (k, args) \<in> set cs \<Longrightarrow> I st \<Longrightarrow>
      \<exists>st'. codec_init (length st) alloc k args (threads_no t) True True st = Inr st' \<and> check_codec (st' ! k) \<and>
        lossless_test t (codec_test s st' k) \<and> I (codec_cleanup (length st') k st')"
  shows "\<exists>st' mem'. test_codecs t s alloc clock cs st mem = Inr (replicate (length cs) (Checked True), st', mem') \<and>
    I st' \<and> buffers_ok t mem'"
  using assms(3-)
proof (induction cs arbitrary: st mem)
  case (Cons c cs)
  obtain k args where c: "c = (k, args)" by (cases c)
  obtain st1 where 1: "codec_init (length st) alloc k args (threads_no t) True True st = Inr st1"
    "check_codec (st1 ! k)" "lossless_test t (codec_test s st1 k)" "I (codec_cleanup (length st1) k st1)"
    using Cons.prems(3) [OF _ Cons.prems(2), of k args] c by auto
  obtain mem1 where 2: "measure_codec t s (clock (length cs)) k st1 mem =
      Inr (Checked True, codec_cleanup (length st1) k st1, mem1)" "buffers_ok t mem1"
    using measure_ok [OF assms(1) 1(3) Cons.prems(1) assms(2)] by blast
  have "\<exists>st' mem'. test_codecs t s alloc clock cs (codec_cleanup (length st1) k st1) mem1 =
      Inr (replicate (length cs) (Checked True), st', mem') \<and> I st' \<and> buffers_ok t mem'"
    by (rule Cons.IH [OF 2(2) 1(4)], rule Cons.prems(3)) simp_all
  then show ?case using 1 2 by (auto simp: test_codec_def c)
qed simp

end
