(* ===== verification/Lzf.thy ===== *)
theory Lzf
  imports Machine_Words
begin

text \<open>
  LibLZF (\<open>codecs/lzf\<close>): the three encoders, which differ in macros only, and the decoder. The
  encoders read the block \<open>ib\<close> and append to their output; a run of literals begins with a byte that
  is written when the run ends. The hash table is not initialised: its first contents are an argument
  of the model, and the results hold for all of them. On a 64-bit machine it holds offsets.
\<close>

subsection \<open>The encoder\<close>

definition HLOG :: nat where "HLOG = 16"
definition MAX_LIT :: nat where "MAX_LIT = 32"
definition MAX_OFF :: nat where "MAX_OFF = 8192"
definition MAX_REF :: nat where "MAX_REF = 264"

text \<open>\<open>VERY_FAST\<close> and \<open>ULTRA_FAST\<close>, or neither.\<close>

datatype lzf_variant = Lzf_best | Lzf_very | Lzf_ultra

definition FRST :: "byte list \<Rightarrow> nat \<Rightarrow> u32" where
  "FRST ib p = push_bit 8 (ucast (ib ! p)) OR ucast (ib ! (p + 1))"

definition NEXT :: "u32 \<Rightarrow> byte list \<Rightarrow> nat \<Rightarrow> u32" where
  "NEXT v ib p = push_bit 8 v OR ucast (ib ! (p + 2))"

definition IDX :: "lzf_variant \<Rightarrow> u32 \<Rightarrow> nat" where
  "IDX v h = unat ((case v of
      Lzf_best \<Rightarrow> drop_bit (3 * 8 - HLOG) (h XOR push_bit 5 h) - h * 5
    | Lzf_very \<Rightarrow> drop_bit (3 * 8 - HLOG) h - h * 5
    | Lzf_ultra \<Rightarrow> drop_bit (3 * 8 - HLOG) h - h) AND (2 ^ HLOG - 1))"

record lzf_enc =
  lzf_ip :: nat
  lzf_op :: "byte list"
  lzf_lit :: nat
  lzf_hval :: u32
  lzf_htab :: "nat \<Rightarrow> u32"

text \<open>\<open>hval = NEXT (hval, ip); htab[IDX (hval)] = ip - LZF_HSLOT_BIAS\<close>\<close>

definition lzf_insert :: "lzf_variant \<Rightarrow> byte list \<Rightarrow> nat \<Rightarrow> lzf_enc \<Rightarrow> lzf_enc" where
  "lzf_insert v ib ip s =
    (let hval = NEXT (lzf_hval s) ib ip
     in s\<lparr>lzf_hval := hval, lzf_htab := (lzf_htab s)(IDX v hval := word_of_nat ip)\<rparr>)"

text \<open>
  The length of a match: sixteen unrolled comparisons when there is room for them, then a loop. The
  first component tells whether the unrolled part ended the search.
\<close>

fun lzf_unrolled :: "nat \<Rightarrow> byte list \<Rightarrow> nat \<Rightarrow> nat \<Rightarrow> nat \<Rightarrow> bool \<times> nat" where
  "lzf_unrolled 0 ib ref ip len = (False, len)"
| "lzf_unrolled (Suc n) ib ref ip len =
    (if ib ! (ref + (len + 1)) \<noteq> ib ! (ip + (len + 1)) then (True, len + 1)
     else lzf_unrolled n ib ref ip (len + 1))"

function lzf_do_while :: "byte list \<Rightarrow> nat \<Rightarrow> nat \<Rightarrow> nat \<Rightarrow> nat \<Rightarrow> nat" where
  "lzf_do_while ib ref ip maxlen len =
    (if len + 1 < maxlen \<and> ib ! (ref + (len + 1)) = ib ! (ip + (len + 1))
     then lzf_do_while ib ref ip maxlen (len + 1) else len + 1)"
  by pat_completeness auto
termination by (relation "measure (\<lambda>(ib, ref, ip, maxlen, len). maxlen - len)") auto

declare lzf_do_while.simps [simp del]

definition lzf_match_len :: "byte list \<Rightarrow> nat \<Rightarrow> nat \<Rightarrow> nat \<Rightarrow> nat" where
  "lzf_match_len ib ref ip maxlen =
    (case if 16 < maxlen then lzf_unrolled 16 ib ref ip 2 else (False, 2) of
       (True, len) \<Rightarrow> len
     | (False, len) \<Rightarrow> lzf_do_while ib ref ip maxlen len)"

text \<open>\<open>op [- lit - 1] = lit - 1; op -= !lit\<close>\<close>

definition lzf_stop_run :: "lzf_enc \<Rightarrow> lzf_enc" where
  "lzf_stop_run s =
    (let dst = (lzf_op s)[length (lzf_op s) - lzf_lit s - 1 := word_of_nat (lzf_lit s) - 1]
     in s\<lparr>lzf_op := if lzf_lit s = 0 then butlast dst else dst\<rparr>)"

text \<open>The table entries for the bytes of a match, behind which \<open>ip\<close> already is.\<close>

definition lzf_after_match :: "lzf_variant \<Rightarrow> byte list \<Rightarrow> nat \<Rightarrow> lzf_enc \<Rightarrow> lzf_enc" where
  "lzf_after_match v ib len s =
    (let ip = lzf_ip s
     in case v of
          Lzf_best \<Rightarrow> fold (\<lambda>j. lzf_insert v ib (ip - (len + 1) + j)) [0..<len + 1] s
        | Lzf_very \<Rightarrow> lzf_insert v ib (ip - 1) (lzf_insert v ib (ip - 2) (s\<lparr>lzf_hval := FRST ib (ip - 2)\<rparr>))
        | Lzf_ultra \<Rightarrow> lzf_insert v ib (ip - 1) (s\<lparr>lzf_hval := FRST ib (ip - 1)\<rparr>))"

text \<open>A match at distance \<open>off + 1\<close>; \<open>None\<close> is \<open>return 0\<close>.\<close>

definition lzf_put_match :: "lzf_variant \<Rightarrow> byte list \<Rightarrow> nat \<Rightarrow> nat \<Rightarrow> nat \<Rightarrow> lzf_enc \<Rightarrow> lzf_enc option" where
  "lzf_put_match v ib in_len out_len off s =
    (let ip = lzf_ip s; op = length (lzf_op s); lit = lzf_lit s;
         maxlen = min (in_len - ip - 2) MAX_REF
     in if op + 3 + 1 \<ge> out_len \<and> op - of_bool (lit = 0) + 3 + 1 \<ge> out_len then None
        else
          let s = lzf_stop_run s;
              len = lzf_match_len ib (ip - off - 1) ip maxlen - 2;
              code = (if len < 7 then [to_byte (drop_bit 8 off + push_bit 5 len)]
                      else [to_byte (drop_bit 8 off + push_bit 5 7), to_byte (len - 7)]) @ [to_byte off];
              s = s\<lparr>lzf_op := lzf_op s @ code @ [0], lzf_lit := 0, lzf_ip := ip + 1 + len + 1\<rparr>
          in if in_len \<le> lzf_ip s + 2 then Some s else Some (lzf_after_match v ib len s))"

text \<open>\<open>lit++; *op++ = *ip++\<close>, and the end of a run of \<open>MAX_LIT\<close> bytes.\<close>

definition lzf_put_literal :: "byte list \<Rightarrow> lzf_enc \<Rightarrow> lzf_enc" where
  "lzf_put_literal ib s =
    (let s = s\<lparr>lzf_lit := lzf_lit s + 1, lzf_op := lzf_op s @ [ib ! lzf_ip s], lzf_ip := lzf_ip s + 1\<rparr>
     in if lzf_lit s = MAX_LIT
        then let s = lzf_stop_run s in s\<lparr>lzf_lit := 0, lzf_op := lzf_op s @ [0]\<rparr>
        else s)"

definition lzf_step :: "lzf_variant \<Rightarrow> byte list \<Rightarrow> nat \<Rightarrow> nat \<Rightarrow> lzf_enc \<Rightarrow> lzf_enc option" where
  "lzf_step v ib in_len out_len s =
    (let ip = lzf_ip s;
         ref = unat (lzf_htab s (IDX v (NEXT (lzf_hval s) ib ip)));
         s = lzf_insert v ib ip s;
         off = nat ((int ip - int ref - 1) mod 2 ^ 64)
     in if off < MAX_OFF \<and> 0 < ref \<and> ib ! (ref + 2) = ib ! (ip + 2) \<and>
           ib ! ref = ib ! ip \<and> ib ! (ref + 1) = ib ! (ip + 1)
        then lzf_put_match v ib in_len out_len off s
        else if length (lzf_op s) \<ge> out_len then None
        else Some (lzf_put_literal ib s))"

lemma lzf_stop_run_ip [simp]: "lzf_ip (lzf_stop_run s) = lzf_ip s"
  and lzf_insert_ip [simp]: "lzf_ip (lzf_insert v ib ip s) = lzf_ip s"
  by (simp_all add: lzf_stop_run_def lzf_insert_def Let_def)

lemma lzf_insert_fold_ip: "lzf_ip (fold (\<lambda>j. lzf_insert v ib (f j)) js s) = lzf_ip s"
  by (induction js arbitrary: s) simp_all

lemma lzf_after_match_ip [simp]: "lzf_ip (lzf_after_match v ib len s) = lzf_ip s"
  by (cases v) (simp_all add: lzf_after_match_def Let_def lzf_insert_fold_ip del: upt_Suc)

lemma lzf_put_match_advances: "pred_option (\<lambda>s'. lzf_ip s < lzf_ip s') (lzf_put_match v ib in_len out_len off s)"
  unfolding lzf_put_match_def Let_def by simp

lemma lzf_put_literal_ip [simp]: "lzf_ip (lzf_put_literal ib s) = lzf_ip s + 1"
  by (simp add: lzf_put_literal_def Let_def)

lemma lzf_step_advances: "pred_option (\<lambda>s'. lzf_ip s < lzf_ip s') (lzf_step v ib in_len out_len s)"
  using lzf_put_match_advances [of "lzf_insert v ib (lzf_ip s) s"]
  unfolding lzf_step_def Let_def by simp

function lzf_compress_loop :: "lzf_variant \<Rightarrow> byte list \<Rightarrow> nat \<Rightarrow> nat \<Rightarrow> lzf_enc \<Rightarrow> lzf_enc option" where
  "lzf_compress_loop v ib in_len out_len s =
    (if lzf_ip s + 2 < in_len
     then case lzf_step v ib in_len out_len s of
            None \<Rightarrow> None
          | Some s \<Rightarrow> lzf_compress_loop v ib in_len out_len s
     else Some s)"
  by pat_completeness auto
termination
proof (relation "measure (\<lambda>(v, ib, in_len, out_len, s). in_len - lzf_ip s)", goal_cases)
  case (2 v ib in_len out_len s s')
  then show ?case using lzf_step_advances [of s v ib in_len out_len] by simp
qed simp

declare lzf_compress_loop.simps [simp del]

text \<open>The last bytes, and the end of the last run.\<close>

definition lzf_finish :: "byte list \<Rightarrow> nat \<Rightarrow> nat \<Rightarrow> lzf_enc \<Rightarrow> byte list option" where
  "lzf_finish ib in_len out_len s =
    (if length (lzf_op s) + 3 > out_len then None
     else Some (lzf_op (lzf_stop_run (fold (\<lambda>_. lzf_put_literal ib) [lzf_ip s..<in_len] s))))"

text \<open>The code, or \<open>[]\<close> with the result 0; \<open>None\<close> is a read behind the block.\<close>

definition lzf_compress_with :: "lzf_variant \<Rightarrow> (nat \<Rightarrow> u32) \<Rightarrow> byte list \<Rightarrow> nat \<Rightarrow> nat \<Rightarrow> byte list option" where
  "lzf_compress_with v htab ib in_len out_len =
    (if in_len = 0 \<or> out_len = 0 then Some []
     else if length ib < in_len \<or> length ib < 2 then None
     else case lzf_compress_loop v ib in_len out_len
                 \<lparr>lzf_ip = 0, lzf_op = [0], lzf_lit = 0, lzf_hval = FRST ib 0, lzf_htab = htab\<rparr> of
            None \<Rightarrow> Some []
          | Some s \<Rightarrow> (case lzf_finish ib in_len out_len s of None \<Rightarrow> Some [] | Some out \<Rightarrow> Some out))"

definition lzf_compress :: "(nat \<Rightarrow> u32) \<Rightarrow> byte list \<Rightarrow> nat \<Rightarrow> nat \<Rightarrow> byte list option" where
  "lzf_compress = lzf_compress_with Lzf_best"

definition lzf_compress_very :: "(nat \<Rightarrow> u32) \<Rightarrow> byte list \<Rightarrow> nat \<Rightarrow> nat \<Rightarrow> byte list option" where
  "lzf_compress_very = lzf_compress_with Lzf_very"

definition lzf_compress_ultra :: "(nat \<Rightarrow> u32) \<Rightarrow> byte list \<Rightarrow> nat \<Rightarrow> nat \<Rightarrow> byte list option" where
  "lzf_compress_ultra = lzf_compress_with Lzf_ultra"

subsection \<open>The decoder\<close>

text \<open>\<open>switch (len)\<close>: short references octet by octet, long ones with \<open>memcpy\<close> where they do not overlap.\<close>

definition lzf_copy :: "nat \<Rightarrow> byte list \<Rightarrow> nat \<Rightarrow> nat \<Rightarrow> byte list" where
  "lzf_copy len d op ref =
    (if 9 < len \<and> ref + (len + 2) \<le> op then copy_block (len + 2) d op ref else copy_forward (len + 2) d op ref)"

text \<open>
  One turn of the loop, on the input behind \<open>ip\<close>: an access outside the blocks, a return with the
  output block and the result, or the rest of the input, the number of bytes read, and the output.
\<close>

datatype lzf_result = Fault | Stop "byte list" nat | Go "byte list" nat "byte list" nat

definition lzf_item :: "nat \<Rightarrow> byte list \<Rightarrow> byte list \<Rightarrow> nat \<Rightarrow> lzf_result" where
  "lzf_item out_len src d op =
    (case src of
       [] \<Rightarrow> Fault
     | c # src \<Rightarrow>
         let ctrl = unat c
         in if ctrl < 2 ^ 5 then
              let n = ctrl + 1
              in if op + n > out_len then Stop d 0
                 else if length src < n \<or> length d < op + n then Fault
                 else Go (drop n src) (n + 1) (take op d @ take n src @ drop (op + n) d) (op + n)
            else
              (case (if drop_bit 5 ctrl = 7
                     then (case src of [] \<Rightarrow> None | x # src \<Rightarrow> Some (7 + unat x, src, 3))
                     else Some (drop_bit 5 ctrl, src, 2)) of
                 None \<Rightarrow> Fault
               | Some (len, src, used) \<Rightarrow>
                   (case src of
                      [] \<Rightarrow> Fault
                    | y # src \<Rightarrow>
                        let back = push_bit 8 (ctrl AND 0x1f) + 1 + unat y
                        in if op + len + 2 > out_len then Stop d 0
                           else if op < back then Stop d 0
                           else if length d < op + len + 2 then Fault
                           else Go src used (lzf_copy len d op (op - back)) (op + len + 2))))"

lemma lzf_item_shorter: "lzf_item out_len src d op = Go src' used d' op' \<Longrightarrow> length src' < length src"
  by (auto simp: lzf_item_def Let_def split: list.splits if_splits option.splits)

text \<open>\<open>left\<close> is \<open>in_end - ip\<close>; the test for the end of the input comes behind the body.\<close>

function lzf_decompress_loop :: "nat \<Rightarrow> byte list \<Rightarrow> nat \<Rightarrow> byte list \<Rightarrow> nat \<Rightarrow> (byte list \<times> nat) option" where
  "lzf_decompress_loop out_len src left d op =
    (case lzf_item out_len src d op of
       Fault \<Rightarrow> None
     | Stop d r \<Rightarrow> Some (d, r)
     | Go src used d op \<Rightarrow>
         if used < left then lzf_decompress_loop out_len src (left - used) d op else Some (d, op))"
  by pat_completeness auto
termination
  by (relation "measure (\<lambda>(out_len, src, left, d, op). length src)") (auto dest: lzf_item_shorter)

declare lzf_decompress_loop.simps [simp del]

definition lzf_decompress :: "byte list \<Rightarrow> nat \<Rightarrow> byte list \<Rightarrow> nat \<Rightarrow> (byte list \<times> nat) option" where
  "lzf_decompress ib in_len ob out_len = lzf_decompress_loop out_len ib in_len ob 0"

subsection \<open>Tokens\<close>

text \<open>The code is a sequence of runs of literals and of references of a length at a distance less one.\<close>

datatype lzf_tok = Run "byte list" | Ref nat nat

fun tok_len :: "lzf_tok \<Rightarrow> nat" where
  "tok_len (Run bs) = length bs"
| "tok_len (Ref len off) = len"

fun tok_bytes :: "lzf_tok \<Rightarrow> byte list" where
  "tok_bytes (Run bs) = (word_of_nat (length bs) - 1) # bs"
| "tok_bytes (Ref len off) =
    (if len - 2 < 7 then [to_byte (drop_bit 8 off + push_bit 5 (len - 2))]
     else [to_byte (drop_bit 8 off + push_bit 5 7), to_byte (len - 2 - 7)]) @ [to_byte off]"

fun tok_ok :: "byte list \<Rightarrow> nat \<Rightarrow> lzf_tok \<Rightarrow> bool" where
  "tok_ok ib i (Run bs) \<longleftrightarrow> bs \<noteq> [] \<and> length bs \<le> MAX_LIT \<and> i + length bs \<le> length ib \<and>
    bs = take (length bs) (drop i ib)"
| "tok_ok ib i (Ref len off) \<longleftrightarrow> 3 \<le> len \<and> len \<le> MAX_REF \<and> off < MAX_OFF \<and> off < i \<and>
    i + len \<le> length ib \<and> (\<forall>k<len. ib ! (i + k) = ib ! (i + k - (off + 1)))"

abbreviation toks_ok :: "byte list \<Rightarrow> nat \<Rightarrow> lzf_tok list \<Rightarrow> nat \<Rightarrow> bool" where
  "toks_ok ib \<equiv> parses (tok_ok ib) tok_len"

subsection \<open>The encoder writes tokens\<close>

lemma lzf_unrolled_ok:
  assumes "lzf_unrolled n ib ref ip len = (b, len')" "\<And>k. k \<le> len \<Longrightarrow> ib ! (ref + k) = ib ! (ip + k)"
  shows "len \<le> len' \<and> len' \<le> len + n \<and> (\<not> b \<longrightarrow> len' = len + n) \<and> (b \<longrightarrow> len < len') \<and>
    (\<forall>k. (if b then k < len' else k \<le> len') \<longrightarrow> ib ! (ref + k) = ib ! (ip + k))"
  using assms
proof (induction n arbitrary: len)
  case (Suc n)
  show ?case
  proof (cases "ib ! (ref + (len + 1)) = ib ! (ip + (len + 1))")
    case True
    then have "\<And>k. k \<le> len + 1 \<Longrightarrow> ib ! (ref + k) = ib ! (ip + k)"
      using Suc.prems(2) by (metis le_add1 le_neq_implies_less less_Suc_eq_le Suc_eq_plus1)
    then show ?thesis using Suc.IH [of "len + 1"] Suc.prems(1) True by auto
  next
    case False
    then show ?thesis using Suc.prems by auto
  qed
qed auto

lemma lzf_do_while_ok:
  assumes "\<And>k. k \<le> len \<Longrightarrow> ib ! (ref + k) = ib ! (ip + k)"
  shows "len < lzf_do_while ib ref ip maxlen len \<and> lzf_do_while ib ref ip maxlen len \<le> max maxlen (len + 1) \<and>
    (\<forall>k<lzf_do_while ib ref ip maxlen len. ib ! (ref + k) = ib ! (ip + k))"
  using assms
proof (induction ib ref ip maxlen len rule: lzf_do_while.induct)
  case (1 ib ref ip maxlen len)
  note eq = lzf_do_while.simps [of ib ref ip maxlen len]
  show ?case
  proof (cases "len + 1 < maxlen \<and> ib ! (ref + (len + 1)) = ib ! (ip + (len + 1))")
    case True
    then have "\<And>k. k \<le> len + 1 \<Longrightarrow> ib ! (ref + k) = ib ! (ip + k)"
      using 1(2) by (metis le_add1 le_neq_implies_less less_Suc_eq_le Suc_eq_plus1)
    from 1(1) [OF True this] show ?thesis unfolding eq if_P [OF True] using True by auto
  next
    case False
    then show ?thesis unfolding eq if_not_P [OF False] using 1(2) by auto
  qed
qed

lemma lzf_match_len_ok:
  assumes "\<And>k. k \<le> 2 \<Longrightarrow> ib ! (ref + k) = ib ! (ip + k)" "ip + 2 < in_len"
  defines "len \<equiv> lzf_match_len ib ref ip (min (in_len - ip - 2) MAX_REF)"
  shows "3 \<le> len \<and> len \<le> MAX_REF \<and> ip + len \<le> in_len \<and> (\<forall>k<len. ib ! (ref + k) = ib ! (ip + k))"
proof -
  let ?m = "min (in_len - ip - 2) MAX_REF"
  show ?thesis
  proof (cases "16 < ?m")
    case False
    then have eq: "len = lzf_do_while ib ref ip ?m 2" unfolding len_def lzf_match_len_def if_not_P [OF False] by simp
    have "2 < len" "len \<le> max ?m (2 + 1)" "\<forall>k<len. ib ! (ref + k) = ib ! (ip + k)"
      using lzf_do_while_ok [of 2 ib ref ip ?m, OF assms(1)] unfolding eq by simp_all
    moreover have "max ?m (2 + 1) \<le> MAX_REF" "ip + max ?m (2 + 1) \<le> in_len"
      unfolding MAX_REF_def using assms(2) by linarith+
    ultimately show ?thesis by (intro conjI; linarith?) blast
  next
    case True
    obtain b l where u: "lzf_unrolled 16 ib ref ip 2 = (b, l)" by fastforce
    note ok = lzf_unrolled_ok [OF u assms(1)]
    show ?thesis
    proof (cases b)
      case b: True
      then have "len = l" unfolding len_def lzf_match_len_def if_P [OF True] u by simp
      then show ?thesis using ok b True by (auto simp: MAX_REF_def)
    next
      case b: False
      then have "l = 18" "\<And>k. k \<le> 18 \<Longrightarrow> ib ! (ref + k) = ib ! (ip + k)" using ok by auto
      note l = this
      have eq: "len = lzf_do_while ib ref ip ?m 18"
        unfolding len_def lzf_match_len_def if_P [OF True] u using b l(1) by simp
      have "18 < len" "len \<le> max ?m (18 + 1)" "\<forall>k<len. ib ! (ref + k) = ib ! (ip + k)"
        using lzf_do_while_ok [of 18 ib ref ip ?m, OF l(2)] unfolding eq by simp_all
      moreover have "max ?m (18 + 1) \<le> MAX_REF" "ip + max ?m (18 + 1) \<le> in_len"
        using True unfolding MAX_REF_def by linarith+
      ultimately show ?thesis by (intro conjI; linarith?) blast
    qed
  qed
qed

definition lzf_inv :: "byte list \<Rightarrow> lzf_enc \<Rightarrow> lzf_tok list \<Rightarrow> bool" where
  "lzf_inv ib s ts \<longleftrightarrow>
    (\<exists>x run. lzf_op s = concat (map tok_bytes ts) @ x # run \<and> length run = lzf_lit s \<and>
      run = take (lzf_lit s) (drop (lzf_ip s - lzf_lit s) ib)) \<and>
    lzf_lit s \<le> MAX_LIT \<and> lzf_lit s \<le> lzf_ip s \<and> lzf_ip s \<le> length ib \<and> toks_ok ib 0 ts (lzf_ip s - lzf_lit s)"

text \<open>The end of a run makes it a token.\<close>

lemma lzf_stop_run_ok:
  assumes "lzf_inv ib s ts"
  shows "\<exists>ts. lzf_op (lzf_stop_run s) = concat (map tok_bytes ts) \<and> toks_ok ib 0 ts (lzf_ip s)"
proof -
  obtain x run where s: "lzf_op s = concat (map tok_bytes ts) @ x # run" "length run = lzf_lit s"
    "run = take (lzf_lit s) (drop (lzf_ip s - lzf_lit s) ib)" "toks_ok ib 0 ts (lzf_ip s - lzf_lit s)"
    "lzf_lit s \<le> lzf_ip s" "lzf_lit s \<le> MAX_LIT" "lzf_ip s \<le> length ib"
    using assms unfolding lzf_inv_def by blast
  show ?thesis
  proof (cases "lzf_lit s = 0")
    case True
    then show ?thesis using s by (auto simp: lzf_stop_run_def Let_def butlast_append)
  next
    case False
    then have "tok_ok ib (lzf_ip s - lzf_lit s) (Run run)" using s(2,3,5-7) by auto
    then have "toks_ok ib 0 (ts @ [Run run]) (lzf_ip s)"
      using s(2,4,5) by (auto simp: parses_append)
    moreover have "lzf_op (lzf_stop_run s) = concat (map tok_bytes (ts @ [Run run]))"
      using False s(1,2) by (simp add: lzf_stop_run_def Let_def list_update_append)
    ultimately show ?thesis by blast
  qed
qed

lemma lzf_put_literal_ok:
  assumes "lzf_inv ib s ts" "lzf_lit s < MAX_LIT" "lzf_ip s < length ib"
  shows "\<exists>ts. lzf_inv ib (lzf_put_literal ib s) ts \<and> lzf_lit (lzf_put_literal ib s) < MAX_LIT"
proof -
  let ?s = "s\<lparr>lzf_lit := lzf_lit s + 1, lzf_op := lzf_op s @ [ib ! lzf_ip s], lzf_ip := lzf_ip s + 1\<rparr>"
  obtain x run where s: "lzf_op s = concat (map tok_bytes ts) @ x # run" "length run = lzf_lit s"
    "run = take (lzf_lit s) (drop (lzf_ip s - lzf_lit s) ib)" "lzf_lit s \<le> lzf_ip s"
    using assms(1) unfolding lzf_inv_def by blast
  have "run @ [ib ! lzf_ip s] = take (lzf_lit s + 1) (drop (lzf_ip s - lzf_lit s) ib)"
    using assms(3) s(3,4) by (simp add: take_Suc_conv_app_nth)
  then have inv: "lzf_inv ib ?s ts"
    using assms s unfolding lzf_inv_def by (intro conjI exI [of _ x] exI [of _ "run @ [ib ! lzf_ip s]"]) simp_all
  show ?thesis
  proof (cases "lzf_lit s + 1 = MAX_LIT")
    case False
    then show ?thesis using inv assms(2) by (auto simp: lzf_put_literal_def)
  next
    case True
    obtain ts' where "lzf_op (lzf_stop_run ?s) = concat (map tok_bytes ts')" "toks_ok ib 0 ts' (lzf_ip ?s)"
      using lzf_stop_run_ok [OF inv] by blast
    moreover have "lzf_put_literal ib s = (lzf_stop_run ?s)\<lparr>lzf_lit := 0, lzf_op := lzf_op (lzf_stop_run ?s) @ [0]\<rparr>"
      using True by (simp add: lzf_put_literal_def Let_def)
    ultimately have "lzf_inv ib (lzf_put_literal ib s) ts'"
      using assms(3) by (simp add: lzf_inv_def)
    then show ?thesis using \<open>lzf_put_literal ib s = _\<close> by (auto simp: MAX_LIT_def)
  qed
qed

lemma lzf_inv_insert [simp]: "lzf_inv ib (lzf_insert v ib ip s) ts = lzf_inv ib s ts"
  and lzf_lit_insert [simp]: "lzf_lit (lzf_insert v ib ip s) = lzf_lit s"
  and lzf_op_insert [simp]: "lzf_op (lzf_insert v ib ip s) = lzf_op s"
  by (simp_all add: lzf_inv_def lzf_insert_def Let_def)

lemma lzf_insert_fold:
  "lzf_lit (fold (\<lambda>j. lzf_insert v ib (f j)) js s) = lzf_lit s \<and>
   lzf_op (fold (\<lambda>j. lzf_insert v ib (f j)) js s) = lzf_op s"
  by (induction js arbitrary: s) simp_all

lemma lzf_after_match_keeps [simp]:
  "lzf_lit (lzf_after_match v ib len s) = lzf_lit s" "lzf_op (lzf_after_match v ib len s) = lzf_op s"
  by (cases v, simp_all add: lzf_after_match_def Let_def lzf_insert_fold del: upt_Suc)+

lemma lzf_inv_after_match [simp]: "lzf_inv ib (lzf_after_match v ib len s) ts = lzf_inv ib s ts"
  by (simp add: lzf_inv_def)

lemma add_around_minus_2: "3 \<le> l \<Longrightarrow> i + 1 + (l - 2) + 1 = i + (l :: nat)"
  by simp

lemma lzf_put_ref_fields:
  "lzf_ip (t\<lparr>lzf_op := a, lzf_lit := b, lzf_ip := c\<rparr>) = c"
  "lzf_op (t\<lparr>lzf_op := a, lzf_lit := b, lzf_ip := c\<rparr>) = a"
  "lzf_lit (t\<lparr>lzf_op := a, lzf_lit := b, lzf_ip := c\<rparr>) = b"
  by simp_all

lemma lzf_inv_ref:
  assumes "lzf_op t = concat (map tok_bytes ts)" "toks_ok ib 0 ts ip" "tok_ok ib ip (Ref l off)"
  shows "lzf_inv ib (t\<lparr>lzf_op := lzf_op t @ tok_bytes (Ref l off) @ [0], lzf_lit := 0,
    lzf_ip := ip + 1 + (l - 2) + 1\<rparr>) (ts @ [Ref l off])"
proof -
  have l: "3 \<le> l" "ip + l \<le> length ib" using assms(3) by simp_all
  have "toks_ok ib 0 (ts @ [Ref l off]) (ip + l)" using assms(2,3) by (auto simp: parses_append)
  then show ?thesis
    using assms(1) l(2) unfolding lzf_inv_def add_around_minus_2 [OF l(1)] by (simp del: tok_bytes.simps)
qed

lemma lzf_put_match_ok:
  assumes "lzf_inv ib s ts" "lzf_ip s + 2 < in_len" "in_len \<le> length ib"
    and "off < MAX_OFF" "off < lzf_ip s" "\<And>k. k \<le> 2 \<Longrightarrow> ib ! (lzf_ip s + k) = ib ! (lzf_ip s - off - 1 + k)"
    and "lzf_put_match v ib in_len out_len off s = Some s'"
  shows "(\<exists>ts. lzf_inv ib s' ts) \<and> lzf_lit s' = 0 \<and> lzf_ip s' \<le> in_len \<and> length (lzf_op s') \<le> out_len"
proof -
  let ?ip = "lzf_ip s" and ?op = "length (lzf_op s)" and ?lit = "lzf_lit s"
  let ?len = "lzf_match_len ib (?ip - off - 1) ?ip (min (in_len - ?ip - 2) MAX_REF)"
  let ?t = "lzf_stop_run s"
  let ?u = "?t\<lparr>lzf_op := lzf_op ?t @ tok_bytes (Ref ?len off) @ [0], lzf_lit := 0, lzf_ip := ?ip + 1 + (?len - 2) + 1\<rparr>"
  have room: "\<not> (?op + 3 + 1 \<ge> out_len \<and> ?op - of_bool (?lit = 0) + 3 + 1 \<ge> out_len)"
    using assms(7) by (auto simp: lzf_put_match_def Let_def)
  have s': "s' = ?u \<or> s' = lzf_after_match v ib (?len - 2) ?u"
  proof -
    have "lzf_put_match v ib in_len out_len off s =
        (if in_len \<le> lzf_ip ?u + 2 then Some ?u else Some (lzf_after_match v ib (?len - 2) ?u))"
      unfolding lzf_put_match_def Let_def if_not_P [OF room] tok_bytes.simps by (rule refl)
    then show ?thesis unfolding assms(7) by (metis option.inject)
  qed
  have "\<And>k. k \<le> 2 \<Longrightarrow> ib ! (?ip - off - 1 + k) = ib ! (?ip + k)" using assms(6) by simp
  from lzf_match_len_ok [OF this assms(2)]
  have len: "3 \<le> ?len" "?len \<le> MAX_REF" "?ip + ?len \<le> in_len" "\<And>k. k < ?len \<Longrightarrow> ib ! (?ip - off - 1 + k) = ib ! (?ip + k)"
    by simp_all
  obtain ts' where ts': "lzf_op ?t = concat (map tok_bytes ts')" "toks_ok ib 0 ts' ?ip"
    using lzf_stop_run_ok [OF assms(1)] by blast
  have "?ip - off - 1 + k = ?ip + k - (off + 1)" for k using assms(5) by simp
  then have "tok_ok ib ?ip (Ref ?len off)" using len assms(3-5) by simp
  then have inv: "lzf_inv ib ?u (ts' @ [Ref ?len off])"
    by (intro lzf_inv_ref [OF ts'(1,2)])
  have ip: "lzf_ip ?u \<le> in_len"
    unfolding lzf_put_ref_fields add_around_minus_2 [OF len(1)] by (rule len(3))
  have code: "length (tok_bytes (Ref l off) @ [0]) \<le> 4" for l by simp
  have "length (lzf_op ?t) \<le> ?op - of_bool (?lit = 0)"
    by (simp add: lzf_stop_run_def Let_def)
  then have "length (lzf_op ?t @ tok_bytes (Ref ?len off) @ [0]) \<le> out_len"
    using room code [of ?len] by (simp only: length_append not_le de_Morgan_conj) linarith
  then have op: "length (lzf_op ?u) \<le> out_len" unfolding lzf_put_ref_fields .
  have lit: "lzf_lit ?u = 0" by (rule lzf_put_ref_fields)
  from inv ip op lit have u: "(\<exists>ts. lzf_inv ib ?u ts) \<and> lzf_lit ?u = 0 \<and> lzf_ip ?u \<le> in_len \<and> length (lzf_op ?u) \<le> out_len"
    by blast
  from s' show ?thesis
  proof
    assume "s' = ?u"
    with u show ?thesis by (simp only:)
  next
    assume "s' = lzf_after_match v ib (?len - 2) ?u"
    with u show ?thesis by (simp only: lzf_after_match_keeps lzf_after_match_ip lzf_inv_after_match)
  qed
qed

text \<open>The offset read from the table is used only if it is in front of \<open>ip\<close>, whatever the table holds.\<close>

lemma lzf_offset:
  assumes "nat ((int ip - int ref - 1) mod 2 ^ 64) < MAX_OFF" "ip < 2 ^ 32" "ref < 2 ^ 32"
  shows "ref < ip \<and> nat ((int ip - int ref - 1) mod 2 ^ 64) = ip - ref - 1"
proof -
  have "ref < ip"
  proof (rule ccontr)
    assume "\<not> ref < ip"
    then have "(int ip - int ref - 1) mod 2 ^ 64 = int ip - int ref - 1 + 2 ^ 64"
      using assms(3) by (intro mod_pos_pos_trivial [THEN trans [OF mod_add_self2 [symmetric]]]) simp_all
    then show False using assms(1) \<open>\<not> ref < ip\<close> assms(3) by (simp add: MAX_OFF_def)
  qed
  then have "(int ip - int ref - 1) mod 2 ^ 64 = int ip - int ref - 1"
    using assms(2) by (intro mod_pos_pos_trivial) simp_all
  then show ?thesis using \<open>ref < ip\<close> by simp
qed

lemma lzf_step_ok:
  assumes "lzf_inv ib s ts" "lzf_lit s < MAX_LIT" "lzf_ip s + 2 < in_len" "in_len \<le> length ib" "in_len < 2 ^ 32"
    and "lzf_step v ib in_len out_len s = Some s'"
  shows "(\<exists>ts. lzf_inv ib s' ts) \<and> lzf_lit s' < MAX_LIT \<and> lzf_ip s' \<le> in_len"
proof -
  let ?ip = "lzf_ip s"
  let ?ref = "unat (lzf_htab s (IDX v (NEXT (lzf_hval s) ib ?ip)))"
  let ?s = "lzf_insert v ib ?ip s" and ?off = "nat ((int ?ip - int ?ref - 1) mod 2 ^ 64)"
  have s: "lzf_inv ib ?s ts" "lzf_lit ?s < MAX_LIT" "lzf_ip ?s = ?ip" using assms(1,2) by simp_all
  show ?thesis
  proof (cases "?off < MAX_OFF \<and> 0 < ?ref \<and> ib ! (?ref + 2) = ib ! (?ip + 2) \<and>
      ib ! ?ref = ib ! ?ip \<and> ib ! (?ref + 1) = ib ! (?ip + 1)")
    case True
    have "?ref < 2 ^ 32" using unsigned_less [of "lzf_htab s (IDX v (NEXT (lzf_hval s) ib ?ip))"] by simp
    then have off: "?ref < ?ip" "?off = ?ip - ?ref - 1"
      using lzf_offset [of ?ip ?ref] True assms(3,5) by simp_all
    have step: "lzf_put_match v ib in_len out_len ?off ?s = Some s'"
      using assms(6) unfolding lzf_step_def Let_def if_P [OF True] .
    have ref: "?ip - ?off - 1 = ?ref" using off by simp
    have same: "ib ! (lzf_ip ?s + k) = ib ! (lzf_ip ?s - ?off - 1 + k)" if "k \<le> 2" for k
      using that True unfolding s(3) ref by (auto simp: le_Suc_eq numeral_2_eq_2)
    have o: "?off < MAX_OFF" "?off < lzf_ip ?s" "lzf_ip ?s + 2 < in_len" using True off assms(3) by simp_all
    from lzf_put_match_ok [OF s(1) o(3) assms(4) o(1,2) same step] show ?thesis by (simp add: MAX_LIT_def)
  next
    case False
    have "\<not> length (lzf_op ?s) \<ge> out_len" and s': "s' = lzf_put_literal ib ?s"
      using assms(6) unfolding lzf_step_def Let_def if_not_P [OF False] by (simp_all split: if_splits)
    then show ?thesis using lzf_put_literal_ok [OF s(1,2)] s(3) assms(3,4) by simp
  qed
qed

lemma lzf_compress_loop_ok:
  assumes "lzf_compress_loop v ib in_len out_len s = Some s'"
    and "lzf_inv ib s ts" "lzf_lit s < MAX_LIT" "in_len \<le> length ib" "in_len < 2 ^ 32" "lzf_ip s \<le> in_len"
  shows "(\<exists>ts. lzf_inv ib s' ts) \<and> lzf_lit s' < MAX_LIT \<and> lzf_ip s' \<le> in_len \<and> in_len \<le> lzf_ip s' + 2"
  using assms
proof (induction v ib in_len out_len s arbitrary: ts rule: lzf_compress_loop.induct)
  case (1 v ib in_len out_len s)
  show ?case
  proof (cases "lzf_ip s + 2 < in_len")
    case False
    then show ?thesis using 1(2-) by (auto simp: lzf_compress_loop.simps [of _ _ _ _ s])
  next
    case True
    then obtain t where t: "lzf_step v ib in_len out_len s = Some t" "lzf_compress_loop v ib in_len out_len t = Some s'"
      using 1(2) by (auto simp: lzf_compress_loop.simps [of _ _ _ _ s] split: option.splits)
    then show ?thesis
      using 1(1) [OF True t] lzf_step_ok [OF 1(3,4) True 1(5,6) t(1)] 1(5,6) by blast
  qed
qed

lemma lzf_literals_ok:
  assumes "lzf_inv ib s ts" "lzf_lit s < MAX_LIT" "lzf_ip s + n \<le> length ib"
  shows "\<exists>ts. lzf_inv ib (fold (\<lambda>_. lzf_put_literal ib) [k..<k + n] s) ts \<and>
    lzf_ip (fold (\<lambda>_. lzf_put_literal ib) [k..<k + n] s) = lzf_ip s + n"
  using assms
proof (induction n arbitrary: s ts k)
  case (Suc n)
  obtain ts' where s: "lzf_inv ib (lzf_put_literal ib s) ts'" "lzf_lit (lzf_put_literal ib s) < MAX_LIT"
    using lzf_put_literal_ok [OF Suc.prems(1,2)] Suc.prems(3) by auto
  have "[k..<k + Suc n] = k # [Suc k..<Suc k + n]" by (simp add: upt_conv_Cons)
  then show ?case using Suc.IH [OF s, of "Suc k"] Suc.prems(3) by simp
qed auto

text \<open>At most two bytes are left, and at most one run ends with them.\<close>

lemma lzf_put_literal_op:
  "length (lzf_op (lzf_put_literal ib s)) \<le> length (lzf_op s) + 1 + of_bool (lzf_lit s + 1 = MAX_LIT)"
  "lzf_lit s + 1 = MAX_LIT \<Longrightarrow> lzf_lit (lzf_put_literal ib s) = 0"
  by (simp_all add: lzf_put_literal_def lzf_stop_run_def Let_def)

lemma lzf_finish_ok:
  assumes "lzf_inv ib s ts" "lzf_lit s < MAX_LIT" "lzf_ip s \<le> in_len" "in_len \<le> lzf_ip s + 2" "in_len \<le> length ib"
    and "lzf_finish ib in_len out_len s = Some out"
  shows "length out \<le> out_len \<and> (\<exists>ts. out = concat (map tok_bytes ts) \<and> toks_ok ib 0 ts in_len)"
proof -
  let ?s = "fold (\<lambda>_. lzf_put_literal ib) [lzf_ip s..<in_len] s"
  have room: "length (lzf_op s) + 3 \<le> out_len" and out: "out = lzf_op (lzf_stop_run ?s)"
    using assms(6) by (auto simp: lzf_finish_def split: if_splits)
  obtain ts' where "lzf_inv ib ?s ts'" "lzf_ip ?s = in_len"
    using lzf_literals_ok [OF assms(1,2), of "in_len - lzf_ip s" "lzf_ip s"] assms(3,5) by auto
  then have ts: "\<exists>ts. out = concat (map tok_bytes ts) \<and> toks_ok ib 0 ts in_len"
    using lzf_stop_run_ok [of ib ?s ts'] out by auto
  have "in_len = lzf_ip s \<or> in_len = Suc (lzf_ip s) \<or> in_len = Suc (Suc (lzf_ip s))" using assms(3,4) by auto
  then have "length (lzf_op ?s) \<le> length (lzf_op s) + 3"
    using lzf_put_literal_op [where ib = ib and s = s]
      lzf_put_literal_op [where ib = ib and s = "lzf_put_literal ib s"]
    by (cases "lzf_lit s = 31") (auto simp: MAX_LIT_def upt_rec [of "lzf_ip s"] of_bool_def split: if_splits)
  moreover have "length out \<le> length (lzf_op ?s)" unfolding out by (simp add: lzf_stop_run_def Let_def)
  ultimately show ?thesis using room ts by simp
qed

lemma lzf_compress_ok:
  assumes "lzf_compress_with v htab ib in_len out_len = Some out" "in_len < 2 ^ 32" "out \<noteq> []"
  shows "0 < in_len \<and> in_len \<le> length ib \<and> length out \<le> out_len \<and>
    (\<exists>ts. out = concat (map tok_bytes ts) \<and> toks_ok ib 0 ts in_len)"
proof -
  let ?s = "\<lparr>lzf_ip = 0, lzf_op = [0], lzf_lit = 0, lzf_hval = FRST ib 0, lzf_htab = htab\<rparr>"
  obtain s where s: "0 < in_len" "in_len \<le> length ib" "lzf_compress_loop v ib in_len out_len ?s = Some s"
    "lzf_finish ib in_len out_len s = Some out"
    using assms(1,3) by (auto simp: lzf_compress_with_def split: if_splits option.splits)
  have "lzf_inv ib ?s []" by (simp add: lzf_inv_def)
  from lzf_compress_loop_ok [OF s(3) this _ s(2) assms(2)]
  obtain ts where "lzf_inv ib s ts" "lzf_lit s < MAX_LIT" "lzf_ip s \<le> in_len" "in_len \<le> lzf_ip s + 2"
    by (auto simp: MAX_LIT_def)
  from lzf_finish_ok [OF this s(2,4)] show ?thesis using s(1,2) by blast
qed

subsection \<open>The decoder reads tokens\<close>

lemma lzf_copy_ok:
  assumes "take dst d = take dst ib" "cpy < dst" "dst + (len + 2) \<le> length d" "dst + (len + 2) \<le> length ib"
    and "\<And>k. k < len + 2 \<Longrightarrow> ib ! (dst + k) = ib ! (cpy + k)"
  shows "take (dst + (len + 2)) (lzf_copy len d dst cpy) = take (dst + (len + 2)) ib \<and>
    length (lzf_copy len d dst cpy) = length d"
proof (cases "9 < len \<and> cpy + (len + 2) \<le> dst")
  case True
  then show ?thesis
    unfolding lzf_copy_def if_P [OF True] using assms by (intro copy_block_ok) simp_all
next
  case False
  then show ?thesis
    unfolding lzf_copy_def if_not_P [OF False] using assms by (intro copy_forward_ok) simp_all
qed

text \<open>What the decoder makes of a token.\<close>

fun tok_write :: "lzf_tok \<Rightarrow> byte list \<Rightarrow> nat \<Rightarrow> byte list" where
  "tok_write (Run bs) d op = take op d @ bs @ drop (op + length bs) d"
| "tok_write (Ref len off) d op = lzf_copy (len - 2) d op (op - (off + 1))"

lemma tok_write_ok:
  assumes "tok_ok ib op t" "take op d = take op ib" "op + tok_len t \<le> length d"
  shows "take (op + tok_len t) (tok_write t d op) = take (op + tok_len t) ib \<and> length (tok_write t d op) = length d"
proof (cases t)
  case (Run bs)
  then have "bs = take (length bs) (drop op ib)" "op + length bs \<le> length ib" using assms(1) by auto
  then show ?thesis using Run assms(2,3) by (simp add: take_add)
next
  case (Ref len off)
  then have l: "3 \<le> len" "off < op" "op + len \<le> length ib" "\<And>k. k < len \<Longrightarrow> ib ! (op + k) = ib ! (op - (off + 1) + k)"
    using assms(1) by auto
  have "len - 2 + 2 = len" using l(1) by simp
  then show ?thesis
    using lzf_copy_ok [OF assms(2), of "op - (off + 1)" "len - 2"] l assms(3) Ref by simp
qed

lemma reference_byte:
  assumes "off < MAX_OFF" "l < 8"
  shows "unat (to_byte (drop_bit 8 off + push_bit 5 l)) = 32 * l + drop_bit 8 off" "drop_bit 8 off < 32"
proof -
  show h: "drop_bit 8 off < 32" using assms(1) by (simp add: drop_bit_eq_div MAX_OFF_def)
  have "drop_bit 8 off + push_bit 5 l = 32 * l + drop_bit 8 off" by (simp add: push_bit_eq_mult)
  moreover have "32 * l + drop_bit 8 off < 256" using h assms(2) by simp
  ultimately show "unat (to_byte (drop_bit 8 off + push_bit 5 l)) = 32 * l + drop_bit 8 off"
    by (simp only: unat_to_byte)
qed

lemma lzf_item_run:
  assumes "bs \<noteq> []" "length bs \<le> MAX_LIT" "op + length bs \<le> out_len" "out_len \<le> length d"
  shows "lzf_item out_len (tok_bytes (Run bs) @ r) d op =
    Go r (length (tok_bytes (Run bs))) (tok_write (Run bs) d op) (op + length bs)"
proof -
  have "(word_of_nat (length bs) - 1 :: byte) = to_byte (length bs - 1)"
    using assms(1) by (cases bs) simp_all
  then have "unat (word_of_nat (length bs) - 1 :: byte) = length bs - 1"
    using assms(2) by (simp add: MAX_LIT_def del: of_nat_diff)
  then show ?thesis
    using assms by (cases "length bs") (simp_all add: lzf_item_def MAX_LIT_def Let_def)
qed

lemma lzf_item_ref:
  assumes "3 \<le> len" "len \<le> MAX_REF" "off < MAX_OFF" "off < op" "op + len \<le> out_len" "out_len \<le> length d"
  shows "lzf_item out_len (tok_bytes (Ref len off) @ r) d op =
    Go r (length (tok_bytes (Ref len off))) (tok_write (Ref len off) d op) (op + len)"
proof -
  let ?h = "drop_bit 8 off"
  have and31: "x AND 31 = x mod 32" for x :: nat
    using take_bit_eq_mask [of 5 x] by (simp add: take_bit_eq_mod mask_eq_exp_minus_1)
  have lo: "unat (to_byte off) = off mod 256" by (simp add: unat_of_nat)
  have dist: "push_bit 8 ?h + 1 + off mod 256 = off + 1"
    by (simp add: push_bit_eq_mult drop_bit_eq_div)
  obtain l where len: "len = l + 2" "0 < l"
    using assms(1) that [of "len - 2"] by simp
  show ?thesis
  proof (cases "l < 7")
    case True
    note b = reference_byte [OF assms(3), of l]
    have "32 * l + ?h \<ge> 32" "(32 * l + ?h) div 32 = l" "(32 * l + ?h) mod 32 = ?h"
      using b(2) True len(2) by simp_all
    then show ?thesis
      using True b(1) len assms(4-6) lo dist
      by (simp add: lzf_item_def Let_def drop_bit_eq_div [of 5] and31)
  next
    case False
    note b = reference_byte [OF assms(3), of 7]
    have "(224 + h) div 32 = 7 \<and> (224 + h) mod 32 = h" if "h < 32" for h :: nat
    proof -
      have "224 + h = h + 7 * 32" by simp
      then show ?thesis using that by (simp only: div_mult_self1 mod_mult_self1) simp
    qed
    from this [OF b(2)] have "(224 + ?h) div 32 = 7" "(224 + ?h) mod 32 = ?h" by simp_all
    moreover have "unat (to_byte (l - 7)) = l - 7" using assms(2) len by (simp add: MAX_REF_def)
    ultimately show ?thesis
      using False b(1) len assms(4-6) lo dist
      by (simp add: lzf_item_def Let_def drop_bit_eq_div [of 5] and31)
  qed
qed

lemma lzf_item_ok:
  assumes "tok_ok ib op t" "op + tok_len t \<le> out_len" "out_len \<le> length d"
  shows "lzf_item out_len (tok_bytes t @ r) d op = Go r (length (tok_bytes t)) (tok_write t d op) (op + tok_len t)"
  using assms lzf_item_run [of _ op out_len d r] lzf_item_ref [of _ _ op out_len d r]
  by (cases t) (auto simp del: tok_bytes.simps tok_write.simps)

lemma lzf_decode_toks:
  assumes "toks_ok ib op ts j" "ts \<noteq> []" "j \<le> out_len" "out_len \<le> length d" "take op d = take op ib"
  shows "\<exists>d'. lzf_decompress_loop out_len (concat (map tok_bytes ts) @ r) (length (concat (map tok_bytes ts))) d op =
      Some (d', j) \<and> length d' = length d \<and> take j d' = take j ib"
  using assms
proof (induction ts arbitrary: op d)
  case (Cons t ts)
  let ?op = "op + tok_len t" and ?d = "tok_write t d op"
  have t: "tok_ok ib op t" "toks_ok ib ?op ts j" using Cons.prems(1) by simp_all
  then have "?op \<le> j" using parses_le by blast
  then have le: "?op \<le> out_len" "?op \<le> length d" using Cons.prems(3,4) by simp_all
  have d: "take ?op ?d = take ?op ib" "length ?d = length d"
    using tok_write_ok [OF t(1) Cons.prems(5) le(2)] by simp_all
  have item: "lzf_item out_len (tok_bytes t @ r) d op = Go r (length (tok_bytes t)) ?d ?op" for r
    by (rule lzf_item_ok [OF t(1) le(1) Cons.prems(4)])
  show ?case
  proof (cases "ts = []")
    case True
    then show ?thesis using item d t(2) by (subst lzf_decompress_loop.simps) simp
  next
    case False
    then obtain t' ts' where "ts = t' # ts'" by (cases ts) auto
    then have "0 < length (concat (map tok_bytes ts))" by (cases t') simp_all
    then show ?thesis
      using item Cons.IH [OF t(2) False Cons.prems(3), of ?d] Cons.prems(4) d
      by (subst lzf_decompress_loop.simps) simp
  qed
qed simp

lemma lzf_compress_decompress:
  assumes "lzf_compress_with v htab ib in_len out_len = Some out" "in_len < 2 ^ 32" "out \<noteq> []" "in_len \<le> length ob"
  shows "\<exists>ob'. lzf_decompress (out @ r) (length out) ob in_len = Some (ob', in_len) \<and>
    length ob' = length ob \<and> take in_len ob' = take in_len ib"
proof -
  obtain ts where ts: "out = concat (map tok_bytes ts)" "toks_ok ib 0 ts in_len"
    using lzf_compress_ok [OF assms(1-3)] by blast
  then have "ts \<noteq> []" using assms(3) by auto
  from lzf_decode_toks [OF ts(2) this order_refl assms(4), of r] show ?thesis
    by (simp add: lzf_decompress_def ts(1))
qed

lemma lzf_compress_total:
  "in_len \<le> length ib \<Longrightarrow> 2 \<le> length ib \<Longrightarrow> \<exists>out. lzf_compress_with v htab ib in_len out_len = Some out"
  by (simp add: lzf_compress_with_def split: option.split)



end
