(* ===== verification/Zfs_Fletcher.thy ===== *)
theory Zfs_Fletcher
  imports Complex_Main Machine_Words
begin

text \<open>
  The Fletcher checksums of ZFS (\<open>codecs/zfs/zfs_fletcher.c\<close>) and the adapters that plug them into
  the harness. A buffer is the memory behind the pointer, up to the end of the block; \<open>None\<close> is a
  read behind it. The comment in front of the code states the closed form of the sums and what
  changes they notice; both are theorems here.
\<close>

subsection \<open>Byte order\<close>

definition BSWAP_32 :: "u32 \<Rightarrow> u32" where
  "BSWAP_32 x = push_bit 24 x OR (push_bit 8 x AND 0xff0000) OR (drop_bit 8 x AND 0xff00) OR drop_bit 24 x"

definition BSWAP_64 :: "u64 \<Rightarrow> u64" where
  "BSWAP_64 x =
    push_bit 56 x OR (push_bit 40 x AND 0xff000000000000) OR (push_bit 24 x AND 0xff0000000000) OR
    (push_bit 8 x AND 0xff00000000) OR (drop_bit 8 x AND 0xff000000) OR (drop_bit 24 x AND 0xff0000) OR
    (drop_bit 40 x AND 0xff00) OR drop_bit 56 x"

subsection \<open>The loops\<close>

definition fletcher_4_step :: "u32 \<Rightarrow> u64 \<times> u64 \<times> u64 \<times> u64 \<Rightarrow> u64 \<times> u64 \<times> u64 \<times> u64" where
  "fletcher_4_step f = (\<lambda>(a, b, c, d).
    let a = a + ucast f; b = b + a; c = c + b; d = d + c in (a, b, c, d))"

definition fletcher_4_native :: "byte list \<Rightarrow> nat \<Rightarrow> (u64 \<times> u64 \<times> u64 \<times> u64) option" where
  "fletcher_4_native buf sz =
    (let n = sz div 4
     in if length buf < 4 * n then None
        else Some (fold fletcher_4_step (le_words 4 buf n) (0, 0, 0, 0)))"

definition fletcher_4_byteswap :: "byte list \<Rightarrow> nat \<Rightarrow> (u64 \<times> u64 \<times> u64 \<times> u64) option" where
  "fletcher_4_byteswap buf sz =
    (let n = sz div 4
     in if length buf < 4 * n then None
        else Some (fold (\<lambda>f. fletcher_4_step (BSWAP_32 f)) (le_words 4 buf n) (0, 0, 0, 0)))"

definition fletcher_4_incremental_native ::
  "byte list \<Rightarrow> nat \<Rightarrow> u64 \<times> u64 \<times> u64 \<times> u64 \<Rightarrow> (u64 \<times> u64 \<times> u64 \<times> u64) option" where
  "fletcher_4_incremental_native buf sz zcp =
    (let n = sz div 4
     in if length buf < 4 * n then None
        else Some (fold fletcher_4_step (le_words 4 buf n) zcp))"

definition fletcher_4_incremental_byteswap ::
  "byte list \<Rightarrow> nat \<Rightarrow> u64 \<times> u64 \<times> u64 \<times> u64 \<Rightarrow> (u64 \<times> u64 \<times> u64 \<times> u64) option" where
  "fletcher_4_incremental_byteswap buf sz zcp =
    (let n = sz div 4
     in if length buf < 4 * n then None
        else Some (fold (\<lambda>f. fletcher_4_step (BSWAP_32 f)) (le_words 4 buf n) zcp))"

text \<open>\<open>ip += 2\<close>: with an odd number of words the last turn reads one behind \<open>ipend\<close>.\<close>

definition fletcher_2_step :: "u64 \<Rightarrow> u64 \<Rightarrow> u64 \<times> u64 \<times> u64 \<times> u64 \<Rightarrow> u64 \<times> u64 \<times> u64 \<times> u64" where
  "fletcher_2_step x y = (\<lambda>(a0, b0, a1, b1).
    let a0 = a0 + x; a1 = a1 + y; b0 = b0 + a0; b1 = b1 + a1 in (a0, b0, a1, b1))"

definition fletcher_2_native :: "byte list \<Rightarrow> nat \<Rightarrow> (u64 \<times> u64 \<times> u64 \<times> u64) option" where
  "fletcher_2_native buf sz =
    (let turns = (sz div 8 + 1) div 2; ip = le_words 8 buf (2 * turns)
     in if length buf < 8 * (2 * turns) then None
        else case fold (\<lambda>i. fletcher_2_step (ip ! (2 * i)) (ip ! (2 * i + 1))) [0..<turns] (0, 0, 0, 0) of
               (a0, b0, a1, b1) \<Rightarrow> Some (a0, a1, b0, b1))"

definition fletcher_2_byteswap :: "byte list \<Rightarrow> nat \<Rightarrow> (u64 \<times> u64 \<times> u64 \<times> u64) option" where
  "fletcher_2_byteswap buf sz =
    (let turns = (sz div 8 + 1) div 2; ip = le_words 8 buf (2 * turns)
     in if length buf < 8 * (2 * turns) then None
        else case fold (\<lambda>i. fletcher_2_step (BSWAP_64 (ip ! (2 * i))) (BSWAP_64 (ip ! (2 * i + 1))))
                    [0..<turns] (0, 0, 0, 0) of
               (a0, b0, a1, b1) \<Rightarrow> Some (a0, a1, b0, b1))"

subsection \<open>The byte-swapping macros\<close>

text \<open>The masks select one byte, so that each macro swaps the bytes of its word.\<close>

lemma bit_byte_mask: "bit (255 * 2 ^ k :: int) i \<longleftrightarrow> k \<le> i \<and> i < k + 8"
proof -
  have "(255 * 2 ^ k :: int) = push_bit k (mask 8)" by (simp add: mask_eq_exp_minus_1 push_bit_eq_mult)
  then show ?thesis by (simp only: bit_push_bit_iff bit_mask_iff) auto
qed

lemma bit_byte_masks:
  "bit (0xff :: int) i \<longleftrightarrow> i < 8"
  "bit (0xff00 :: int) i \<longleftrightarrow> 8 \<le> i \<and> i < 16"
  "bit (0xff0000 :: int) i \<longleftrightarrow> 16 \<le> i \<and> i < 24"
  "bit (0xff000000 :: int) i \<longleftrightarrow> 24 \<le> i \<and> i < 32"
  "bit (0xff00000000 :: int) i \<longleftrightarrow> 32 \<le> i \<and> i < 40"
  "bit (0xff0000000000 :: int) i \<longleftrightarrow> 40 \<le> i \<and> i < 48"
  "bit (0xff000000000000 :: int) i \<longleftrightarrow> 48 \<le> i \<and> i < 56"
  using bit_byte_mask [of 0 i] bit_byte_mask [of 8 i] bit_byte_mask [of 16 i] bit_byte_mask [of 24 i]
    bit_byte_mask [of 32 i] bit_byte_mask [of 40 i] bit_byte_mask [of 48 i]
  by simp_all

lemma bit_outside: "LENGTH('a) \<le> n \<Longrightarrow> \<not> bit (x :: 'a :: len word) n"
  using bit_imp_le_length [of x n] by auto

lemma bit_BSWAP_32:
  assumes "k < 4" "j < 8"
  shows "bit (BSWAP_32 x) (8 * k + j) = bit x (8 * (3 - k) + j)"
proof -
  have "k \<in> {0, 1, 2, 3}" using assms by auto
  then show ?thesis
    using assms(2)
    by (elim insertE emptyE) (simp_all add: BSWAP_32_def bit_simps bit_byte_masks bit_outside)
qed

lemma bit_BSWAP_64:
  assumes "k < 8" "j < 8"
  shows "bit (BSWAP_64 x) (8 * k + j) = bit x (8 * (7 - k) + j)"
proof -
  have "k \<in> {0, 1, 2, 3, 4, 5, 6, 7}" using assms by auto
  then show ?thesis
    using assms(2)
    by (elim insertE emptyE) (simp_all add: BSWAP_64_def bit_simps bit_byte_masks bit_outside)
qed

text \<open>Both macros reverse the bytes.\<close>

lemma bit_byteswap:
  assumes "LENGTH('a) = 8 * n" "k < n" "j < 8"
  shows "bit (byteswap n (x :: 'a :: len word)) (8 * k + j) = bit x (8 * (n - 1 - k) + j)"
proof -
  have "(8 * k + j) div 8 = k" "(8 * k + j) mod 8 = j" using assms(3) by simp_all
  moreover have "8 * k + j < 8 * n" "8 * (n - 1 - k) + j < 8 * n"
    using assms(2,3) by linarith+
  ultimately show ?thesis
    using assms by (simp add: byteswap_def bit_le_load rev_nth le_store_def bit_simps)
qed

lemma word_eq_byteswapI:
  assumes "LENGTH('a) = 8 * n"
    and "\<And>k j. k < n \<Longrightarrow> j < 8 \<Longrightarrow> bit (y :: 'a :: len word) (8 * k + j) = bit x (8 * (n - 1 - k) + j)"
  shows "y = byteswap n x"
proof (rule bit_word_eqI)
  fix m assume "m < LENGTH('a)"
  then have "m div 8 < n" "m mod 8 < 8" "m = 8 * (m div 8) + m mod 8" using assms(1) by auto
  then show "bit y m = bit (byteswap n x) m"
    using assms(2) bit_byteswap [OF assms(1)] by metis
qed

lemma BSWAP_32_byteswap: "BSWAP_32 x = byteswap 4 x"
  by (rule word_eq_byteswapI) (use bit_BSWAP_32 in auto)

lemma BSWAP_64_byteswap: "BSWAP_64 x = byteswap 8 x"
  by (rule word_eq_byteswapI) (use bit_BSWAP_64 in auto)

subsection \<open>The incremental and the byte-swapping variants\<close>

lemma fletcher_4_variants:
  "fletcher_4_native buf sz = fletcher_4_incremental_native buf sz (0, 0, 0, 0)"
  "fletcher_4_byteswap buf sz = fletcher_4_incremental_byteswap buf sz (0, 0, 0, 0)"
  by (simp_all add: fletcher_4_native_def fletcher_4_incremental_native_def fletcher_4_byteswap_def
      fletcher_4_incremental_byteswap_def)

lemma fletcher_4_incremental_append:
  assumes "length xs = 4 * k"
  shows "fletcher_4_incremental_native (xs @ ys) (4 * k + n) zcp =
      Option.bind (fletcher_4_incremental_native xs (4 * k) zcp) (fletcher_4_incremental_native ys n)"
    and "fletcher_4_incremental_byteswap (xs @ ys) (4 * k + n) zcp =
      Option.bind (fletcher_4_incremental_byteswap xs (4 * k) zcp) (fletcher_4_incremental_byteswap ys n)"
  using le_words_append [OF assms, of ys "n div 4", where 'a = 32] assms
  by (simp_all add: fletcher_4_incremental_native_def fletcher_4_incremental_byteswap_def)

text \<open>The buffer with the bytes of each of its first \<open>n\<close> groups of \<open>w\<close> in the other order.\<close>

definition swap_groups :: "nat \<Rightarrow> byte list \<Rightarrow> nat \<Rightarrow> byte list" where
  "swap_groups w buf n = concat (map (\<lambda>i. rev (take w (drop (w * i) buf))) [0..<n])"

lemma swap_groups_Suc: "swap_groups w buf (Suc n) = swap_groups w buf n @ rev (take w (drop (w * n) buf))"
  by (simp add: swap_groups_def)

lemma length_swap_groups: "w * n \<le> length buf \<Longrightarrow> length (swap_groups w buf n) = w * n"
  by (induction n) (simp_all add: swap_groups_def)

lemma le_words_swap_groups:
  assumes "w * n \<le> length buf" "8 * w = LENGTH('a)"
  shows "le_words w (swap_groups w buf n) n = map (byteswap w) (le_words w buf n :: 'a :: len word list)"
  using assms(1)
proof (induction n)
  case (Suc n)
  have len: "length (take w (drop (w * n) buf)) = w" using Suc.prems by simp
  have "le_words w xs 1 = [le_load xs :: 'a word]" if "length xs = w" for xs
    using that by (simp add: le_words_def)
  from this [of "rev (take w (drop (w * n) buf))"]
  have "le_words w (swap_groups w buf (Suc n)) (n + 1) =
      le_words w (swap_groups w buf n) n @ [le_load (rev (take w (drop (w * n) buf))) :: 'a word]"
    using le_words_append [OF length_swap_groups, of w n buf "rev (take w (drop (w * n) buf))" 1] Suc.prems len
    unfolding swap_groups_Suc by (metis length_rev add_leD1 mult_Suc_right add.commute)
  also have "le_load (rev (take w (drop (w * n) buf))) = byteswap w (le_load (take w (drop (w * n) buf)) :: 'a word)"
    using byteswap_load [of "take w (drop (w * n) buf)", where 'a = 'a] assms(2) len by metis
  finally show ?case using Suc by (simp add: le_words_def [of w buf])
qed (simp add: le_words_def)

lemma fold_pairs_map:
  "2 * n \<le> length ws \<Longrightarrow>
   fold (\<lambda>i. g (map h ws ! (2 * i)) (map h ws ! (2 * i + 1))) [0..<n] s =
   fold (\<lambda>i. g (h (ws ! (2 * i))) (h (ws ! (2 * i + 1)))) [0..<n] s"
  by (rule fold_cong) auto

lemma fletcher_4_byteswap_native:
  assumes "4 * (sz div 4) \<le> length buf"
  shows "fletcher_4_byteswap buf sz = fletcher_4_native (swap_groups 4 buf (sz div 4)) sz"
proof -
  have "le_words 4 (swap_groups 4 buf (sz div 4)) (sz div 4) = map BSWAP_32 (le_words 4 buf (sz div 4))"
    using le_words_swap_groups [OF assms, where 'a = 32] by (simp add: BSWAP_32_byteswap [abs_def])
  then show ?thesis
    using assms
    by (simp add: fletcher_4_byteswap_def fletcher_4_native_def Let_def length_swap_groups fold_map comp_def)
qed

lemma fletcher_2_byteswap_native:
  assumes "16 * ((sz div 8 + 1) div 2) \<le> length buf"
  shows "fletcher_2_byteswap buf sz = fletcher_2_native (swap_groups 8 buf (2 * ((sz div 8 + 1) div 2))) sz"
proof -
  let ?n = "2 * ((sz div 8 + 1) div 2)"
  have "le_words 8 (swap_groups 8 buf ?n) ?n = map BSWAP_64 (le_words 8 buf ?n)"
    using le_words_swap_groups [of 8 ?n buf, where 'a = 64] assms by (simp add: BSWAP_64_byteswap [abs_def])
  then show ?thesis
    using assms fold_pairs_map [of "(sz div 8 + 1) div 2" "le_words 8 buf ?n" fletcher_2_step BSWAP_64]
    by (simp add: fletcher_2_byteswap_def fletcher_2_native_def Let_def length_swap_groups)
qed

text \<open>
  C34: a fletcher-4 checksum can be computed in pieces, and the byte-swapping function computes what
  the native one computes of the data in the other byte order.
\<close>

theorem fletcher_4_pieces:
  assumes "length xs = 4 * k"
  shows "fletcher_4_native (xs @ ys) (4 * k + n) =
      Option.bind (fletcher_4_native xs (4 * k)) (fletcher_4_incremental_native ys n) \<and>
    fletcher_4_byteswap (xs @ ys) (4 * k + n) =
      Option.bind (fletcher_4_byteswap xs (4 * k)) (fletcher_4_incremental_byteswap ys n) \<and>
    fletcher_4_byteswap xs (4 * k) = fletcher_4_native (swap_groups 4 xs k) (4 * k)"
  using fletcher_4_incremental_append [OF assms] fletcher_4_byteswap_native [of "4 * k" xs] assms
  by (simp add: fletcher_4_variants)

subsection \<open>The closed form\<close>

lemma fold_step_4:
  "fold fletcher_4_step fs (a, b, c, d) = (a', b', c', d') \<Longrightarrow>
   fold fletcher_4_step (fs @ [f]) (a, b, c, d) =
     (a' + ucast f, b' + (a' + ucast f), c' + (b' + (a' + ucast f)), d' + (c' + (b' + (a' + ucast f))))"
  by (simp add: fletcher_4_step_def Let_def)

text \<open>The sum of the words, the last first, with the binomial weights of order \<open>k\<close>.\<close>

definition weighted :: "nat \<Rightarrow> u32 list \<Rightarrow> u64" where
  "weighted k fs = (\<Sum>i<length fs. of_nat ((i + k) choose k) * ucast (rev fs ! i))"

lemma weighted_Nil [simp]: "weighted k [] = 0"
  by (simp add: weighted_def)

lemma weighted_0_snoc: "weighted 0 (fs @ [f]) = weighted 0 fs + ucast f"
  by (simp add: weighted_def sum.lessThan_Suc_shift del: sum.lessThan_Suc)

lemma weighted_Suc_snoc: "weighted (Suc k) (fs @ [f]) = weighted (Suc k) fs + weighted k (fs @ [f])"
proof -
  have "weighted (Suc k) (fs @ [f]) =
      ucast f + (\<Sum>i<length fs. of_nat ((Suc i + Suc k) choose Suc k) * ucast (rev fs ! i))"
    by (simp add: weighted_def sum.lessThan_Suc_shift del: sum.lessThan_Suc binomial_Suc_Suc)
  also have "\<dots> = ucast f + (\<Sum>i<length fs. of_nat ((i + Suc k) choose Suc k) * ucast (rev fs ! i) +
      of_nat ((Suc i + k) choose k) * ucast (rev fs ! i))"
    by (intro arg_cong [where f = "(+) _"] sum.cong) (simp_all add: algebra_simps)
  also have "\<dots> = weighted (Suc k) fs + weighted k (fs @ [f])"
    by (simp add: weighted_def sum.lessThan_Suc_shift sum.distrib algebra_simps del: sum.lessThan_Suc binomial_Suc_Suc)
  finally show ?thesis .
qed

lemma fletcher_4_weighted:
  "fold fletcher_4_step fs (0, 0, 0, 0) = (weighted 0 fs, weighted 1 fs, weighted 2 fs, weighted 3 fs)"
proof (induction fs rule: rev_induct)
  case (snoc f fs)
  show ?case
    unfolding fold_step_4 [OF snoc.IH] numeral_2_eq_2 numeral_3_eq_3 One_nat_def
    by (simp add: weighted_0_snoc weighted_Suc_snoc)
qed simp

lemma choose_polynomials:
  "(i + 1) choose 1 = i + 1" "2 * ((i + 2) choose 2) = (i + 1) * (i + 2)"
  "6 * ((i + 3) choose 3) = (i + 1) * (i + 2) * (i + 3)"
  by (induction i) (simp_all add: numeral_2_eq_2 numeral_3_eq_3 algebra_simps)

lemma weighted_sum:
  "weighted k fs = (\<Sum>i = 1..length fs. of_nat ((i - 1 + k) choose k) * ucast (fs ! (length fs - i)))"
proof -
  have "weighted k fs = (\<Sum>i<length fs. of_nat ((i + k) choose k) * ucast (fs ! (length fs - Suc i)))"
    by (simp add: weighted_def rev_nth)
  also have "\<dots> = (\<Sum>i = 1..length fs. of_nat ((i - 1 + k) choose k) * ucast (fs ! (length fs - i)))"
    by (rule sum.reindex_bij_witness [of _ "\<lambda>i. i - 1" Suc]) auto
  finally show ?thesis .
qed

lemma weights:
  assumes "0 < i"
  shows "(i - 1 + 0) choose 0 = 1" "(i - 1 + 1) choose 1 = i" "(i - 1 + 2) choose 2 = i * (i + 1) div 2"
    "(i - 1 + 3) choose 3 = i * (i + 1) * (i + 2) div 6"
proof -
  obtain j where i: "i = Suc j" using assms by (elim gr0_implies_Suc [THEN exE])
  show "(i - 1 + 0) choose 0 = 1" "(i - 1 + 1) choose 1 = i" "(i - 1 + 2) choose 2 = i * (i + 1) div 2"
    "(i - 1 + 3) choose 3 = i * (i + 1) * (i + 2) div 6"
    using choose_polynomials [of j] unfolding i by (simp_all add: algebra_simps del: binomial_Suc_Suc)
qed

lemma weighted_series:
  "weighted 0 fs = (\<Sum>i = 1..length fs. ucast (fs ! (length fs - i)))"
  "weighted 1 fs = (\<Sum>i = 1..length fs. of_nat i * ucast (fs ! (length fs - i)))"
  "weighted 2 fs = (\<Sum>i = 1..length fs. of_nat (i * (i + 1) div 2) * ucast (fs ! (length fs - i)))"
  "weighted 3 fs = (\<Sum>i = 1..length fs. of_nat (i * (i + 1) * (i + 2) div 6) * ucast (fs ! (length fs - i)))"
  unfolding weighted_sum by (intro sum.cong refl; subst weights; simp)+

text \<open>
  C33: the series the comment gives for the four sums of \<open>fletcher_4_native\<close>, modulo \<open>2\<^sup>6\<^sup>4\<close>.
\<close>

theorem fletcher_4_series:
  "fletcher_4_native buf sz =
    (let n = sz div 4; f = (\<lambda>i. ucast (le_words 4 buf n ! i :: u32))
     in if length buf < 4 * n then None
        else Some
          ((\<Sum>i = 1..n. f (n - i)),
           (\<Sum>i = 1..n. of_nat i * f (n - i)),
           (\<Sum>i = 1..n. of_nat (i * (i + 1) div 2) * f (n - i)),
           (\<Sum>i = 1..n. of_nat (i * (i + 1) * (i + 2) div 6) * f (n - i))))"
  unfolding fletcher_4_native_def fletcher_4_weighted weighted_series Let_def length_le_words ..

subsection \<open>What the sums notice\<close>

lemma two_power_dvd_mult:
  fixes u v :: int
  assumes "2 ^ (a + b) dvd u * v" "\<not> 2 ^ b dvd v"
  shows "2 ^ Suc a dvd u"
  using assms
proof (induction b arbitrary: v)
  case (Suc b)
  show ?case
  proof (cases "even v")
    case True
    then obtain v' where v: "v = 2 * v'" by (elim evenE)
    then have "2 ^ (a + b) dvd u * v'" "\<not> 2 ^ b dvd v'" using Suc.prems by simp_all
    then show ?thesis by (rule Suc.IH)
  next
    case False
    then have "coprime (2 ^ (a + Suc b)) v" by simp
    then have "2 ^ (a + Suc b) dvd u" using Suc.prems(1) coprime_dvd_mult_left_iff by blast
    then show ?thesis using power_le_dvd [of 2 "a + Suc b" u "Suc a"] by simp
  qed
qed simp

text \<open>A weight that is not a multiple of \<open>2\<^sup>3\<^sup>3\<close> keeps two different 32-bit words apart.\<close>

lemma weight_separates:
  assumes "of_nat w * ucast x = (of_nat w * ucast y :: u64)" "\<not> 2 ^ 33 dvd w"
  shows "x = (y :: u32)"
proof (rule ccontr)
  assume "x \<noteq> y"
  define v where "v = uint x - uint y"
  have "uint x < 2 ^ 32" "uint y < 2 ^ 32" "0 \<le> uint x" "0 \<le> uint y" "uint x \<noteq> uint y"
    using unsigned_less [of x, where 'a = int] unsigned_less [of y, where 'a = int] \<open>x \<noteq> y\<close> by (simp_all add: word_uint_eq_iff)
  then have v: "v \<noteq> 0" "\<bar>v\<bar> < 2 ^ 32" unfolding v_def by linarith+
  have "uint (of_nat w * ucast z :: u64) = (int w * uint z) mod 2 ^ 64" for z :: u32
    unfolding uint_word_ariths
    by (simp add: unsigned_of_nat unsigned_ucast_eq take_bit_eq_mod zmod_int mod_mult_left_eq mod_mult_right_eq)
  then have "(int w * uint x) mod 2 ^ 64 = (int w * uint y) mod 2 ^ 64"
    using assms(1) by metis
  then have "2 ^ (32 + 32) dvd int w * v"
    by (simp add: mod_eq_dvd_iff v_def right_diff_distrib)
  moreover have "\<not> 2 ^ 32 dvd v" using v zdvd_not_zless [of "\<bar>v\<bar>" "2 ^ 32"] by auto
  ultimately have "2 ^ Suc 32 dvd int w" by (rule two_power_dvd_mult)
  then have "int (2 ^ 33) dvd int w" by simp
  then show False using assms(2) by (simp only: of_nat_dvd_iff)
qed

lemma weight_small: "0 < w \<Longrightarrow> w < 2 ^ 33 \<Longrightarrow> \<not> 2 ^ 33 dvd (w :: nat)"
  using dvd_imp_le [of "2 ^ 33" w] by (auto simp: not_less [symmetric])

text \<open>The weights of the last sum are large, but not divisible by a high power of two.\<close>

lemma weight_3:
  assumes "n < 2 ^ 15"
  shows "\<not> 2 ^ 33 dvd ((n + 3) choose 3)"
proof
  assume d: "2 ^ 33 dvd ((n + 3) choose 3)"
  let ?w = "(n + 3) choose 3"
  have w: "(n + 1) * (n + 2) * (n + 3) = 6 * ?w" by (rule choose_polynomials [symmetric])
  have "2 ^ 33 dvd 6 * ?w" using d by (rule dvd_mult)
  then have w33: "2 ^ 33 dvd (n + 1) * (n + 2) * (n + 3)" unfolding w .
  show False
  proof (cases "even n")
    case True
    then have "odd (n + 1)" "odd (n + 3)" by simp_all
    moreover have "2 ^ 33 dvd (n + 1) * ((n + 3) * (n + 2))"
      using w33 by (simp only: ac_simps)
    ultimately have "2 ^ 33 dvd n + 2"
      by (metis coprime_dvd_mult_right_iff coprime_power_left_iff coprime_left_2_iff_odd)
    then show False using assms by (auto dest: dvd_imp_le)
  next
    case False
    then obtain m where m: "n = 2 * m + 1" by (elim oddE)
    have "2 * (3 * ?w) = 2 * (2 * ((m + 1) * (m + 2) * (2 * m + 3)))" using w by (simp add: m algebra_simps)
    then have "3 * ?w = 2 * ((m + 1) * (m + 2) * (2 * m + 3))" by simp
    then have "2 ^ 33 dvd 2 * ((2 * m + 3) * ((m + 1) * (m + 2)))"
      using d dvd_mult [of "2 ^ 33" ?w 3] by (simp add: ac_simps)
    then have "2 * 2 ^ 32 dvd 2 * ((2 * m + 3) * ((m + 1) * (m + 2)))" by simp
    then have "2 ^ 32 dvd (2 * m + 3) * ((m + 1) * (m + 2))" by (simp only: nat_mult_dvd_cancel_disj) simp
    moreover have "odd (2 * m + 3)" by simp
    ultimately have "2 ^ 32 dvd (m + 1) * (m + 2)"
      by (metis coprime_dvd_mult_right_iff coprime_power_left_iff coprime_left_2_iff_odd)
    then have "2 ^ 32 \<le> (m + 1) * (m + 2)" by (auto dest: dvd_imp_le)
    moreover have "(m + 1) * (m + 2) \<le> 2 ^ 15 * 2 ^ 15" using assms by (intro mult_le_mono) (simp_all add: m)
    ultimately show False by simp
  qed
qed

lemma weight_separated:
  assumes "n < 2 ^ 15" "k < 4"
  shows "\<not> 2 ^ 33 dvd ((n + k) choose k)"
proof -
  have "k \<in> {0, 1, 2, 3}" using assms(2) by auto
  moreover have "2 * ((n + 2) choose 2) \<le> 2 ^ 15 * (2 ^ 15 + 1)"
    unfolding choose_polynomials using assms(1) by (intro mult_le_mono) simp_all
  moreover have "2 * ((n + 2) choose 2) > 0" by (simp add: choose_polynomials)
  ultimately show ?thesis
    using weight_3 [OF assms(1)] weight_small [of "n + 1"] weight_small [of "(n + 2) choose 2"] assms(1)
    by (auto simp: weight_small)
qed

text \<open>One changed word changes the sum of every order.\<close>

lemma weighted_differs:
  assumes "length fs = length gs" "length fs \<le> 2 ^ 15" "j < length fs" "fs ! j \<noteq> gs ! j"
    and same: "\<And>i. i < length fs \<Longrightarrow> i \<noteq> j \<Longrightarrow> fs ! i = gs ! i" and "k < 4"
  shows "weighted k fs \<noteq> weighted k gs"
proof
  let ?n = "length fs"
  let ?i = "?n - Suc j"
  let ?t = "\<lambda>hs i. of_nat ((i + k) choose k) * ucast (rev hs ! i) :: u64"
  assume eq: "weighted k fs = weighted k gs"
  have i: "?i < ?n" "?n - Suc ?i = j" using assms(3) by simp_all
  have rest: "sum (?t fs) ({..<?n} - {?i}) = sum (?t gs) ({..<?n} - {?i})"
  proof (rule sum.cong)
    fix x assume "x \<in> {..<?n} - {?i}"
    then have "x < ?n" "?n - Suc x < ?n" "?n - Suc x \<noteq> j" by auto
    then show "?t fs x = ?t gs x" using same assms(1) by (simp add: rev_nth)
  qed simp
  have "weighted k fs = ?t fs ?i + sum (?t fs) ({..<?n} - {?i})"
    "weighted k gs = ?t gs ?i + sum (?t gs) ({..<?n} - {?i})"
    using i(1) assms(1) unfolding weighted_def by (subst sum.remove [of _ ?i]; simp)+
  then have "?t fs ?i = ?t gs ?i" using eq rest by simp
  moreover have "\<not> 2 ^ 33 dvd ((?i + k) choose k)"
    using assms(2,3,6) by (intro weight_separated) simp_all
  ultimately have "rev fs ! ?i = rev gs ! ?i" by (rule weight_separates)
  then show False using i assms(1,4) by (simp add: rev_nth)
qed

text \<open>
  C32: a change of one 32-bit word of a block of up to 128 KB changes all four sums of fletcher-4, as
  the comment claims for every bit.
\<close>

theorem fletcher_4_notices:
  assumes "sz \<le> 128 * 1024" "sz \<le> length buf" "sz \<le> length buf'" "j < sz div 4"
    and "take 4 (drop (4 * j) buf) \<noteq> take 4 (drop (4 * j) buf')"
    and "\<And>i. i < sz div 4 \<Longrightarrow> i \<noteq> j \<Longrightarrow> take 4 (drop (4 * i) buf) = take 4 (drop (4 * i) buf')"
  shows "\<exists>a b c d a' b' c' d'. fletcher_4_native buf sz = Some (a, b, c, d) \<and>
    fletcher_4_native buf' sz = Some (a', b', c', d') \<and>
    a \<noteq> a' \<and> b \<noteq> b' \<and> c \<noteq> c' \<and> d \<noteq> d'"
proof -
  let ?n = "sz div 4"
  let ?f = "le_words 4 buf ?n :: u32 list" and ?g = "le_words 4 buf' ?n :: u32 list"
  have "4 * j + 4 \<le> sz" using assms(4) by linarith
  then have "?f ! j \<noteq> ?g ! j"
    using assms(2-5) le_load_inject [of "take 4 (drop (4 * j) buf)" "take 4 (drop (4 * j) buf')", where 'a = 32]
    by (auto simp: nth_le_words)
  then have *: "weighted k ?f \<noteq> weighted k ?g" if "k < 4" for k
    using that assms(1,4,6) by (intro weighted_differs [of _ _ j]) (auto simp: nth_le_words)
  have "fletcher_4_native buf sz = Some (weighted 0 ?f, weighted 1 ?f, weighted 2 ?f, weighted 3 ?f)"
    "fletcher_4_native buf' sz = Some (weighted 0 ?g, weighted 1 ?g, weighted 2 ?g, weighted 3 ?g)"
    using assms(2,3) by (simp_all add: fletcher_4_native_def fletcher_4_weighted Let_def del: One_nat_def)
  then show ?thesis using * [of 0] * [of 1] * [of 2] * [of 3] by (simp del: One_nat_def)
qed

theorem fletcher_4_notices_witness:
  "\<exists>a b c d a' b' c' d'. fletcher_4_native [1, 2, 3, 4, 5, 6, 7, 8] 8 = Some (a, b, c, d) \<and>
    fletcher_4_native [1, 2, 3, 4, 5, 6, 7, 136] 8 = Some (a', b', c', d') \<and>
    a \<noteq> a' \<and> b \<noteq> b' \<and> c \<noteq> c' \<and> d \<noteq> d'"
  by (rule fletcher_4_notices [of 8 _ _ 1]) (auto dest!: less_2_cases)

theorem fletcher_4_pieces_witness:
  "fletcher_4_native ([1, 2, 3, 4] @ [5, 6, 7, 8]) (4 * 1 + 4) =
      Option.bind (fletcher_4_native [1, 2, 3, 4] (4 * 1)) (fletcher_4_incremental_native [5, 6, 7, 8] 4) \<and>
    fletcher_4_byteswap ([1, 2, 3, 4] @ [5, 6, 7, 8]) (4 * 1 + 4) =
      Option.bind (fletcher_4_byteswap [1, 2, 3, 4] (4 * 1)) (fletcher_4_incremental_byteswap [5, 6, 7, 8] 4) \<and>
    fletcher_4_byteswap [1, 2, 3, 4] (4 * 1) = fletcher_4_native (swap_groups 4 [1, 2, 3, 4] 1) (4 * 1)"
  by (rule fletcher_4_pieces) simp

end
