(* ===== verification/Zfs_Lzjb.thy ===== *)
theory Zfs_Lzjb
  imports Machine_Words
begin

text \<open>
  The LZJB coder of ZFS (\<open>codecs/zfs/zfs_lzjb2010.c\<close>). The encoder reads the block \<open>ib\<close> and appends to
  its output; the decoder writes into the output block, because a match of distance zero reads what
  the block held before. \<open>None\<close> is an access outside the blocks. \<open>base\<close> is the address of the input,
  which the hash table and so the encoder's choices depend on; the result is correct for every address.
\<close>

subsection \<open>The encoder\<close>

definition MATCH_BITS :: nat where "MATCH_BITS = 6"
definition MATCH_MIN :: nat where "MATCH_MIN = 3"
definition MATCH_MAX :: nat where "MATCH_MAX = 66"
definition OFFSET_MASK :: nat where "OFFSET_MASK = 1023"
definition LEMPEL_SIZE :: nat where "LEMPEL_SIZE = 8192"

definition lzjb_hash :: "byte list \<Rightarrow> nat \<Rightarrow> nat" where
  "lzjb_hash ib i =
    (let hash = push_bit 16 (unat (ib ! i)) + push_bit 8 (unat (ib ! (i + 1))) + unat (ib ! (i + 2));
         hash = hash + drop_bit 9 hash;
         hash = hash + drop_bit 5 hash
     in hash AND (LEMPEL_SIZE - 1))"

text \<open>The loop over \<open>mlen\<close>.\<close>

function lzjb_mlen :: "byte list \<Rightarrow> nat \<Rightarrow> nat \<Rightarrow> nat \<Rightarrow> nat" where
  "lzjb_mlen ib src cpy mlen =
    (if mlen < MATCH_MAX
     then if ib ! (src + mlen) \<noteq> ib ! (cpy + mlen) then mlen else lzjb_mlen ib src cpy (mlen + 1)
     else mlen)"
  by pat_completeness auto
termination by (relation "measure (\<lambda>(ib, src, cpy, mlen). MATCH_MAX - mlen)") auto

declare lzjb_mlen.simps [simp del]

record lzjb_enc =
  lz_src :: nat
  lz_dst :: "byte list"
  lz_copymap :: nat
  lz_copymask :: nat
  lz_lempel :: "nat \<Rightarrow> nat"

text \<open>The body of the loop, behind the shift of \<open>copymask\<close>.\<close>

definition lzjb_literal :: "byte list \<Rightarrow> lzjb_enc \<Rightarrow> lzjb_enc" where
  "lzjb_literal ib s = s\<lparr>lz_dst := lz_dst s @ [ib ! lz_src s], lz_src := lz_src s + 1\<rparr>"

definition lzjb_match :: "byte list \<Rightarrow> nat \<Rightarrow> lzjb_enc \<Rightarrow> lzjb_enc" where
  "lzjb_match ib offset s =
    (let dst = (lz_dst s)[lz_copymap s := lz_dst s ! lz_copymap s OR to_byte (lz_copymask s)];
         mlen = lzjb_mlen ib (lz_src s) (lz_src s - offset) MATCH_MIN
     in s\<lparr>lz_dst := dst @ [to_byte (push_bit (8 - MATCH_BITS) (mlen - MATCH_MIN) OR drop_bit 8 offset), to_byte offset],
          lz_src := lz_src s + mlen\<rparr>)"

definition lzjb_body :: "nat \<Rightarrow> byte list \<Rightarrow> nat \<Rightarrow> lzjb_enc \<Rightarrow> lzjb_enc" where
  "lzjb_body base ib s_len s =
    (let src = lz_src s
     in if s_len < src + MATCH_MAX then lzjb_literal ib s
        else
          let hp = lzjb_hash ib src;
              offset = nat ((int (base + src) - int (lz_lempel s hp)) mod int (OFFSET_MASK + 1));
              s = s\<lparr>lz_lempel := (lz_lempel s)(hp := (base + src) mod 2 ^ 16)\<rparr>
          in if offset \<le> src \<and> offset \<noteq> 0 \<and> ib ! src = ib ! (src - offset) \<and>
                ib ! (src + 1) = ib ! (src + 1 - offset) \<and> ib ! (src + 2) = ib ! (src + 2 - offset)
             then lzjb_match ib offset s
             else lzjb_literal ib s)"

text \<open>A new copymap, before the first and behind every eighth item.\<close>

definition lzjb_shift :: "lzjb_enc \<Rightarrow> lzjb_enc" where
  "lzjb_shift s =
    (if 2 * lz_copymask s = 256
     then s\<lparr>lz_copymask := 1, lz_copymap := length (lz_dst s), lz_dst := lz_dst s @ [0]\<rparr>
     else s\<lparr>lz_copymask := 2 * lz_copymask s\<rparr>)"

lemma lzjb_mlen_ge: "m \<le> lzjb_mlen ib src cpy m"
proof (induction ib src cpy m rule: lzjb_mlen.induct)
  case (1 ib src cpy mlen)
  then show ?case
    by (cases "mlen < MATCH_MAX \<and> ib ! (src + mlen) = ib ! (cpy + mlen)")
      (auto simp: lzjb_mlen.simps [of ib src cpy mlen])
qed

lemma lzjb_mlen_pos: "0 < lzjb_mlen ib src cpy MATCH_MIN"
  using lzjb_mlen_ge [of MATCH_MIN ib src cpy] by (simp add: MATCH_MIN_def)

lemma lzjb_body_advances: "lz_src s < lz_src (lzjb_body base ib s_len s)"
  by (auto simp: lzjb_body_def lzjb_literal_def lzjb_match_def Let_def lzjb_mlen_pos)

lemma lzjb_shift_src [simp]: "lz_src (lzjb_shift s) = lz_src s"
  by (simp add: lzjb_shift_def)

text \<open>The result: the bytes written, and the returned size.\<close>

function lzjb_compress_loop :: "nat \<Rightarrow> byte list \<Rightarrow> nat \<Rightarrow> nat \<Rightarrow> lzjb_enc \<Rightarrow> byte list \<times> nat" where
  "lzjb_compress_loop base ib s_len d_len s =
    (if lz_src s < s_len then
       if 2 * lz_copymask s = 256 \<and> d_len \<le> length (lz_dst s) + 1 + 2 * 8 then (lz_dst s, s_len)
       else lzjb_compress_loop base ib s_len d_len (lzjb_body base ib s_len (lzjb_shift s))
     else (lz_dst s, length (lz_dst s)))"
  by pat_completeness auto
termination
proof (relation "measure (\<lambda>(base, ib, s_len, d_len, s). s_len - lz_src s)", goal_cases)
  case (2 base ib s_len d_len s)
  then show ?case using lzjb_body_advances [of "lzjb_shift s" base ib s_len] by simp
qed simp

declare lzjb_compress_loop.simps [simp del]

definition lzjb_compress2010 :: "nat \<Rightarrow> byte list \<Rightarrow> nat \<Rightarrow> nat \<Rightarrow> (byte list \<times> nat) option" where
  "lzjb_compress2010 base ib s_len d_len =
    (if length ib < s_len then None
     else Some (lzjb_compress_loop base ib s_len d_len
       \<lparr>lz_src = 0, lz_dst = [], lz_copymap = 0, lz_copymask = 2 ^ 7, lz_lempel = (\<lambda>_. 0)\<rparr>))"

subsection \<open>The decoder\<close>

function lzjb_decompress_loop :: "nat \<Rightarrow> byte list \<Rightarrow> nat \<times> nat \<times> byte list \<times> nat \<Rightarrow>
    (byte list \<times> nat) option" where
  "lzjb_decompress_loop d_len src (copymask, copymap, d, dst) =
    (if dst < d_len then
       case (if 2 * copymask = 256 then (case src of [] \<Rightarrow> None | x # src \<Rightarrow> Some (1, unat x, src))
             else Some (2 * copymask, copymap, src)) of
         None \<Rightarrow> None
       | Some (copymask, copymap, src) \<Rightarrow>
           if copymap AND copymask \<noteq> 0 then
             (case src of
                s0 # s1 # src \<Rightarrow>
                  let mlen = drop_bit (8 - MATCH_BITS) (unat s0) + MATCH_MIN;
                      offset = (push_bit 8 (unat s0) OR unat s1) AND OFFSET_MASK
                  in if dst < offset then Some (d, 2 ^ 64 - 1)
                     else
                       let mlen = min mlen (d_len - dst)
                       in if length d < dst + mlen then None
                          else lzjb_decompress_loop d_len src
                            (copymask, copymap, copy_forward mlen d dst (dst - offset), dst + mlen)
              | _ \<Rightarrow> None)
           else
             (case src of
                s0 # src \<Rightarrow>
                  if length d \<le> dst then None
                  else lzjb_decompress_loop d_len src (copymask, copymap, d[dst := s0], dst + 1)
              | [] \<Rightarrow> None)
     else Some (d, dst))"
  by pat_completeness auto
termination
  by (relation "measure (\<lambda>(d_len, src, copymask, copymap, d, dst). d_len - dst)")
    (auto simp: MATCH_MIN_def)

declare lzjb_decompress_loop.simps [simp del]

definition lzjb_decompress2010 :: "byte list \<Rightarrow> byte list \<Rightarrow> nat \<Rightarrow> (byte list \<times> nat) option" where
  "lzjb_decompress2010 ib ob d_len = lzjb_decompress_loop d_len ib (2 ^ 7, 0, ob, 0)"

subsection \<open>Items and groups\<close>

text \<open>The code is a sequence of groups of up to eight items, each behind a byte that tells which are matches.\<close>

datatype lzjb_item = Literal byte | Match nat nat

fun is_match :: "lzjb_item \<Rightarrow> bool" where
  "is_match (Literal b) = False"
| "is_match (Match l off) = True"

fun item_len :: "lzjb_item \<Rightarrow> nat" where
  "item_len (Literal b) = 1"
| "item_len (Match l off) = l"

fun item_bytes :: "lzjb_item \<Rightarrow> byte list" where
  "item_bytes (Literal b) = [b]"
| "item_bytes (Match l off) =
    [to_byte (push_bit (8 - MATCH_BITS) (l - MATCH_MIN) OR drop_bit 8 off), to_byte off]"

text \<open>The item stands for the data at \<open>i\<close>.\<close>

fun item_ok :: "byte list \<Rightarrow> nat \<Rightarrow> lzjb_item \<Rightarrow> bool" where
  "item_ok ib i (Literal b) \<longleftrightarrow> i < length ib \<and> b = ib ! i"
| "item_ok ib i (Match l off) \<longleftrightarrow> MATCH_MIN \<le> l \<and> l \<le> MATCH_MAX \<and> 0 < off \<and> off \<le> i \<and>
    off \<le> OFFSET_MASK \<and> i + l \<le> length ib \<and> (\<forall>k<l. ib ! (i + k) = ib ! (i + k - off))"

abbreviation items_ok :: "byte list \<Rightarrow> nat \<Rightarrow> lzjb_item list \<Rightarrow> nat \<Rightarrow> bool" where
  "items_ok ib \<equiv> parses (item_ok ib) item_len"

definition group_map :: "lzjb_item list \<Rightarrow> byte" where
  "group_map g = horner_sum of_bool 2 (map is_match g)"

definition render :: "lzjb_item list \<Rightarrow> byte list" where
  "render g = group_map g # concat (map item_bytes g)"

lemma item_len_pos: "item_ok ib i it \<Longrightarrow> 0 < item_len it"
  by (cases it) (auto simp: MATCH_MIN_def)

lemma bit_group_map: "bit (group_map g) k \<longleftrightarrow> k < 8 \<and> k < length g \<and> is_match (g ! k)"
  by (simp add: group_map_def bit_horner_sum_bit_word_iff) auto

lemma group_map_literal: "group_map (g @ [Literal b]) = group_map g"
  by (rule bit_word_eqI) (auto simp: bit_group_map nth_append)

lemma group_map_match:
  assumes "length g < 8"
  shows "group_map (g @ [Match l off]) = group_map g OR to_byte (2 ^ length g)"
proof -
  have "(to_byte (2 ^ length g) :: byte) = 2 ^ length g" by simp
  then show ?thesis
    using assms by (intro bit_word_eqI) (auto simp: bit_simps bit_group_map nth_append)
qed

subsection \<open>The encoder writes groups\<close>

lemma lzjb_mlen_le: "m \<le> MATCH_MAX \<Longrightarrow> lzjb_mlen ib src cpy m \<le> MATCH_MAX"
proof (induction ib src cpy m rule: lzjb_mlen.induct)
  case (1 ib src cpy mlen)
  then show ?case
    by (cases "mlen < MATCH_MAX \<and> ib ! (src + mlen) = ib ! (cpy + mlen)")
      (auto simp: lzjb_mlen.simps [of ib src cpy mlen])
qed

lemma lzjb_mlen_equal: "m \<le> k \<Longrightarrow> k < lzjb_mlen ib src cpy m \<Longrightarrow> ib ! (src + k) = ib ! (cpy + k)"
proof (induction ib src cpy m rule: lzjb_mlen.induct)
  case (1 ib src cpy mlen)
  then show ?case
    by (cases "k = mlen") (auto simp: lzjb_mlen.simps [of ib src cpy mlen] split: if_splits)
qed

lemma lzjb_body_le: "lz_src s < s_len \<Longrightarrow> lz_src (lzjb_body base ib s_len s) \<le> s_len"
  using lzjb_mlen_le [of MATCH_MIN ib]
  by (auto simp: lzjb_body_def lzjb_literal_def lzjb_match_def Let_def MATCH_MIN_def MATCH_MAX_def not_less
      intro: order_trans [OF add_left_mono])

text \<open>
  The state of the encoder, behind the shift of the mask: full groups, and the group that the mask
  is a position of.
\<close>

definition enc_shifted :: "byte list \<Rightarrow> lzjb_enc \<Rightarrow> lzjb_item list list \<Rightarrow> lzjb_item list \<Rightarrow> bool" where
  "enc_shifted ib s gs g \<longleftrightarrow>
    lz_dst s = concat (map render gs) @ render g \<and> (\<forall>x\<in>set gs. length x = 8) \<and> length g < 8 \<and>
    lz_copymap s = length (concat (map render gs)) \<and> lz_copymask s = 2 ^ length g \<and>
    items_ok ib 0 (concat gs @ g) (lz_src s)"

definition enc_state :: "byte list \<Rightarrow> lzjb_enc \<Rightarrow> lzjb_item list list \<Rightarrow> bool" where
  "enc_state ib s gs \<longleftrightarrow>
    lz_dst s = concat (map render gs) \<and> items_ok ib 0 (concat gs) (lz_src s) \<and>
    (\<forall>x\<in>set gs. x \<noteq> [] \<and> length x \<le> 8) \<and> (\<forall>x\<in>set (butlast gs). length x = 8) \<and>
    (if gs = [] then lz_copymask s = 2 ^ 7
     else lz_copymap s = length (concat (map render (butlast gs))) \<and>
       lz_copymask s = 2 ^ (length (last gs) - 1))"

lemma enc_shift:
  assumes "enc_state ib s gs"
  shows "\<exists>gs' g. enc_shifted ib (lzjb_shift s) gs' g"
proof (cases "gs = []")
  case True
  then have "enc_shifted ib (lzjb_shift s) [] []"
    using assms by (simp add: enc_state_def enc_shifted_def lzjb_shift_def render_def group_map_def)
  then show ?thesis by blast
next
  case False
  then obtain gs' g where gs: "gs = gs' @ [g]" by (metis append_butlast_last_id)
  have g: "g \<noteq> []" "length g \<le> 8" using assms by (simp_all add: enc_state_def gs)
  then have mask: "2 * lz_copymask s = 2 ^ length g"
    using assms by (cases g) (simp_all add: enc_state_def gs)
  show ?thesis
  proof (cases "length g = 8")
    case True
    then have "enc_shifted ib (lzjb_shift s) gs []"
      using assms mask by (auto simp: enc_state_def enc_shifted_def lzjb_shift_def render_def group_map_def gs)
    then show ?thesis by blast
  next
    case False
    then have len: "length g < 8" using g(2) by simp
    then have "(2 :: nat) ^ length g < 2 ^ 8" by (intro power_strict_increasing) simp_all
    then have "2 * lz_copymask s \<noteq> 256" using mask by simp
    then have "enc_shifted ib (lzjb_shift s) gs' g"
      using assms mask len by (auto simp: enc_state_def enc_shifted_def lzjb_shift_def gs)
    then show ?thesis by blast
  qed
qed

text \<open>A step appends an item to the last group.\<close>

lemma enc_shifted_add:
  assumes "enc_shifted ib s gs g" "item_ok ib (lz_src s) it"
    and "lz_src s' = lz_src s + item_len it" "lz_dst s' = concat (map render gs) @ render (g @ [it])"
    and "lz_copymap s' = lz_copymap s" "lz_copymask s' = lz_copymask s"
  shows "enc_state ib s' (gs @ [g @ [it]])"
  using assms by (auto simp: enc_shifted_def enc_state_def parses_append)

lemma lzjb_literal_ok:
  assumes "enc_shifted ib s gs g" "lz_src s < length ib"
  shows "enc_state ib (lzjb_literal ib s) (gs @ [g @ [Literal (ib ! lz_src s)]])"
  using assms
  by (intro enc_shifted_add [OF assms(1)])
    (simp_all add: lzjb_literal_def enc_shifted_def render_def group_map_literal)

lemma lzjb_match_ok:
  assumes "enc_shifted ib s gs g" "lz_src s + MATCH_MAX \<le> length ib"
    and "0 < off" "off \<le> lz_src s" "off \<le> OFFSET_MASK"
    and "ib ! lz_src s = ib ! (lz_src s - off)" "ib ! (lz_src s + 1) = ib ! (lz_src s + 1 - off)"
      "ib ! (lz_src s + 2) = ib ! (lz_src s + 2 - off)"
  shows "enc_state ib (lzjb_match ib off s)
    (gs @ [g @ [Match (lzjb_mlen ib (lz_src s) (lz_src s - off) MATCH_MIN) off]])"
proof (rule enc_shifted_add [OF assms(1)])
  let ?src = "lz_src s" and ?l = "lzjb_mlen ib (lz_src s) (lz_src s - off) MATCH_MIN"
  have l: "MATCH_MIN \<le> ?l" "?l \<le> MATCH_MAX"
    by (rule lzjb_mlen_ge) (rule lzjb_mlen_le, simp add: MATCH_MIN_def MATCH_MAX_def)
  have "ib ! (?src + k) = ib ! (?src + k - off)" if "k < ?l" for k
  proof (cases "MATCH_MIN \<le> k")
    case True
    have "?src - off + k = ?src + k - off" using assms(4) by simp
    then show ?thesis using lzjb_mlen_equal [OF True that] by simp
  next
    case False
    then have "k \<in> {0, 1, 2}" by (auto simp: MATCH_MIN_def)
    then show ?thesis using assms(6-8) by auto
  qed
  then show "item_ok ib ?src (Match ?l off)" using l assms(2-5) by simp
  show "lz_dst (lzjb_match ib off s) = concat (map render gs) @ render (g @ [Match ?l off])"
    using assms(1)
    by (simp add: enc_shifted_def lzjb_match_def Let_def render_def group_map_match nth_append list_update_append)
qed (simp_all add: lzjb_match_def Let_def)

lemma lzjb_body_ok:
  assumes "enc_shifted ib s gs g" "lz_src s < s_len" "s_len \<le> length ib"
  shows "\<exists>gs'. enc_state ib (lzjb_body base ib s_len s) gs'"
proof -
  let ?hp = "lzjb_hash ib (lz_src s)"
  let ?s = "s\<lparr>lz_lempel := (lz_lempel s)(?hp := (base + lz_src s) mod 2 ^ 16)\<rparr>"
  let ?off = "nat ((int (base + lz_src s) - int (lz_lempel s ?hp)) mod int (OFFSET_MASK + 1))"
  have s: "enc_shifted ib ?s gs g" using assms(1) by (simp add: enc_shifted_def)
  have lit: "\<exists>gs'. enc_state ib (lzjb_literal ib t) gs'" if "enc_shifted ib t gs g" "lz_src t = lz_src s" for t
    using lzjb_literal_ok [OF that(1)] that(2) assms(2,3) by auto
  have off: "?off \<le> OFFSET_MASK" by (simp add: OFFSET_MASK_def)
  show ?thesis
  proof (cases "s_len < lz_src s + MATCH_MAX")
    case True
    then show ?thesis using lit [OF assms(1)] by (simp add: lzjb_body_def)
  next
    case False
    note eq = lzjb_body_def [of base ib s_len s, unfolded Let_def, THEN trans, OF if_not_P, OF False]
    show ?thesis
    proof (cases "?off \<le> lz_src s \<and> ?off \<noteq> 0 \<and> ib ! lz_src s = ib ! (lz_src s - ?off) \<and>
        ib ! (lz_src s + 1) = ib ! (lz_src s + 1 - ?off) \<and> ib ! (lz_src s + 2) = ib ! (lz_src s + 2 - ?off)")
      case True
      have "\<exists>gs'. enc_state ib (lzjb_match ib ?off ?s) gs'"
        using lzjb_match_ok [OF s, of ?off] True off False assms(3) by auto
      then show ?thesis unfolding eq if_P [OF True] .
    next
      case f: False
      then show ?thesis using lit [OF s] unfolding eq if_not_P [OF f] by simp
    qed
  qed
qed

lemma lzjb_compress_loop_ok:
  assumes "enc_state ib s gs" "s_len \<le> length ib" "lz_src s \<le> s_len"
  shows "case lzjb_compress_loop base ib s_len d_len s of (out, n) \<Rightarrow>
    n = s_len \<or> n = length out \<and> (\<exists>gs. out = concat (map render gs) \<and> items_ok ib 0 (concat gs) s_len \<and>
      (\<forall>x\<in>set gs. x \<noteq> [] \<and> length x \<le> 8) \<and> (\<forall>x\<in>set (butlast gs). length x = 8))"
  using assms
proof (induction base ib s_len d_len s arbitrary: gs rule: lzjb_compress_loop.induct)
  case (1 base ib s_len d_len s)
  show ?case
  proof (cases "lz_src s < s_len")
    case False
    then have "lz_src s = s_len" using 1 by simp
    then show ?thesis using 1(2) by (auto simp: lzjb_compress_loop.simps [of _ _ _ _ s] enc_state_def)
  next
    case True
    show ?thesis
    proof (cases "2 * lz_copymask s = 256 \<and> d_len \<le> length (lz_dst s) + 1 + 2 * 8")
      case t: True
      then show ?thesis using True by (subst lzjb_compress_loop.simps) simp
    next
      case False
      obtain gs' g where "enc_shifted ib (lzjb_shift s) gs' g" using enc_shift [OF 1(2)] by blast
      then obtain gs'' where st: "enc_state ib (lzjb_body base ib s_len (lzjb_shift s)) gs''"
        using lzjb_body_ok [of ib "lzjb_shift s" gs' g s_len base] True 1(3) by auto
      have "lz_src (lzjb_body base ib s_len (lzjb_shift s)) \<le> s_len"
        using lzjb_body_le True by simp
      from 1(1) [OF True False st 1(3) this] show ?thesis
        using True False by (subst lzjb_compress_loop.simps) simp
    qed
  qed
qed

subsection \<open>The decoder reads groups\<close>

text \<open>What the decoder makes of an item.\<close>

fun item_write :: "lzjb_item \<Rightarrow> byte list \<Rightarrow> nat \<Rightarrow> byte list" where
  "item_write (Literal b) d dst = d[dst := b]"
| "item_write (Match l off) d dst = copy_forward l d dst (dst - off)"

lemma item_write_ok:
  assumes "item_ok ib dst it" "take dst d = take dst ib" "dst + item_len it \<le> length d"
  shows "take (dst + item_len it) (item_write it d dst) = take (dst + item_len it) ib \<and>
    length (item_write it d dst) = length d"
proof (cases it)
  case (Literal b)
  then show ?thesis using assms by (simp add: take_Suc_update take_Suc_conv_app_nth)
next
  case (Match l off)
  then have "off \<le> dst" "0 < off" "\<And>k. k < l \<Longrightarrow> ib ! (dst + k) = ib ! (dst - off + k)"
    using assms(1) by auto
  then show ?thesis using Match assms by (simp add: copy_forward_ok)
qed

lemma match_bytes:
  assumes "MATCH_MIN \<le> l" "l \<le> MATCH_MAX" "off \<le> OFFSET_MASK"
  shows "item_bytes (Match l off) = [s0, s1] \<Longrightarrow> drop_bit (8 - MATCH_BITS) (unat s0) + MATCH_MIN = l \<and>
    (push_bit 8 (unat s0) OR unat s1) AND OFFSET_MASK = off"
proof -
  let ?h = "drop_bit 8 off"
  have h: "?h < 4" "off = 256 * ?h + off mod 256" using assms(3) by (simp_all add: drop_bit_eq_div OFFSET_MASK_def)
  have m: "x AND OFFSET_MASK = x mod 1024" for x :: nat
    using take_bit_eq_mask [of 10 x] by (simp add: OFFSET_MASK_def take_bit_eq_mod mask_eq_exp_minus_1)
  have b: "push_bit 2 (l - 3) OR ?h = 4 * (l - 3) + ?h" using h(1) push_bit_or [of ?h 2 "l - 3"] by simp
  have l: "4 * (l - 3) + ?h < 256" using assms(2) h(1) by (simp add: MATCH_MAX_def)
  assume "item_bytes (Match l off) = [s0, s1]"
  then have s: "unat s0 = 4 * (l - 3) + ?h" "unat s1 = off mod 256"
    using l by (auto simp: MATCH_BITS_def MATCH_MIN_def b unat_of_nat simp del: of_nat_add of_nat_mult)
  have "push_bit 8 (unat s0) OR unat s1 = 256 * unat s0 + unat s1"
    using push_bit_or [of "unat s1" 8 "unat s0"] by simp
  then have "(push_bit 8 (unat s0) OR unat s1) AND OFFSET_MASK = (256 * (4 * (l - 3) + ?h) + off mod 256) mod 1024"
    unfolding m s by simp
  also have "256 * (4 * (l - 3) + ?h) + off mod 256 = 1024 * (l - 3) + off" using h(2) by simp
  finally show "drop_bit (8 - MATCH_BITS) (unat s0) + MATCH_MIN = l \<and>
      (push_bit 8 (unat s0) OR unat s1) AND OFFSET_MASK = off"
    using assms(1,3) h(1) by (simp add: s MATCH_BITS_def MATCH_MIN_def drop_bit_eq_div OFFSET_MASK_def)
qed

lemma lzjb_decode_item:
  assumes "(if 2 * m = 256 then (case src of [] \<Rightarrow> None | x # src \<Rightarrow> Some (1, unat x, src))
             else Some (2 * m, cm0, src)) = Some (2 ^ k, cm, item_bytes it @ r)"
    and "bit cm k \<longleftrightarrow> is_match it" "item_ok ib dst it" "dst + item_len it \<le> d_len" "d_len \<le> length d"
  shows "lzjb_decompress_loop d_len src (m, cm0, d, dst) =
    lzjb_decompress_loop d_len r (2 ^ k, cm, item_write it d dst, dst + item_len it)"
proof (cases it)
  case (Literal b)
  then show ?thesis
    using assms by (subst lzjb_decompress_loop.simps) (simp add: and_exp_nat)
next
  case (Match l off)
  obtain s0 s1 where s: "item_bytes it = [s0, s1]" using Match by simp
  have l: "MATCH_MIN \<le> l" "l \<le> MATCH_MAX" "off \<le> OFFSET_MASK" "off \<le> dst" using assms(3) Match by simp_all
  note b = match_bytes [OF l(1-3), OF s [unfolded Match]]
  have "dst < d_len" "min l (d_len - dst) = l" using assms(4) l(1) Match by (simp_all add: MATCH_MIN_def)
  then show ?thesis
    using assms l b unfolding s
    by (subst lzjb_decompress_loop.simps) (simp add: and_exp_nat Match Let_def)
qed

text \<open>The rest of a group, and a whole group.\<close>

lemma decode_items:
  assumes "items_ok ib dst its j" "\<And>n. n < length its \<Longrightarrow> bit cm (k + n) = is_match (its ! n)"
    and "0 < k" "k + length its \<le> 8" "j \<le> d_len" "d_len \<le> length d" "take dst d = take dst ib"
  shows "\<exists>d'. length d' = length d \<and> take j d' = take j ib \<and>
    emits (lzjb_decompress_loop d_len) (concat (map item_bytes its)) (2 ^ (k - 1), cm, d, dst)
      (2 ^ (k + length its - 1), cm, d', j)"
  using assms
proof (induction its arbitrary: dst k d)
  case (Cons it its)
  let ?dst = "dst + item_len it" and ?d = "item_write it d dst"
  have it: "item_ok ib dst it" "items_ok ib ?dst its j" using Cons.prems(1) by simp_all
  then have le: "?dst \<le> j" using parses_le by blast
  have d: "take ?dst ?d = take ?dst ib" "length ?d = length d"
    using item_write_ok [OF it(1) Cons.prems(7)] le Cons.prems(5,6) by simp_all
  have "k < 8" using Cons.prems(4) by simp
  then have "(2 :: nat) ^ k < 2 ^ 8" by (intro power_strict_increasing) simp_all
  moreover have k: "(2 :: nat) * 2 ^ (k - 1) = 2 ^ k" using Cons.prems(3) by (cases k) simp_all
  ultimately have "2 * 2 ^ (k - 1) \<noteq> (256 :: nat)" by simp
  then have "lzjb_decompress_loop d_len (item_bytes it @ r) (2 ^ (k - 1), cm, d, dst) =
      lzjb_decompress_loop d_len r (2 ^ k, cm, ?d, ?dst)" for r
    using Cons.prems(2) [of 0] Cons.prems(5,6) le k
    by (intro lzjb_decode_item [OF _ _ it(1)]) simp_all
  then have 1: "emits (lzjb_decompress_loop d_len) (item_bytes it) (2 ^ (k - 1), cm, d, dst) (2 ^ k, cm, ?d, ?dst)"
    by (simp add: emits_def)
  obtain d' where "length d' = length ?d" "take j d' = take j ib"
    "emits (lzjb_decompress_loop d_len) (concat (map item_bytes its)) (2 ^ (Suc k - 1), cm, ?d, ?dst)
      (2 ^ (Suc k + length its - 1), cm, d', j)"
    using Cons.IH [OF it(2), of "Suc k" ?d] Cons.prems(2) [of "Suc _"] Cons.prems(4-6) d by auto
  then show ?case using emits_append [OF 1] d(2) by auto
qed (auto simp: emits_Nil)

lemma decode_group:
  assumes "items_ok ib dst g j" "g \<noteq> []" "length g \<le> 8"
    and "j \<le> d_len" "d_len \<le> length d" "take dst d = take dst ib"
  shows "\<exists>d' cm'. length d' = length d \<and> take j d' = take j ib \<and>
    emits (lzjb_decompress_loop d_len) (render g) (2 ^ 7, cm, d, dst) (2 ^ (length g - 1), cm', d', j)"
proof -
  obtain it its where g: "g = it # its" using assms(2) by (cases g) auto
  let ?dst = "dst + item_len it" and ?d = "item_write it d dst" and ?cm = "unat (group_map g)"
  have it: "item_ok ib dst it" "items_ok ib ?dst its j" using assms(1) g by simp_all
  then have le: "?dst \<le> j" using parses_le by blast
  have d: "take ?dst ?d = take ?dst ib" "length ?d = length d"
    using item_write_ok [OF it(1) assms(6)] le assms(4,5) by simp_all
  have bits: "bit ?cm n = is_match (g ! n)" if "n < length g" for n
    using that assms(3) by (simp add: bit_unsigned_iff bit_group_map)
  have "lzjb_decompress_loop d_len (group_map g # item_bytes it @ r) (2 ^ 7, cm, d, dst) =
      lzjb_decompress_loop d_len r (2 ^ 0, ?cm, ?d, ?dst)" for r
    using bits [of 0] assms(4,5) le g by (intro lzjb_decode_item [OF _ _ it(1)]) simp_all
  then have 1: "emits (lzjb_decompress_loop d_len) (group_map g # item_bytes it) (2 ^ 7, cm, d, dst) (2 ^ (1 - 1), ?cm, ?d, ?dst)"
    by (simp add: emits_def)
  obtain d' where "length d' = length ?d" "take j d' = take j ib"
    "emits (lzjb_decompress_loop d_len) (concat (map item_bytes its)) (2 ^ (1 - 1), ?cm, ?d, ?dst)
      (2 ^ (1 + length its - 1), ?cm, d', j)"
    using decode_items [OF it(2), of ?cm 1 d_len ?d] bits [of "Suc _"] assms(3-5) d g by auto
  moreover from emits_append [OF 1 this(3)]
  have "emits (lzjb_decompress_loop d_len) (render g) (2 ^ 7, cm, d, dst) (2 ^ (length g - 1), ?cm, d', j)"
    by (simp add: render_def g)
  ultimately show ?thesis using d(2) by metis
qed

lemma decode_groups:
  assumes "items_ok ib dst (concat gs) j" "\<forall>g\<in>set gs. g \<noteq> [] \<and> length g \<le> 8" "\<forall>g\<in>set (butlast gs). length g = 8"
    and "j \<le> d_len" "d_len \<le> length d" "take dst d = take dst ib"
  shows "\<exists>d' h. length d' = length d \<and> take j d' = take j ib \<and>
    emits (lzjb_decompress_loop d_len) (concat (map render gs)) (2 ^ 7, cm, d, dst) (fst h, snd h, d', j)"
  using assms
proof (induction gs arbitrary: dst d cm)
  case Nil
  then show ?case using emits_Nil by fastforce
next
  case (Cons g gs)
  obtain k where k: "items_ok ib dst g k" "items_ok ib k (concat gs) j"
    using Cons.prems(1) by (auto simp: parses_append)
  then have "k \<le> d_len" using parses_le [of "item_ok ib" item_len k "concat gs" j] Cons.prems(4) by simp
  then obtain d1 cm1 where 1: "length d1 = length d" "take k d1 = take k ib"
    "emits (lzjb_decompress_loop d_len) (render g) (2 ^ 7, cm, d, dst) (2 ^ (length g - 1), cm1, d1, k)"
    using decode_group [OF k(1), of d_len d cm] Cons.prems(2,5,6) by auto
  show ?case
  proof (cases gs)
    case Nil
    then show ?thesis using 1 k by (intro exI [of _ d1] exI [of _ "(2 ^ (length g - 1), cm1)"]) simp
  next
    case (Cons g' gs')
    then have "length g = 8" using Cons.prems(3) by simp
    then have "emits (lzjb_decompress_loop d_len) (render g) (2 ^ 7, cm, d, dst) (2 ^ 7, cm1, d1, k)"
      using 1(3) by simp
    note e = emits_append [OF this]
    have "\<forall>g\<in>set (butlast gs). length g = 8" using Cons.prems(3) Cons by simp
    then obtain d' h where "length d' = length d1" "take j d' = take j ib"
      "emits (lzjb_decompress_loop d_len) (concat (map render gs)) (2 ^ 7, cm1, d1, k) (fst h, snd h, d', j)"
      using Cons.IH [OF k(2), of d1 cm1] Cons.prems(2,4,5) 1(1,2) by auto
    then have "length d' = length d \<and> take j d' = take j ib \<and>
        emits (lzjb_decompress_loop d_len) (concat (map render (g # gs))) (2 ^ 7, cm, d, dst) (fst h, snd h, d', j)"
      using e [of "concat (map render gs)" "(fst h, snd h, d', j)"] 1(1) by simp
    then show ?thesis by blast
  qed
qed

subsection \<open>Bounds and the round trip\<close>

text \<open>A group always has room for the rest of its items, so that the output never exceeds \<open>d_len\<close>.\<close>

definition group_room :: "nat \<Rightarrow> lzjb_enc \<Rightarrow> bool" where
  "group_room d_len s \<longleftrightarrow> (\<exists>k\<le>7. lz_copymask s = 2 ^ k \<and> length (lz_dst s) + 2 * (7 - k) \<le> d_len)"

lemma lzjb_body_room:
  "lz_copymask (lzjb_body base ib s_len s) = lz_copymask s \<and>
   length (lz_dst (lzjb_body base ib s_len s)) \<le> length (lz_dst s) + 2"
  by (simp add: lzjb_body_def lzjb_literal_def lzjb_match_def Let_def)

lemma group_room_step:
  assumes "group_room d_len s" "\<not> (2 * lz_copymask s = 256 \<and> d_len \<le> length (lz_dst s) + 1 + 2 * 8)"
  shows "group_room d_len (lzjb_body base ib s_len (lzjb_shift s))"
proof -
  obtain k where k: "k \<le> 7" "lz_copymask s = 2 ^ k" "length (lz_dst s) + 2 * (7 - k) \<le> d_len"
    using assms(1) by (auto simp: group_room_def)
  note body = lzjb_body_room [of base ib s_len "lzjb_shift s"]
  show ?thesis
  proof (cases "k = 7")
    case True
    then show ?thesis
      using body k assms(2) unfolding group_room_def by (intro exI [of _ 0]) (simp add: lzjb_shift_def)
  next
    case False
    then have "Suc k \<le> 7" using k(1) by simp
    moreover from this have "(2 :: nat) ^ Suc k \<le> 2 ^ 7" by (rule power_increasing) simp
    moreover have "2 * (7 - k) = 2 * (7 - Suc k) + 2" using \<open>Suc k \<le> 7\<close> by simp
    ultimately show ?thesis
      using body k unfolding group_room_def by (intro exI [of _ "Suc k"]) (simp add: lzjb_shift_def)
  qed
qed

lemma lzjb_compress_loop_room:
  "group_room d_len s \<Longrightarrow> length (fst (lzjb_compress_loop base ib s_len d_len s)) \<le> d_len"
proof (induction base ib s_len d_len s rule: lzjb_compress_loop.induct)
  case (1 base ib s_len d_len s)
  then show ?case
    using group_room_step [of d_len s base ib s_len]
    by (auto simp: lzjb_compress_loop.simps [of _ _ _ _ s] group_room_def)
qed

lemma lzjb_compress_decompress:
  assumes "lzjb_compress2010 base ib s_len d_len = Some (out, n)" "n \<noteq> s_len"
    and "s_len \<le> length ob"
  shows "n = length out \<and>
    (\<exists>ob'. lzjb_decompress2010 (out @ r) ob s_len = Some (ob', s_len) \<and> length ob' = length ob \<and> take s_len ob' = take s_len ib)"
proof -
  let ?s = "\<lparr>lz_src = 0, lz_dst = [], lz_copymap = 0, lz_copymask = 2 ^ 7, lz_lempel = (\<lambda>_. 0)\<rparr>"
  have len: "s_len \<le> length ib" and run: "lzjb_compress_loop base ib s_len d_len ?s = (out, n)"
    using assms(1) by (simp_all add: lzjb_compress2010_def split: if_splits)
  have "enc_state ib ?s []" by (simp add: enc_state_def)
  from lzjb_compress_loop_ok [OF this len, of base d_len] run assms(2)
  obtain gs where gs: "n = length out" "out = concat (map render gs)" "items_ok ib 0 (concat gs) s_len"
    "\<forall>x\<in>set gs. x \<noteq> [] \<and> length x \<le> 8" "\<forall>x\<in>set (butlast gs). length x = 8"
    by auto
  obtain d' h where d: "length d' = length ob" "take s_len d' = take s_len ib"
    "emits (lzjb_decompress_loop s_len) out (2 ^ 7, 0, ob, 0) (fst h, snd h, d', s_len)"
    using decode_groups [OF gs(3-5) order_refl assms(3), of 0] gs(2) by auto
  have "lzjb_decompress2010 (out @ r) ob s_len = Some (d', s_len)"
    unfolding lzjb_decompress2010_def emitsD [OF d(3)] by (simp add: lzjb_decompress_loop.simps)
  then show ?thesis using gs(1) d by simp
qed

lemma lzjb_compress_bound:
  assumes "lzjb_compress2010 base ib s_len d_len = Some (out, n)"
  shows "length out \<le> d_len"
proof -
  let ?s = "\<lparr>lz_src = 0, lz_dst = [], lz_copymap = 0, lz_copymask = 2 ^ 7, lz_lempel = (\<lambda>_. 0)\<rparr>"
  have "group_room d_len ?s" unfolding group_room_def by (intro exI [of _ 7]) simp
  from lzjb_compress_loop_room [OF this, of base ib s_len] show ?thesis
    using assms by (simp add: lzjb_compress2010_def split: if_splits)
qed

text \<open>
  C30: what \<open>lzjb_compress2010\<close> writes stays in the output buffer, and unless it reports that the
  buffer is too small, by returning the size of the input, the decoder restores the data from it,
  whatever follows the code and whatever the output block held.
\<close>

theorem lzjb_roundtrip:
  assumes "s_len \<le> length ib" "s_len \<le> length ob"
  shows "\<exists>out n. lzjb_compress2010 base ib s_len d_len = Some (out, n) \<and> length out \<le> d_len \<and>
    (n = s_len \<or> n = length out \<and>
      (\<exists>ob'. lzjb_decompress2010 (out @ r) ob s_len = Some (ob', s_len) \<and> take s_len ob' = take s_len ib))"
proof -
  obtain out n where c: "lzjb_compress2010 base ib s_len d_len = Some (out, n)"
    using assms(1) by (cases "lzjb_compress2010 base ib s_len d_len") (auto simp: lzjb_compress2010_def)
  show ?thesis
    using c lzjb_compress_bound [OF c] lzjb_compress_decompress [OF c _ assms(2), of r] by auto
qed

theorem lzjb_roundtrip_witness:
  "\<exists>out n. lzjb_compress2010 4096 [1, 2, 3, 4, 5] 5 40 = Some (out, n) \<and> length out \<le> 40 \<and>
    (n = 5 \<or> n = length out \<and> (\<exists>ob'. lzjb_decompress2010 (out @ [7]) [0, 0, 0, 0, 0] 5 = Some (ob', 5) \<and>
      take 5 ob' = take 5 [1, 2, 3, 4, 5]))"
  by (rule lzjb_roundtrip) simp_all

end
