(* ===== verification/Bcl_Rle.thy ===== *)
theory Bcl_Rle
  imports Bench_Prelude
begin

text \<open>
  The run length coder of the Basic Compression Library, \<open>codecs/bcl/src/rle.c\<close>, registered in
  the benchmark as \<open>bcl-rle\<close>. The buffer \<open>out\<close> is the list of the bytes written so far
  (\<open>outpos\<close> is its length: the C code only ever appends), and \<open>in\<close> with \<open>inpos\<close> is the list of
  the bytes from \<open>inpos\<close> on (\<open>inpos < insize\<close> is \<open>rest \<noteq> []\<close>: the C code only ever reads the
  next byte). A decoder that reads past its input is \<open>None\<close>.
\<close>

subsection \<open>The encoder\<close>

definition RLE_WriteRep :: "byte list \<Rightarrow> byte \<Rightarrow> byte \<Rightarrow> nat \<Rightarrow> byte list" where
  "RLE_WriteRep out marker symbol count =
     (if count \<le> 3 then
        if symbol = marker then out @ [marker, to_byte count - 1]
        else out @ replicate count symbol
      else
        let count = count - 1
        in out @ [marker]
             @ (if 128 \<le> count then [to_byte (drop_bit 8 count OR 0x80)] else [])
             @ [to_byte (count AND 0xff), symbol])"

definition RLE_WriteNonRep :: "byte list \<Rightarrow> byte \<Rightarrow> byte \<Rightarrow> byte list" where
  "RLE_WriteNonRep out marker symbol =
     (if symbol = marker then out @ [marker, 0] else out @ [symbol])"

text \<open>The inner \<open>while\<close>: extend a run of \<open>byte1\<close>; returns \<open>byte2\<close>, \<open>count\<close> and the rest.\<close>

fun RLE_run :: "byte \<Rightarrow> byte \<Rightarrow> nat \<Rightarrow> byte list \<Rightarrow> byte \<times> nat \<times> byte list" where
  "RLE_run byte1 byte2 count [] = (byte2, count, [])"
| "RLE_run byte1 byte2 count (x # rest) =
     (if byte1 = byte2 \<and> count < 32768 then RLE_run byte1 x (count + 1) rest
      else (byte2, count, x # rest))"

text \<open>
  The body of the main \<open>do\<close> loop up to its last \<open>if\<close>: returns \<open>byte1\<close>, \<open>byte2\<close>, \<open>count\<close>,
  the rest of the input and the output.
\<close>

definition RLE_Compress_body ::
  "byte \<Rightarrow> byte \<Rightarrow> byte \<Rightarrow> nat \<Rightarrow> byte list \<Rightarrow> byte list
    \<Rightarrow> byte \<times> byte \<times> nat \<times> byte list \<times> byte list" where
  "RLE_Compress_body marker byte1 byte2 count rest out =
     (if byte1 = byte2 then
        (case RLE_run byte1 byte2 count rest of (byte2, count, rest) \<Rightarrow>
           if byte1 = byte2 then
             (case rest of
                x # rest' \<Rightarrow> (x, byte2, 1, rest', RLE_WriteRep out marker byte1 count)
              | [] \<Rightarrow> (byte1, byte2, 0, [], RLE_WriteRep out marker byte1 count))
           else (byte2, byte2, 1, rest, RLE_WriteRep out marker byte1 (count - 1)))
      else (byte2, byte2, 1, rest, RLE_WriteNonRep out marker byte1))"

lemma RLE_run_length: "RLE_run b1 b2 c rest = (b2', c', rest') \<Longrightarrow> length rest' \<le> length rest"
  by (induction b1 b2 c rest rule: RLE_run.induct) (auto split: if_splits)

lemma RLE_body_progress:
  assumes "RLE_Compress_body m b1 b2 c rest out = (b1', b2', c', rest', out')"
  shows "length rest' \<le> length rest \<and> c' \<le> 1"
  using assms RLE_run_length
  by (auto simp: RLE_Compress_body_def split: if_splits prod.splits list.splits)
    (metis Suc_leD le_trans length_Cons order_refl)+

function RLE_Compress_loop ::
  "byte \<Rightarrow> byte \<Rightarrow> byte \<Rightarrow> nat \<Rightarrow> byte list \<Rightarrow> byte list \<Rightarrow> byte \<times> nat \<times> byte list" where
  "RLE_Compress_loop marker byte1 byte2 count rest out =
     (case RLE_Compress_body marker byte1 byte2 count rest out of
        (byte1, byte2, count, rest, out) \<Rightarrow>
          (case (case rest of x # rest' \<Rightarrow> (x, 2, rest') | [] \<Rightarrow> (byte2, count, [])) of
             (byte2, count, rest) \<Rightarrow>
               if rest \<noteq> [] \<or> 2 \<le> count
               then RLE_Compress_loop marker byte1 byte2 count rest out
               else (byte1, count, out)))"
  by pat_completeness auto
termination
  by (relation "measure (\<lambda>(marker, byte1, byte2, count, rest, out). length rest)")
    (auto split: list.splits dest!: RLE_body_progress [OF sym])

declare RLE_Compress_loop.simps [simp del]

definition RLE_Compress :: "byte list \<Rightarrow> byte list" where
  "RLE_Compress ins =
     (case ins of
        [] \<Rightarrow> []
      | byte1 # rest \<Rightarrow>
          let marker = find_marker ins; out = [marker]
          in case (case rest of
                     [] \<Rightarrow> (byte1, 1, out)
                   | byte2 # rest' \<Rightarrow> RLE_Compress_loop marker byte1 byte2 2 rest' out) of
               (byte1, count, out) \<Rightarrow>
                 if count = 1 then RLE_WriteNonRep out marker byte1 else out)"

subsection \<open>The decoder\<close>

text \<open>One turn of the decoder's loop: the rest of the input and the bytes it appends.\<close>

definition RLE_Uncompress_step :: "byte \<Rightarrow> byte list \<Rightarrow> (byte list \<times> byte list) option" where
  "RLE_Uncompress_step marker ins =
     (case ins of
        [] \<Rightarrow> None
      | symbol # ins \<Rightarrow>
          if symbol = marker then
            (case ins of
               [] \<Rightarrow> None
             | c # ins \<Rightarrow>
                 let count = unat c
                 in if count \<le> 2 then Some (ins, replicate (count + 1) marker)
                    else if count AND 0x80 \<noteq> 0 then
                      (case ins of
                         lo # symbol # ins \<Rightarrow>
                           Some (ins, replicate (push_bit 8 (count AND 0x7f) + unat lo + 1) symbol)
                       | _ \<Rightarrow> None)
                    else
                      (case ins of
                         symbol # ins \<Rightarrow> Some (ins, replicate (count + 1) symbol)
                       | _ \<Rightarrow> None))
          else Some (ins, [symbol]))"

lemma RLE_Uncompress_step_length:
  "RLE_Uncompress_step m ins = Some (ins', d) \<Longrightarrow> length ins' < length ins"
  by (auto simp: RLE_Uncompress_step_def Let_def split: list.splits if_splits)

function RLE_Uncompress_loop :: "byte \<Rightarrow> byte list \<Rightarrow> byte list \<Rightarrow> byte list option" where
  "RLE_Uncompress_loop marker ins out =
     (case RLE_Uncompress_step marker ins of
        None \<Rightarrow> None
      | Some (ins', d) \<Rightarrow>
          if ins' = [] then Some (out @ d) else RLE_Uncompress_loop marker ins' (out @ d))"
  by pat_completeness auto
termination
  by (relation "measure (\<lambda>(marker, ins, out). length ins)")
    (auto dest: RLE_Uncompress_step_length)

declare RLE_Uncompress_loop.simps [simp del]

definition RLE_Uncompress :: "byte list \<Rightarrow> byte list option" where
  "RLE_Uncompress ins =
     (case ins of [] \<Rightarrow> Some [] | marker # ins \<Rightarrow> RLE_Uncompress_loop marker ins [])"

subsection \<open>What a stretch of code decodes to\<close>

text \<open>The decoder where it stands between two turns: it stops at the end of its input.\<close>

definition RLE_cont :: "byte \<Rightarrow> byte list \<Rightarrow> byte list \<Rightarrow> byte list option" where
  "RLE_cont marker ins out = (if ins = [] then Some out else RLE_Uncompress_loop marker ins out)"

interpretation rle_dec: stream_decoder "RLE_cont marker" for marker
  by unfold_locales (simp add: RLE_cont_def)

lemma RLE_Uncompress_cont: "ins \<noteq> [] \<Longrightarrow> RLE_Uncompress (marker # ins) = RLE_cont marker ins []"
  by (simp add: RLE_Uncompress_def RLE_cont_def)

text \<open>
  \<open>RLE_codes marker c d\<close>: the decoder turns the code \<open>c\<close> into the data \<open>d\<close>, and \<open>c\<close> is longer
  than \<open>d\<close> by at most the number of marker bytes in \<open>d\<close>.
\<close>

definition RLE_codes :: "byte \<Rightarrow> byte list \<Rightarrow> byte list \<Rightarrow> bool" where
  "RLE_codes marker c d \<longleftrightarrow>
     (\<forall>out. emits (RLE_cont marker) c out (out @ d)) \<and>
     length c \<le> length d + count_list d marker"

lemma RLE_codes_Nil [simp]: "RLE_codes m [] []"
  by (simp add: RLE_codes_def emits_Nil)

lemma RLE_codes_append: "RLE_codes m c d \<Longrightarrow> RLE_codes m c' d' \<Longrightarrow> RLE_codes m (c @ c') (d @ d')"
  unfolding RLE_codes_def
  by (auto intro: emits_append simp flip: append_assoc)

lemma RLE_codes_step:
  assumes "\<And>r. RLE_Uncompress_step m (c @ r) = Some (r, d)"
    and "length c \<le> length d + count_list d m"
  shows "RLE_codes m c d"
proof -
  from assms(1) [of "[]"] have "c \<noteq> []" by (auto simp: RLE_Uncompress_step_def)
  then show ?thesis
    using assms by (auto simp: RLE_codes_def emits_def RLE_cont_def RLE_Uncompress_loop.simps)
qed

lemma RLE_codes_literal: "s \<noteq> m \<Longrightarrow> RLE_codes m [s] [s]"
  by (rule RLE_codes_step) (simp_all add: RLE_Uncompress_step_def)

lemma RLE_codes_markers: "n < 3 \<Longrightarrow> RLE_codes m [m, to_byte n] (replicate (n + 1) m)"
  by (rule RLE_codes_step) (simp_all add: RLE_Uncompress_step_def Let_def)

lemma RLE_codes_literals: "s \<noteq> m \<Longrightarrow> RLE_codes m (replicate n s) (replicate n s)"
proof (induction n)
  case (Suc n)
  then show ?case using RLE_codes_append [OF RLE_codes_literal, of s m] by simp
qed simp

text \<open>The two-byte count: its high part carries the flag \<open>0x80\<close>.\<close>

lemma long_count_split:
  assumes "128 \<le> n" and "n < 32768"
  shows "unat (to_byte (drop_bit 8 n OR 0x80)) AND 0x80 \<noteq> 0"
    and "2 < unat (to_byte (drop_bit 8 n OR 0x80))"
    and "push_bit 8 (unat (to_byte (drop_bit 8 n OR 0x80)) AND 0x7f) + unat (to_byte (n AND 0xff)) = n"
proof -
  let ?h = "drop_bit 8 n"
  have h: "?h < 128" using assms(2) by (simp add: drop_bit_eq_div)
  have or: "?h OR 0x80 = ?h + 128" using h by (rule or_0x80)
  have u: "unat (to_byte (?h OR 0x80)) = ?h + 128"
    unfolding or by (rule unat_to_byte) (use h in simp)
  have and7: "(?h + 128) AND 0x7f = ?h"
    using h by (simp add: and_0x7f)
  have "(?h + 128) div 128 = 1" using h by (simp add: div_nat_eqI)
  then show "unat (to_byte (?h OR 0x80)) AND 0x80 \<noteq> 0"
    unfolding u and_0x80 by simp
  show "2 < unat (to_byte (?h OR 0x80))" unfolding u by simp
  have "unat (to_byte (n AND 0xff)) = take_bit 8 n"
    by (simp add: and_0xff take_bit_eq_mod)
  then show "push_bit 8 (unat (to_byte (?h OR 0x80)) AND 0x7f) + unat (to_byte (n AND 0xff)) = n"
    unfolding u and7 by (simp add: push_bit_eq_mult drop_bit_eq_div take_bit_eq_mod)
qed

lemma RLE_codes_WriteRep:
  assumes "1 \<le> n" and "n \<le> 32768" 
  shows "\<exists>c. RLE_WriteRep out m s n = out @ c \<and> RLE_codes m c (replicate n s)"
proof (cases "n \<le> 3")
  case short: True
  show ?thesis
  proof (cases "s = m")
    case True
    have "to_byte n - 1 = to_byte (n - 1)" using assms(1) by (simp add: of_nat_diff)
    then have "RLE_WriteRep out m s n = out @ [m, to_byte (n - 1)]"
      using short True by (simp add: RLE_WriteRep_def del: of_nat_diff)
    moreover have "RLE_codes m [m, to_byte (n - 1)] (replicate n s)"
      using RLE_codes_markers [of "n - 1" m] short True assms(1) by simp
    ultimately show ?thesis by blast
  next
    case False
    then have "RLE_WriteRep out m s n = out @ replicate n s"
      using short by (simp add: RLE_WriteRep_def)
    then show ?thesis using RLE_codes_literals [OF False] by blast
  qed
next
  case long: False
  show ?thesis
  proof (cases "128 \<le> n - 1")
    case True
    define hi where "hi = to_byte (drop_bit 8 (n - 1) OR 0x80)"
    define lo where "lo = to_byte ((n - 1) AND 0xff)"
    have "n - 1 < 32768" using assms by simp
    note split = long_count_split [OF True this, folded hi_def lo_def]
    have hi: "unat hi AND 0x80 \<noteq> 0" "\<not> unat hi \<le> 2"
      using split(1,2) by simp_all
    have n: "push_bit 8 (unat hi AND 0x7f) + unat lo + 1 = n"
      using split(3) assms(1) by linarith
    have "RLE_Uncompress_step m ([m, hi, lo, s] @ r) = Some (r, replicate n s)" for r
      by (simp add: RLE_Uncompress_step_def Let_def hi n del: One_nat_def push_bit_and)
    then have "RLE_codes m [m, hi, lo, s] (replicate n s)"
      using True by (intro RLE_codes_step) auto
    moreover have "RLE_WriteRep out m s n = out @ [m, hi, lo, s]"
      using long True by (simp add: RLE_WriteRep_def Let_def hi_def lo_def)
    ultimately show ?thesis by blast
  next
    case False
    define c where "c = to_byte ((n - 1) AND 0xff)"
    have c: "unat c = n - 1" using False unfolding c_def by (simp add: and_0xff)
    have "RLE_Uncompress_step m ([m, c, s] @ r) = Some (r, replicate n s)" for r
      using False long by (simp add: RLE_Uncompress_step_def Let_def c and_0x80)
    then have "RLE_codes m [m, c, s] (replicate n s)"
      using long by (intro RLE_codes_step) auto
    moreover have "RLE_WriteRep out m s n = out @ [m, c, s]"
      using long False by (simp add: RLE_WriteRep_def Let_def c_def)
    ultimately show ?thesis by blast
  qed
qed

lemma RLE_codes_WriteNonRep:
  "\<exists>c. RLE_WriteNonRep out m s = out @ c \<and> RLE_codes m c [s]"
  using RLE_codes_literal [of s m] RLE_codes_markers [of 0 m]
  by (auto simp: RLE_WriteNonRep_def)

subsection \<open>The encoder's loops\<close>

text \<open>The inner loop moves a run from the input into \<open>count\<close>.\<close>

lemma RLE_run_correct:
  assumes "RLE_run b1 b2 c rest = (b2', c', rest')" and "1 \<le> c" and "c \<le> 32768"
  shows "(if b1 = b2' then replicate c' b1 @ rest' else replicate (c' - 1) b1 @ b2' # rest')
      = (if b1 = b2 then replicate c b1 @ rest else replicate (c - 1) b1 @ b2 # rest)
    \<and> c \<le> c' \<and> c' \<le> 32768
    \<and> (b1 = b2 \<longrightarrow> b1 = b2' \<or> c < c')"
  using assms
proof (induction b1 b2 c rest rule: RLE_run.induct)
  case (2 b1 b2 c x rest)
  show ?case
  proof (cases "b1 = b2 \<and> c < 32768")
    case True
    with 2 show ?thesis by (auto simp: replicate_app_Cons_same)
  next
    case False
    with 2 show ?thesis by auto
  qed
qed auto

text \<open>
  One turn of the main loop: from the pending input \<open>byte1 byte2 rest\<close> it writes a code for what
  it takes, and leaves \<open>byte1\<close> (when \<open>count = 1\<close>) and the rest pending.
\<close>

lemma RLE_body_correct:
  assumes "RLE_Compress_body m b1 b2 2 rest out = (b1', b2', c', rest', out')"
  shows "\<exists>c d. out' = out @ c \<and> RLE_codes m c d
    \<and> b1 # b2 # rest = d @ (if c' = 1 then [b1'] else []) @ rest'
    \<and> (c' = 1 \<or> c' = 0 \<and> rest' = [])"
proof (cases "b1 = b2")
  case False
  then show ?thesis
    using assms RLE_codes_WriteNonRep [of out m b1] by (auto simp: RLE_Compress_body_def)
next
  case True
  obtain b2'' c'' rest'' where run: "RLE_run b1 b2 2 rest = (b2'', c'', rest'')"
    by (metis prod_cases3)
  note inv = RLE_run_correct [OF run, simplified]
  show ?thesis
  proof (cases "b1 = b2''")
    case True
    from inv have "1 \<le> c''" "c'' \<le> 32768" by auto
    from RLE_codes_WriteRep [OF this, of out m b1] obtain c where
      c: "RLE_WriteRep out m b1 c'' = out @ c" "RLE_codes m c (replicate c'' b1)" by blast
    moreover from inv True \<open>b1 = b2\<close> have "b1 # b2 # rest = replicate c'' b1 @ rest''"
      by (simp add: numeral_2_eq_2)
    ultimately show ?thesis
      using assms \<open>b1 = b2\<close> True run
      by (cases rest'') (auto simp: RLE_Compress_body_def intro!: exI [of _ c])
  next
    case False
    with inv \<open>b1 = b2\<close> have "1 \<le> c'' - 1" "c'' - 1 \<le> 32768" by auto
    from RLE_codes_WriteRep [OF this, of out m b1] obtain c where
      c: "RLE_WriteRep out m b1 (c'' - 1) = out @ c" "RLE_codes m c (replicate (c'' - 1) b1)" by blast
    moreover from inv False \<open>b1 = b2\<close>
    have "b1 # b2 # rest = replicate (c'' - 1) b1 @ b2'' # rest''"
      by (simp add: numeral_2_eq_2)
    ultimately show ?thesis
      using assms \<open>b1 = b2\<close> False run
      by (auto simp: RLE_Compress_body_def intro!: exI [of _ c])
  qed
qed

lemma RLE_loop_correct:
  assumes "RLE_Compress_loop m b1 b2 2 rest out = (b1', c', out')"
  shows "\<exists>c d. out' = out @ c \<and> RLE_codes m c d
    \<and> b1 # b2 # rest = d @ (if c' = 1 then [b1'] else []) \<and> c' \<le> 1"
  using assms
proof (induction "length rest" arbitrary: b1 b2 rest out rule: less_induct)
  case less
  obtain a1 a2 n r o' where body: "RLE_Compress_body m b1 b2 2 rest out = (a1, a2, n, r, o')"
    by (metis prod_cases5)
  from RLE_body_correct [OF body] obtain c d where step:
    "o' = out @ c" "RLE_codes m c d"
    "b1 # b2 # rest = d @ (if n = 1 then [a1] else []) @ r" "n = 1 \<or> n = 0 \<and> r = []"
    by blast
  show ?case
  proof (cases r)
    case Nil
    with step body less.prems show ?thesis
      by (subst (asm) RLE_Compress_loop.simps) auto
  next
    case (Cons x r')
    with body less.prems have loop: "RLE_Compress_loop m a1 x 2 r' o' = (b1', c', out')"
      by (subst (asm) RLE_Compress_loop.simps) auto
    have "length r' < length rest"
      using RLE_body_progress [OF body] Cons by simp
    from less.hyps [OF this loop] obtain c2 d2 where rec:
      "out' = o' @ c2" "RLE_codes m c2 d2"
      "a1 # x # r' = d2 @ (if c' = 1 then [b1'] else [])" "c' \<le> 1"
      by blast
    have "out' = out @ (c @ c2)" using step(1) rec(1) by simp
    moreover have "RLE_codes m (c @ c2) (d @ d2)"
      using step(2) rec(2) by (rule RLE_codes_append)
    moreover have "b1 # b2 # rest = (d @ d2) @ (if c' = 1 then [b1'] else [])"
      using step(3,4) Cons rec(3) by auto
    ultimately show ?thesis using rec(4) by blast
  qed
qed

text \<open>The whole encoder: the marker, then a code of the input.\<close>

lemma RLE_Compress_codes:
  assumes "xs \<noteq> []"
  shows "\<exists>c. RLE_Compress xs = find_marker xs # c \<and> RLE_codes (find_marker xs) c xs \<and> c \<noteq> []"
proof -
  obtain b1 rest where xs: "xs = b1 # rest" using assms by (cases xs) auto
  define m where "m = find_marker xs"
  have ne: "c \<noteq> []" if "RLE_codes m c xs" for c
  proof -
    from that have "emits (RLE_cont m) c [] ([] @ xs)" by (simp add: RLE_codes_def del: append_Nil)
    then have "emits (RLE_cont m) c [] xs" by simp
    then have "RLE_cont m c [] = Some xs" by (rule rle_dec.decodes_to)
    with assms show ?thesis by (auto simp: RLE_cont_def)
  qed
  show ?thesis
  proof (cases rest)
    case Nil
    with RLE_codes_WriteNonRep [of "[m]" m b1] show ?thesis
      using ne xs by (auto simp: RLE_Compress_def Let_def m_def)
  next
    case (Cons b2 rest')
    obtain b1' n out' where loop: "RLE_Compress_loop m b1 b2 2 rest' [m] = (b1', n, out')"
      by (metis prod_cases3)
    from RLE_loop_correct [OF this] obtain c d where inv: "out' = [m] @ c" "RLE_codes m c d"
      "xs = d @ (if n = 1 then [b1'] else [])" using xs Cons by auto
    from RLE_codes_WriteNonRep [of out' m b1'] obtain c2 where tail:
      "RLE_WriteNonRep out' m b1' = out' @ c2" "RLE_codes m c2 [b1']" by blast
    have enc: "RLE_Compress xs = (if n = 1 then RLE_WriteNonRep out' m b1' else out')"
      using loop xs Cons by (simp add: RLE_Compress_def Let_def m_def)
    have "\<exists>c. RLE_Compress xs = m # c \<and> RLE_codes m c xs"
    proof (cases "n = 1")
      case True
      with enc inv tail RLE_codes_append [OF inv(2) tail(2)] show ?thesis by auto
    next
      case False
      with enc inv show ?thesis by auto
    qed
    then show ?thesis using ne m_def by blast
  qed
qed


subsection \<open>The whole coder\<close>

lemma RLE_Uncompress_Compress: "RLE_Uncompress (RLE_Compress xs) = Some xs"
proof (cases "xs = []")
  case True
  then show ?thesis by (simp add: RLE_Compress_def RLE_Uncompress_def)
next
  case False
  from RLE_Compress_codes [OF False] obtain c where
    c: "RLE_Compress xs = find_marker xs # c" "RLE_codes (find_marker xs) c xs" "c \<noteq> []" by blast
  then have "emits (RLE_cont (find_marker xs)) c [] ([] @ xs)"
    by (simp add: RLE_codes_def del: append_Nil)
  from rle_dec.decodes_to [OF this] show ?thesis
    by (simp add: c RLE_Uncompress_cont)
qed

lemma RLE_Compress_length: "length (RLE_Compress xs) \<le> length xs + length xs div 256 + 1"
proof (cases "xs = []")
  case True
  then show ?thesis by (simp add: RLE_Compress_def)
next
  case False
  from RLE_Compress_codes [OF False] find_marker_count [of xs] show ?thesis
    by (auto simp: RLE_codes_def)
qed

subsection \<open>Properties\<close>



end
