(* ===== verification/Bcl_Lz.thy ===== *)
theory Bcl_Lz
  imports Bench_Prelude "HOL-Library.Monad_Syntax"
begin

text \<open>
  The LZ77 coder of the Basic Compression Library, \<open>codecs/bcl/src/lz.c\<close>: the exhaustive encoder
  \<open>LZ_Compress\<close> (\<open>bcl-lz\<close>), the encoder with a jump table \<open>LZ_CompressFast\<close> (\<open>bcl-lzfast\<close>) and their
  common decoder \<open>LZ_Uncompress\<close>.

  Both encoders look one byte past the best match found so far, and that byte may lie behind the
  \<open>insize\<close> bytes they were given. So the input is a buffer \<open>buf\<close> that may be longer than
  \<open>insize\<close>, every read of it goes through \<open>rd\<close>, and a read outside the buffer makes the encoder
  return \<open>None\<close>. In the decoder \<open>None\<close> is a read behind its input or before its output.
\<close>

subsection \<open>Reading a buffer\<close>

definition rd :: "byte list \<Rightarrow> nat \<Rightarrow> byte option" where
  "rd buf i = (if i < length buf then Some (buf ! i) else None)"

lemma rd_Some [simp]: "i < length buf \<Longrightarrow> rd buf i = Some (buf ! i)"
  by (simp add: rd_def)

lemma rd_eq_Some: "rd buf i = Some x \<longleftrightarrow> i < length buf \<and> x = buf ! i"
  by (auto simp: rd_def)

subsection \<open>Internal functions\<close>

text \<open>\<open>str1\<close> and \<open>str2\<close> are the positions in \<open>buf\<close> that the C pointers point at.\<close>

function LZ_StringCompare_loop ::
  "byte list \<Rightarrow> nat \<Rightarrow> nat \<Rightarrow> nat \<Rightarrow> nat \<Rightarrow> nat option" where
  "LZ_StringCompare_loop buf str1 str2 len maxlen =
     (if len < maxlen then
        do {
          x \<leftarrow> rd buf (str1 + len);
          y \<leftarrow> rd buf (str2 + len);
          if x = y then LZ_StringCompare_loop buf str1 str2 (len + 1) maxlen else Some len
        }
      else Some len)"
  by pat_completeness auto
termination
  by (relation "measure (\<lambda>(buf, str1, str2, len, maxlen). maxlen - len)") auto

declare LZ_StringCompare_loop.simps [simp del]

definition LZ_StringCompare :: "byte list \<Rightarrow> nat \<Rightarrow> nat \<Rightarrow> nat \<Rightarrow> nat \<Rightarrow> nat option" where
  "LZ_StringCompare buf str1 str2 minlen maxlen = LZ_StringCompare_loop buf str1 str2 minlen maxlen"

fun LZ_num_bytes :: "u32 \<Rightarrow> nat \<Rightarrow> nat" where
  "LZ_num_bytes y num_bytes =
     (if 2 \<le> num_bytes \<and> y AND 0xfe000000 = 0 then LZ_num_bytes (push_bit 7 y) (num_bytes - 1)
      else num_bytes)"

declare LZ_num_bytes.simps [simp del]

definition LZ_WriteVarSize :: "u32 \<Rightarrow> byte list" where
  "LZ_WriteVarSize x =
     map (\<lambda>i. ucast ((drop_bit (i * 7) x AND 0x7f) OR (if 0 < i then 0x80 else 0)))
       (rev [0..<LZ_num_bytes (drop_bit 3 x) 5])"

fun LZ_ReadVarSize_loop :: "u32 \<Rightarrow> byte list \<Rightarrow> (u32 \<times> byte list) option" where
  "LZ_ReadVarSize_loop y [] = None"
| "LZ_ReadVarSize_loop y (c # ins) =
     (let b = ucast c :: u32; y = push_bit 7 y OR (b AND 0x7f)
      in if b AND 0x80 \<noteq> 0 then LZ_ReadVarSize_loop y ins else Some (y, ins))"

definition LZ_ReadVarSize :: "byte list \<Rightarrow> (u32 \<times> byte list) option" where
  "LZ_ReadVarSize ins = LZ_ReadVarSize_loop 0 ins"

subsection \<open>The exhaustive encoder\<close>

definition LZ_MAX_OFFSET :: nat where
  "LZ_MAX_OFFSET = 100000"

text \<open>
  The search over \<open>offset\<close>; it returns \<open>bestlength\<close> and \<open>bestoffset\<close>. As in C, the second
  comparison of the quick test is made only when the first one succeeds.
\<close>

definition LZ_try_offset ::
  "byte list \<Rightarrow> nat \<Rightarrow> nat \<Rightarrow> nat \<Rightarrow> nat \<times> nat \<Rightarrow> (nat \<times> nat) option" where
  "LZ_try_offset buf inpos bytesleft offset best =
     (case best of (bestlength, bestoffset) \<Rightarrow>
        do {
          a \<leftarrow> rd buf inpos;
          b \<leftarrow> rd buf (inpos - offset);
          if a = b then do {
            c \<leftarrow> rd buf (inpos + bestlength);
            d \<leftarrow> rd buf (inpos - offset + bestlength);
            if c = d then do {
              length \<leftarrow> LZ_StringCompare buf inpos (inpos - offset) 0 (min bytesleft offset);
              Some (if bestlength < length then (length, offset) else (bestlength, bestoffset))
            }
            else Some (bestlength, bestoffset)
          }
          else Some (bestlength, bestoffset)
        })"

function LZ_search ::
  "byte list \<Rightarrow> nat \<Rightarrow> nat \<Rightarrow> nat \<Rightarrow> nat \<Rightarrow> nat \<times> nat \<Rightarrow> (nat \<times> nat) option" where
  "LZ_search buf inpos bytesleft maxoffset offset best =
     (if offset \<le> maxoffset then
        do {
          best \<leftarrow> LZ_try_offset buf inpos bytesleft offset best;
          LZ_search buf inpos bytesleft maxoffset (offset + 1) best
        }
      else Some best)"
  by pat_completeness auto
termination
  by (relation "measure (\<lambda>(buf, inpos, bytesleft, maxoffset, offset, best). maxoffset + 1 - offset)")
    auto

declare LZ_search.simps [simp del]

definition LZ_good_match :: "nat \<Rightarrow> nat \<Rightarrow> bool" where
  "LZ_good_match bestlength bestoffset \<longleftrightarrow>
     8 \<le> bestlength
     \<or> bestlength = 4 \<and> bestoffset \<le> 0x0000007f
     \<or> bestlength = 5 \<and> bestoffset \<le> 0x00003fff
     \<or> bestlength = 6 \<and> bestoffset \<le> 0x001fffff
     \<or> bestlength = 7 \<and> bestoffset \<le> 0x0fffffff"

text \<open>What both encoders do with the best match: the new \<open>inpos\<close>, \<open>bytesleft\<close> and \<open>out\<close>.\<close>

definition LZ_output ::
  "byte list \<Rightarrow> byte \<Rightarrow> nat \<Rightarrow> nat \<Rightarrow> byte list \<Rightarrow> nat \<times> nat \<Rightarrow> (nat \<times> nat \<times> byte list) option" where
  "LZ_output buf marker inpos bytesleft out best =
     (case best of (bestlength, bestoffset) \<Rightarrow>
        if LZ_good_match bestlength bestoffset then
          Some (inpos + bestlength, bytesleft - bestlength,
            out @ [marker] @ LZ_WriteVarSize (word_of_nat bestlength)
                @ LZ_WriteVarSize (word_of_nat bestoffset))
        else do {
          symbol \<leftarrow> rd buf inpos;
          Some (inpos + 1, bytesleft - 1,
            out @ [symbol] @ (if symbol = marker then [0] else []))
        })"

text \<open>The loop that dumps the remaining bytes.\<close>

function LZ_dump :: "byte list \<Rightarrow> nat \<Rightarrow> byte \<Rightarrow> nat \<Rightarrow> byte list \<Rightarrow> byte list option" where
  "LZ_dump buf insize marker inpos out =
     (if inpos < insize then
        do {
          x \<leftarrow> rd buf inpos;
          LZ_dump buf insize marker (inpos + 1) (out @ (if x = marker then [marker, 0] else [x]))
        }
      else Some out)"
  by pat_completeness auto
termination
  by (relation "measure (\<lambda>(buf, insize, marker, inpos, out). insize - inpos)") auto

declare LZ_dump.simps [simp del]

lemma LZ_output_progress:
  "LZ_output buf m inpos left out best = Some (inpos', left', out') \<Longrightarrow> 3 < left' \<Longrightarrow> left' < left"
  by (auto simp: LZ_output_def LZ_good_match_def bind_eq_Some_conv split: prod.splits if_splits)

text \<open>
  The main loop, common to both encoders: \<open>search inpos bytesleft\<close> is the search for the best
  match at \<open>inpos\<close>, the only part in which they differ.
\<close>

function LZ_Compress_loop ::
  "(nat \<Rightarrow> nat \<Rightarrow> (nat \<times> nat) option) \<Rightarrow> byte list \<Rightarrow> nat \<Rightarrow> byte \<Rightarrow> nat \<Rightarrow> nat \<Rightarrow> byte list
    \<Rightarrow> byte list option" where
  "LZ_Compress_loop search buf insize marker inpos bytesleft out =
     do {
       best \<leftarrow> search inpos bytesleft;
       (inpos', bytesleft', out') \<leftarrow> LZ_output buf marker inpos bytesleft out best;
       if 3 < bytesleft' then LZ_Compress_loop search buf insize marker inpos' bytesleft' out'
       else LZ_dump buf insize marker inpos' out'
     }"
  by pat_completeness auto
termination
  by (relation "measure (\<lambda>(search, buf, insize, marker, inpos, bytesleft, out). bytesleft)")
    (auto dest!: LZ_output_progress)

declare LZ_Compress_loop.simps [simp del]

definition LZ_search_all :: "byte list \<Rightarrow> nat \<Rightarrow> nat \<Rightarrow> (nat \<times> nat) option" where
  "LZ_search_all buf inpos bytesleft =
     (let maxoffset = (if LZ_MAX_OFFSET < inpos then LZ_MAX_OFFSET else inpos)
      in LZ_search buf inpos bytesleft maxoffset 3 (3, 0))"

definition LZ_Compress :: "byte list \<Rightarrow> nat \<Rightarrow> byte list option" where
  "LZ_Compress buf insize =
     (if insize < 1 then Some []
      else
        let marker = find_marker (take insize buf)
        in LZ_Compress_loop (LZ_search_all buf) buf insize marker 0 insize [marker])"

subsection \<open>The encoder with a jump table\<close>

text \<open>
  The work area holds \<open>lastindex[ 65536 ]\<close> and then \<open>jumptable[ insize ]\<close>, which start with
  whatever \<open>work\<close> holds; \<open>0xffffffff\<close> stands for no index. The arrays are maps from index to value.
\<close>

definition LZ_NONE :: nat where
  "LZ_NONE = 0xffffffff"

definition LZ_jump_step ::
  "byte list \<Rightarrow> nat \<Rightarrow> (nat \<Rightarrow> nat) \<times> (nat \<Rightarrow> nat) \<Rightarrow> (nat \<Rightarrow> nat) \<times> (nat \<Rightarrow> nat)" where
  "LZ_jump_step buf i tables =
     (case tables of (lastindex, jumptable) \<Rightarrow>
        let symbols = push_bit 8 (unat (buf ! i)) OR unat (buf ! (i + 1));
            index = lastindex symbols
        in (lastindex(symbols := i), jumptable(i := index)))"

definition LZ_jumptable :: "byte list \<Rightarrow> nat \<Rightarrow> (nat \<Rightarrow> nat) \<Rightarrow> nat \<Rightarrow> nat" where
  "LZ_jumptable buf insize work =
     (case fold (LZ_jump_step buf) [0..<insize - 1] (\<lambda>_. LZ_NONE, \<lambda>i. work (65536 + i)) of
        (lastindex, jumptable) \<Rightarrow> jumptable(insize - 1 := LZ_NONE))"

definition LZ_try_index ::
  "byte list \<Rightarrow> nat \<Rightarrow> nat \<Rightarrow> nat \<Rightarrow> nat \<times> nat \<Rightarrow> (nat \<times> nat) option" where
  "LZ_try_index buf inpos bytesleft index best =
     (case best of (bestlength, bestoffset) \<Rightarrow>
        do {
          c \<leftarrow> rd buf (index + bestlength);
          d \<leftarrow> rd buf (inpos + bestlength);
          if c = d then do {
            let offset = inpos - index;
            length \<leftarrow> LZ_StringCompare buf inpos index 2 (min bytesleft offset);
            Some (if bestlength < length then (length, offset) else (bestlength, bestoffset))
          }
          else Some (bestlength, bestoffset)
        })"

partial_function (option) LZ_search_index ::
  "byte list \<Rightarrow> (nat \<Rightarrow> nat) \<Rightarrow> nat \<Rightarrow> nat \<Rightarrow> nat \<Rightarrow> nat \<times> nat \<Rightarrow> (nat \<times> nat) option" where
  "LZ_search_index buf jumptable inpos bytesleft index best =
     (if index \<noteq> LZ_NONE \<and> inpos - index < LZ_MAX_OFFSET then
        do {
          best' \<leftarrow> LZ_try_index buf inpos bytesleft index best;
          LZ_search_index buf jumptable inpos bytesleft (jumptable index) best'
        }
      else Some best)"

definition LZ_search_jump ::
  "byte list \<Rightarrow> (nat \<Rightarrow> nat) \<Rightarrow> nat \<Rightarrow> nat \<Rightarrow> (nat \<times> nat) option" where
  "LZ_search_jump buf jumptable inpos bytesleft =
     LZ_search_index buf jumptable inpos bytesleft (jumptable inpos) (3, 0)"

definition LZ_CompressFast :: "byte list \<Rightarrow> nat \<Rightarrow> (nat \<Rightarrow> nat) \<Rightarrow> byte list option" where
  "LZ_CompressFast buf insize work =
     (if insize < 1 then Some []
      else
        let jumptable = LZ_jumptable buf insize work;
            marker = find_marker (take insize buf)
        in LZ_Compress_loop (LZ_search_jump buf jumptable) buf insize marker 0 insize [marker])"

subsection \<open>The decoder\<close>

text \<open>
  \<open>out[ outpos ] = out[ outpos - offset ]\<close>, byte by byte: the source may run into the bytes the
  loop itself has written. It must lie in what has been written: not before the buffer, and not
  at \<open>outpos\<close> itself.
\<close>

fun LZ_copy :: "byte list \<Rightarrow> nat \<Rightarrow> nat \<Rightarrow> byte list option" where
  "LZ_copy out offset 0 = Some out"
| "LZ_copy out offset (Suc n) =
     (if 0 < offset \<and> offset \<le> length out
      then LZ_copy (out @ [out ! (length out - offset)]) offset n else None)"

definition LZ_Uncompress_step ::
  "byte \<Rightarrow> byte list \<Rightarrow> byte list \<Rightarrow> (byte list \<times> byte list) option" where
  "LZ_Uncompress_step marker ins out =
     (case ins of
        [] \<Rightarrow> None
      | symbol # ins \<Rightarrow>
          if symbol = marker then
            (case ins of
               [] \<Rightarrow> None
             | x # ins' \<Rightarrow>
                 if x = 0 then Some (ins', out @ [marker])
                 else do {
                   (length, ins) \<leftarrow> LZ_ReadVarSize ins;
                   (offset, ins) \<leftarrow> LZ_ReadVarSize ins;
                   out \<leftarrow> LZ_copy out (unat offset) (unat length);
                   Some (ins, out)
                 })
          else Some (ins, out @ [symbol]))"

lemma LZ_ReadVarSize_loop_length:
  "LZ_ReadVarSize_loop y ins = Some (x, ins') \<Longrightarrow> length ins' < length ins"
proof (induction y ins rule: LZ_ReadVarSize_loop.induct)
  case (2 y c ins)
  then show ?case by (auto simp: Let_def less_SucI split: if_splits)
qed simp

lemma LZ_ReadVarSize_length: "LZ_ReadVarSize ins = Some (x, ins') \<Longrightarrow> length ins' < length ins"
  by (simp add: LZ_ReadVarSize_def LZ_ReadVarSize_loop_length)

lemma LZ_Uncompress_step_length:
  "LZ_Uncompress_step m ins out = Some (ins', out') \<Longrightarrow> length ins' < length ins"
  by (auto simp: LZ_Uncompress_step_def bind_eq_Some_conv
      split: list.splits if_splits dest!: LZ_ReadVarSize_length)

function LZ_Uncompress_loop :: "byte \<Rightarrow> byte list \<Rightarrow> byte list \<Rightarrow> byte list option" where
  "LZ_Uncompress_loop marker ins out =
     (case LZ_Uncompress_step marker ins out of
        None \<Rightarrow> None
      | Some (ins', out') \<Rightarrow>
          if ins' = [] then Some out' else LZ_Uncompress_loop marker ins' out')"
  by pat_completeness auto
termination
  by (relation "measure (\<lambda>(marker, ins, out). length ins)")
    (auto dest: LZ_Uncompress_step_length)

declare LZ_Uncompress_loop.simps [simp del]

definition LZ_Uncompress :: "byte list \<Rightarrow> byte list option" where
  "LZ_Uncompress ins =
     (case ins of [] \<Rightarrow> Some [] | marker # ins \<Rightarrow> LZ_Uncompress_loop marker ins [])"

subsection \<open>The variable length integers\<close>

lemma bit_top_mask: "bit (0xfe000000 :: u32) i \<longleftrightarrow> 25 \<le> i \<and> i < 32"
proof -
  have mask: "(0xfe000000 :: u32) = NOT (mask 25)" by (simp add: mask_eq_exp_minus_1)
  show ?thesis unfolding mask by (auto simp: bit_simps)
qed

lemma drop_bit_0_iff: "drop_bit k (x :: 'a :: len word) = 0 \<longleftrightarrow> (\<forall>i\<ge>k. \<not> bit x i)"
proof
  assume *: "drop_bit k x = 0"
  show "\<forall>i\<ge>k. \<not> bit x i"
  proof (intro allI impI)
    fix i assume "k \<le> i"
    from * have "\<not> bit (drop_bit k x) (i - k)" by simp
    with \<open>k \<le> i\<close> show "\<not> bit x i" by (simp add: bit_drop_bit_eq)
  qed
qed (auto simp: bit_eq_iff bit_drop_bit_eq)

text \<open>The test of the loop in \<open>_LZ_WriteVarSize\<close>, turn by turn: are there bits for another byte?\<close>

lemma top_bits_0_iff:
  assumes "j \<le> 3" and "\<forall>i\<ge>35 - 7 * j. \<not> bit (x :: u32) i"
  shows "push_bit (7 * j) (drop_bit 3 x) AND 0xfe000000 = 0 \<longleftrightarrow> (\<forall>i\<ge>28 - 7 * j. \<not> bit x i)"
proof
  assume *: "push_bit (7 * j) (drop_bit 3 x) AND 0xfe000000 = 0"
  show "\<forall>i\<ge>28 - 7 * j. \<not> bit x i"
  proof (intro allI impI notI)
    fix i assume i: "28 - 7 * j \<le> i" and b: "bit x i"
    with assms have "i < 35 - 7 * j" by (meson not_le)
    with i assms(1) have n: "25 \<le> i + 7 * j - 3" "i + 7 * j - 3 < 32" "3 \<le> i" by auto
    from * have "\<not> bit (push_bit (7 * j) (drop_bit 3 x) AND 0xfe000000) (i + 7 * j - 3)" by simp
    then have "\<not> bit (push_bit (7 * j) (drop_bit 3 x)) (i + 7 * j - 3)"
      unfolding bit_and_iff bit_top_mask using n by blast
    with n b show False by (simp add: bit_simps)
  qed
next
  assume "\<forall>i\<ge>28 - 7 * j. \<not> bit x i"
  then have "\<not> bit (push_bit (7 * j) (drop_bit 3 x) AND 0xfe000000) n" for n
    unfolding bit_and_iff bit_top_mask by (auto simp: bit_simps)
  then show "push_bit (7 * j) (drop_bit 3 x) AND 0xfe000000 = 0"
    by (simp add: bit_eq_iff)
qed

lemma LZ_num_bytes_eq:
  "LZ_num_bytes (drop_bit 3 x) 5 =
     (if drop_bit 28 x \<noteq> 0 then 5 else if drop_bit 21 x \<noteq> 0 then 4
      else if drop_bit 14 x \<noteq> 0 then 3 else if drop_bit 7 x \<noteq> 0 then 2 else 1)"
proof -
  have "\<forall>i\<ge>35. \<not> bit x i" by (auto dest: bit_imp_le_length)
  then show ?thesis
    using top_bits_0_iff [of 0 x] top_bits_0_iff [of 1 x] top_bits_0_iff [of 2 x]
      top_bits_0_iff [of 3 x]
    by (simp add: LZ_num_bytes.simps [of _ 5] LZ_num_bytes.simps [of _ 4]
        LZ_num_bytes.simps [of _ 3] LZ_num_bytes.simps [of _ 2] LZ_num_bytes.simps [of _ 1]
        LZ_num_bytes.simps [of _ "Suc 0"] push_bit_push_bit drop_bit_0_iff)
qed

text \<open>The number of bytes, by value.\<close>

lemma drop_bit_0_nat: "drop_bit k (x :: u32) = 0 \<longleftrightarrow> unat x < 2 ^ k"
proof -
  have "unat (drop_bit k x) = unat x div 2 ^ k"
    by (simp only: unat_drop_bit_eq) (simp only: drop_bit_eq_div)
  then show ?thesis by (simp add: word_unat_eq_iff div_eq_0_iff)
qed

lemma length_LZ_WriteVarSize:
  "length (LZ_WriteVarSize x) =
     (if unat x < 2 ^ 7 then 1 else if unat x < 2 ^ 14 then 2 else if unat x < 2 ^ 21 then 3
      else if unat x < 2 ^ 28 then 4 else 5)"
  by (simp add: LZ_WriteVarSize_def LZ_num_bytes_eq drop_bit_0_nat)

text \<open>A byte of seven bits and a flag, read back.\<close>

lemma mask_7f: "(0x7f :: 'a :: len word) = mask 7"
  and flag_80: "(0x80 :: 'a :: len word) = 2 ^ 7"
  by (simp_all add: mask_eq_exp_minus_1)

lemma flagged_bits_read:
  fixes v :: u32
  assumes "k < 8"
  shows "(ucast (ucast ((v AND mask k) OR (if more then 2 ^ k else 0)) :: byte) :: u32) AND mask k
      = v AND mask k"
    and "(ucast (ucast ((v AND mask k) OR (if more then 2 ^ k else 0)) :: byte) :: u32) AND 2 ^ k
      = (if more then 2 ^ k else 0)"
  using assms by (auto intro!: bit_word_eqI simp: bit_simps)

lemmas seven_bits_read = flagged_bits_read [of 7, folded mask_7f flag_80, simplified]

lemma seven_bits_join: "push_bit 7 (drop_bit (k + 7) x) OR (drop_bit k x AND 0x7f) = drop_bit k (x :: u32)"
  unfolding mask_7f by (rule bit_word_eqI) (auto simp: bit_simps algebra_simps)

lemma LZ_ReadVarSize_loop_Write:
  "LZ_ReadVarSize_loop (drop_bit (Suc n * 7) x)
     (map (\<lambda>i. ucast ((drop_bit (i * 7) x AND 0x7f) OR (if 0 < i then 0x80 else 0))) (rev [0..<Suc n]) @ r)
   = Some (x, r)"
proof (induction n)
  case 0
  show ?case
    using seven_bits_read [of x False] seven_bits_join [of 0 x] by (simp add: Let_def)
next
  case (Suc n)
  have "push_bit 7 (drop_bit (Suc (Suc n) * 7) x) OR (drop_bit (Suc n * 7) x AND 0x7f)
      = drop_bit (Suc n * 7) x"
    using seven_bits_join [of "Suc n * 7" x] by (simp add: algebra_simps)
  with Suc seven_bits_read [of "drop_bit (Suc n * 7) x" True] show ?case
    by (simp add: Let_def)
qed

lemma LZ_ReadVarSize_Write: "LZ_ReadVarSize (LZ_WriteVarSize x @ r) = Some (x, r)"
proof -
  let ?n = "LZ_num_bytes (drop_bit 3 x) 5"
  have "?n = Suc (?n - 1)" and "drop_bit (?n * 7) x = 0"
    by (simp_all add: LZ_num_bytes_eq drop_bit_0_iff) (auto dest: bit_imp_le_length)
  then show ?thesis
    using LZ_ReadVarSize_loop_Write [of "?n - 1" x r]
    by (simp add: LZ_ReadVarSize_def LZ_WriteVarSize_def)
qed

text \<open>The decoder tells an escaped marker from a match by the first byte of the length.\<close>

lemma LZ_WriteVarSize_first:
  assumes "x \<noteq> 0"
  shows "\<exists>c cs. LZ_WriteVarSize x = c # cs \<and> c \<noteq> 0"
proof -
  let ?n = "LZ_num_bytes (drop_bit 3 x) 5"
  obtain k where k: "?n = Suc k" by (cases ?n) (simp_all add: LZ_num_bytes_eq split: if_splits)
  define c :: byte where
    "c = ucast ((drop_bit (k * 7) x AND 0x7f) OR (if 0 < k then 0x80 else 0))"
  have low: "(ucast c :: u32) AND 0x7f = drop_bit (k * 7) x AND 0x7f"
    and flag: "(ucast c :: u32) AND 0x80 = (if 0 < k then 0x80 else 0)"
    unfolding c_def by (rule seven_bits_read)+
  have "c \<noteq> 0"
  proof (cases "0 < k")
    case True
    with flag show ?thesis by auto
  next
    case False
    with k have one: "LZ_num_bytes (drop_bit 3 x) 5 = 1" by simp
    have "drop_bit 7 x = 0"
    proof (rule ccontr)
      assume "drop_bit 7 x \<noteq> 0"
      then have "LZ_num_bytes (drop_bit 3 x) 5 \<noteq> 1" unfolding LZ_num_bytes_eq by simp
      with one show False by blast
    qed
    then have "x AND 0x7f = x"
      unfolding mask_7f drop_bit_0_iff by (intro bit_word_eqI) (auto simp: bit_simps, meson not_less)
    with False low assms show ?thesis by auto
  qed
  with k show ?thesis by (simp add: LZ_WriteVarSize_def c_def)
qed

subsection \<open>What a stretch of code decodes to\<close>

definition LZ_cont :: "byte \<Rightarrow> byte list \<Rightarrow> byte list \<Rightarrow> byte list option" where
  "LZ_cont marker ins out = (if ins = [] then Some out else LZ_Uncompress_loop marker ins out)"

interpretation lz_dec: stream_decoder "LZ_cont marker" for marker
  by unfold_locales (simp add: LZ_cont_def)

lemma LZ_Uncompress_cont: "ins \<noteq> [] \<Longrightarrow> LZ_Uncompress (marker # ins) = LZ_cont marker ins []"
  by (simp add: LZ_Uncompress_def LZ_cont_def)

text \<open>
  \<open>LZ_codes m buf p q c\<close>: with the first \<open>p\<close> bytes of \<open>buf\<close> decoded, the code \<open>c\<close> makes the decoder
  append the bytes from \<open>p\<close> to \<open>q\<close>; \<open>c\<close> is longer than them by at most their marker bytes.
\<close>

definition slice :: "'a list \<Rightarrow> nat \<Rightarrow> nat \<Rightarrow> 'a list" where
  "slice xs p q = take (q - p) (drop p xs)"

lemma slice_append: "p \<le> q \<Longrightarrow> q \<le> r \<Longrightarrow> slice xs p q @ slice xs q r = slice xs p r"
  using take_add [of "q - p" "r - q" "drop p xs"] by (simp add: slice_def add.commute)

lemma slice_same [simp]: "slice xs p p = []"
  by (simp add: slice_def)

lemma slice_Suc: "p < length xs \<Longrightarrow> slice xs p (Suc p) = [xs ! p]"
  by (simp add: slice_def Suc_diff_Suc take_Suc_conv_app_nth)

lemma take_slice: "p \<le> q \<Longrightarrow> take p xs @ slice xs p q = take q xs"
  using slice_append [of 0 p q xs] by (simp add: slice_def)

definition LZ_codes :: "byte \<Rightarrow> byte list \<Rightarrow> nat \<Rightarrow> nat \<Rightarrow> byte list \<Rightarrow> bool" where
  "LZ_codes m buf p q c \<longleftrightarrow>
     p \<le> q \<and> emits (LZ_cont m) c (take p buf) (take q buf) \<and>
     length c \<le> (q - p) + count_list (slice buf p q) m"

lemma LZ_codes_Nil [simp]: "LZ_codes m buf p p []"
  by (simp add: LZ_codes_def emits_Nil)

lemma LZ_codes_append:
  assumes "LZ_codes m buf p q c" and "LZ_codes m buf q r d"
  shows "LZ_codes m buf p r (c @ d)"
  using assms slice_append [of p q r buf, symmetric]
  by (auto simp: LZ_codes_def intro: emits_append)

lemma LZ_codes_step:
  assumes "\<And>r. LZ_Uncompress_step m (c @ r) (take p buf) = Some (r, take q buf)"
    and "p \<le> q" and "length c \<le> (q - p) + count_list (slice buf p q) m"
  shows "LZ_codes m buf p q c"
proof -
  from assms(1) [of "[]"] have "c \<noteq> []" by (auto simp: LZ_Uncompress_step_def)
  then show ?thesis
    using assms by (auto simp: LZ_codes_def emits_def LZ_cont_def LZ_Uncompress_loop.simps)
qed

lemma LZ_codes_literal:
  assumes "p < length buf"
  shows "LZ_codes m buf p (Suc p) ([buf ! p] @ (if buf ! p = m then [0] else []))"
  using assms
  by (intro LZ_codes_step) (auto simp: LZ_Uncompress_step_def slice_Suc take_Suc_conv_app_nth)

lemma LZ_copy_slice:
  assumes "n \<le> offset" and "offset \<le> length out" and "0 < offset"
  shows "LZ_copy out offset n = Some (out @ take n (drop (length out - offset) out))"
  using assms
proof (induction n arbitrary: out)
  case (Suc n)
  let ?k = "length out - offset"
  have "?k < length out" using Suc.prems by simp
  then have "take (Suc n) (drop ?k out) = out ! ?k # take n (drop (Suc ?k) out)"
    by (simp flip: Cons_nth_drop_Suc)
  with Suc.prems show ?case
    using Suc.IH [of "out @ [out ! ?k]"] by (simp add: Suc_diff_le)
qed simp

text \<open>What a search may return: no match, or a match of the bytes at \<open>inpos\<close> further up.\<close>

definition LZ_match :: "byte list \<Rightarrow> nat \<Rightarrow> nat \<Rightarrow> nat \<times> nat \<Rightarrow> bool" where
  "LZ_match buf inpos bytesleft best \<longleftrightarrow>
     best = (3, 0) \<or>
     (case best of (len, off) \<Rightarrow>
        3 < len \<and> len \<le> bytesleft \<and> len \<le> off \<and> off \<le> inpos \<and> off \<le> LZ_MAX_OFFSET
        \<and> (\<forall>j<len. buf ! (inpos + j) = buf ! (inpos - off + j)))"

lemma LZ_match_slice:
  assumes "\<forall>j<len. buf ! (p + j) = buf ! (p - off + j)" and "len \<le> off" and "off \<le> p"
    and "p + len \<le> length buf"
  shows "take len (drop (p - off) (take p buf)) = slice buf p (p + len)"
  using assms by (intro nth_equalityI) (auto simp: slice_def)

lemma LZ_codes_match:
  assumes match: "LZ_match buf p left (len, off)" and good: "LZ_good_match len off"
    and fits: "p + left \<le> length buf" and small: "p + left < 2 ^ 32"
  shows "LZ_codes m buf p (p + len)
    ([m] @ LZ_WriteVarSize (word_of_nat len) @ LZ_WriteVarSize (word_of_nat off))"
proof (rule LZ_codes_step)
  from match good have m: "3 < len" "len \<le> left" "len \<le> off" "off \<le> p" "off \<le> LZ_MAX_OFFSET"
    "\<forall>j<len. buf ! (p + j) = buf ! (p - off + j)"
    by (auto simp: LZ_match_def LZ_good_match_def)
  have u: "unat (word_of_nat len :: u32) = len" "unat (word_of_nat off :: u32) = off"
    using m small by (simp_all add: unat_of_nat)
  then have "(word_of_nat len :: u32) \<noteq> 0" using m(1) by auto
  then obtain c cs where c: "LZ_WriteVarSize (word_of_nat len) = c # cs" "c \<noteq> 0"
    using LZ_WriteVarSize_first by blast
  have copy: "LZ_copy (take p buf) off len = Some (take (p + len) buf)"
    using m fits LZ_copy_slice [of len off "take p buf"] LZ_match_slice [of len buf p off]
    by (simp add: take_slice)
  show "LZ_Uncompress_step m
      (([m] @ LZ_WriteVarSize (word_of_nat len) @ LZ_WriteVarSize (word_of_nat off)) @ r)
      (take p buf) = Some (r, take (p + len) buf)" for r
    using LZ_ReadVarSize_Write [of "word_of_nat len"] LZ_ReadVarSize_Write [of "word_of_nat off"]
      c copy u
    by (simp add: LZ_Uncompress_step_def)
  show "length ([m] @ LZ_WriteVarSize (word_of_nat len) @ LZ_WriteVarSize (word_of_nat off))
      \<le> p + len - p + count_list (slice buf p (p + len)) m"
    using m(1,5) good u by (auto simp: length_LZ_WriteVarSize LZ_good_match_def LZ_MAX_OFFSET_def)
qed simp

lemma LZ_dump_codes:
  assumes "inpos \<le> insize" and "insize \<le> length buf"
  shows "\<exists>c. LZ_dump buf insize m inpos out = Some (out @ c) \<and> LZ_codes m buf inpos insize c"
  using assms
proof (induction "insize - inpos" arbitrary: inpos out)
  case 0
  then show ?case by (subst LZ_dump.simps) simp
next
  case (Suc k)
  then have pos: "inpos < insize" "inpos < length buf" by auto
  let ?x = "if buf ! inpos = m then [m, 0] else [buf ! inpos]"
  have "k = insize - Suc inpos" using Suc.hyps(2) by simp
  from Suc.hyps(1) [OF this, of "out @ ?x"] Suc.prems pos
  obtain c where c: "LZ_dump buf insize m (Suc inpos) (out @ ?x) = Some ((out @ ?x) @ c)"
    "LZ_codes m buf (Suc inpos) insize c"
    by auto
  have "LZ_codes m buf inpos (Suc inpos) ?x"
    using LZ_codes_literal [OF pos(2), of m] by (auto split: if_splits)
  from LZ_codes_append [OF this c(2)] c(1) pos show ?case
    by (subst LZ_dump.simps) auto
qed

subsection \<open>The main loop, for any sound search\<close>

text \<open>
  The interface between the main loop and a search: at a position of the loop (\<open>inpos\<close> bytes
  done, \<open>bytesleft\<close> to go, more than three of them unless nothing has been done) the search
  returns a match, and it returns when the buffer holds one byte more than \<open>insize\<close>.
\<close>

definition LZ_at :: "byte list \<Rightarrow> nat \<Rightarrow> nat \<Rightarrow> nat \<Rightarrow> bool" where
  "LZ_at buf insize inpos bytesleft \<longleftrightarrow>
     inpos + bytesleft = insize \<and> insize \<le> length buf \<and> 0 < bytesleft \<and> (inpos = 0 \<or> 3 < bytesleft)"

locale match_finder =
  fixes search :: "byte list \<Rightarrow> nat \<Rightarrow> nat \<Rightarrow> nat \<Rightarrow> (nat \<times> nat) option"
  assumes search_sound:
      "LZ_at buf insize inpos left \<Longrightarrow> search buf insize inpos left = Some best
        \<Longrightarrow> LZ_match buf inpos left best"
    and search_total:
      "LZ_at buf insize inpos left \<Longrightarrow> insize < length buf
        \<Longrightarrow> \<exists>best. search buf insize inpos left = Some best"
begin

lemma output_codes:
  assumes "LZ_at buf insize p left" and "LZ_match buf p left best" and "insize < 2 ^ 32"
  shows "\<exists>p' left' c. LZ_output buf m p left out best = Some (p', left', out @ c)
    \<and> LZ_codes m buf p p' c \<and> p' + left' = insize \<and> p < p'"
proof (cases best)
  case (Pair len off)
  show ?thesis
  proof (cases "LZ_good_match len off")
    case True
    with assms Pair have "len \<le> left" "0 < len"
      by (auto simp: LZ_match_def LZ_good_match_def)
    moreover have "LZ_codes m buf p (p + len)
      ([m] @ LZ_WriteVarSize (word_of_nat len) @ LZ_WriteVarSize (word_of_nat off))"
      using assms Pair True by (intro LZ_codes_match [of buf p left]) (auto simp: LZ_at_def)
    ultimately show ?thesis
      using assms(1) Pair True by (auto simp: LZ_output_def LZ_at_def)
  next
    case False
    from assms(1) have "p < length buf" by (auto simp: LZ_at_def)
    with assms(1) Pair False LZ_codes_literal [of p buf m] show ?thesis
      by (auto simp: LZ_output_def LZ_at_def)
  qed
qed

lemma loop_codes:
  assumes "LZ_Compress_loop (search buf insize) buf insize m p left out = Some res"
    and "LZ_at buf insize p left" and "insize < 2 ^ 32"
  shows "\<exists>c. res = out @ c \<and> LZ_codes m buf p insize c"
  using assms
proof (induction left arbitrary: p out rule: less_induct)
  case (less left)
  from less.prems(1) obtain best where best: "search buf insize p left = Some best"
    by (subst (asm) LZ_Compress_loop.simps) (auto simp: bind_eq_Some_conv)
  from output_codes [OF less.prems(2) search_sound [OF less.prems(2) best] less.prems(3), of m out]
  obtain p' left' c where step: "LZ_output buf m p left out best = Some (p', left', out @ c)"
    "LZ_codes m buf p p' c" "p' + left' = insize" "p < p'" by blast
  have "insize \<le> length buf" using less.prems(2) by (simp add: LZ_at_def)
  have "\<exists>d. res = (out @ c) @ d \<and> LZ_codes m buf p' insize d"
  proof (cases "3 < left'")
    case True
    with less.prems(1) best step have
      "LZ_Compress_loop (search buf insize) buf insize m p' left' (out @ c) = Some res"
      by (subst (asm) LZ_Compress_loop.simps) simp
    moreover have "left' < left" using step(3,4) less.prems(2) True by (simp add: LZ_at_def)
    moreover have "LZ_at buf insize p' left'"
      using less.prems(2) step(3) True by (simp add: LZ_at_def)
    ultimately show ?thesis
      using less.IH [of left' p' "out @ c"] less.prems(3) by blast
  next
    case False
    with less.prems(1) best step have "LZ_dump buf insize m p' (out @ c) = Some res"
      by (subst (asm) LZ_Compress_loop.simps) simp
    with LZ_dump_codes [of p' insize buf m "out @ c"] step(3) \<open>insize \<le> length buf\<close>
    show ?thesis by auto
  qed
  with LZ_codes_append [OF step(2)] show ?case by force
qed

lemma loop_total:
  assumes "LZ_at buf insize p left" and "insize < length buf" and "insize < 2 ^ 32"
  shows "LZ_Compress_loop (search buf insize) buf insize m p left out \<noteq> None"
  using assms
proof (induction left arbitrary: p out rule: less_induct)
  case (less left)
  from search_total [OF less.prems(1,2)] obtain best
    where best: "search buf insize p left = Some best" by blast
  from output_codes [OF less.prems(1) search_sound [OF less.prems(1) best] less.prems(3), of m out]
  obtain p' left' c where step: "LZ_output buf m p left out best = Some (p', left', out @ c)"
    "p' + left' = insize" "p < p'" by blast
  show ?case
  proof (cases "3 < left'")
    case True
    with step less.prems have "left' < left" "LZ_at buf insize p' left'" by (auto simp: LZ_at_def)
    with less.IH less.prems step best True show ?thesis
      by (subst LZ_Compress_loop.simps) simp
  next
    case False
    with LZ_dump_codes [of p' insize buf m "out @ c"] step best less.prems(2) show ?thesis
      by (subst LZ_Compress_loop.simps) auto
  qed
qed

text \<open>What the decoder makes of an encoder built on the search.\<close>

lemma compressed_decodes:
  assumes "LZ_Compress_loop (search buf insize) buf insize m 0 insize [m] = Some res"
    and "0 < insize" and "insize \<le> length buf" and "insize < 2 ^ 32"
  shows "LZ_Uncompress res = Some (take insize buf)"
    and "length res \<le> 1 + insize + count_list (take insize buf) m"
proof -
  have "LZ_at buf insize 0 insize" using assms by (simp add: LZ_at_def)
  from loop_codes [OF assms(1) this assms(4)] obtain c where
    c: "res = [m] @ c" "LZ_codes m buf 0 insize c" by blast
  then have e: "emits (LZ_cont m) c [] (take insize buf)" by (simp add: LZ_codes_def)
  then have "LZ_cont m c [] = Some (take insize buf)" by (rule lz_dec.decodes_to)
  moreover have "c \<noteq> []"
    using calculation assms(2,3) by (auto simp: LZ_cont_def)
  ultimately show "LZ_Uncompress res = Some (take insize buf)"
    by (simp add: c LZ_Uncompress_cont)
  show "length res \<le> 1 + insize + count_list (take insize buf) m"
    using c by (simp add: LZ_codes_def slice_def)
qed

end

subsection \<open>The exhaustive search is sound\<close>

lemma LZ_StringCompare_loop_correct:
  assumes "len \<le> maxlen" and "str1 + maxlen \<le> length buf" and "str2 + maxlen \<le> length buf"
  shows "\<exists>n. LZ_StringCompare_loop buf str1 str2 len maxlen = Some n \<and> len \<le> n \<and> n \<le> maxlen
    \<and> (\<forall>j. len \<le> j \<and> j < n \<longrightarrow> buf ! (str1 + j) = buf ! (str2 + j))"
  using assms
proof (induction "maxlen - len" arbitrary: len)
  case 0
  then show ?case by (subst LZ_StringCompare_loop.simps) auto
next
  case (Suc k)
  then have "len < maxlen" by simp
  show ?case
  proof (cases "buf ! (str1 + len) = buf ! (str2 + len)")
    case True
    have "k = maxlen - Suc len" using Suc.hyps(2) by simp
    from Suc.hyps(1) [OF this] Suc.prems \<open>len < maxlen\<close> obtain n where
      n: "LZ_StringCompare_loop buf str1 str2 (Suc len) maxlen = Some n" "Suc len \<le> n" "n \<le> maxlen"
      "\<forall>j. Suc len \<le> j \<and> j < n \<longrightarrow> buf ! (str1 + j) = buf ! (str2 + j)"
      by auto
    have "buf ! (str1 + j) = buf ! (str2 + j)" if "len \<le> j" "j < n" for j
      using that n(4) True by (cases "j = len") auto
    with n Suc.prems \<open>len < maxlen\<close> True show ?thesis
      by (subst LZ_StringCompare_loop.simps) auto
  next
    case False
    with Suc.prems \<open>len < maxlen\<close> show ?thesis
      by (subst LZ_StringCompare_loop.simps) auto
  qed
qed

text \<open>The bounds of a comparison in either search, and the new best match.\<close>

lemma LZ_compare_match:
  assumes at: "inpos + left \<le> length buf" and off: "0 < off" "off \<le> inpos"
    and best: "LZ_match buf inpos left best"
    and len: "LZ_StringCompare buf inpos (inpos - off) minlen (min left off) = Some len"
    and pre: "\<forall>j<minlen. buf ! (inpos + j) = buf ! (inpos - off + j)" and "minlen \<le> 3"
    and max: "off \<le> LZ_MAX_OFFSET" and longer: "fst best < len"
  shows "LZ_match buf inpos left (len, off)"
proof -
  have "3 < len" using best longer by (auto simp: LZ_match_def)
  have le: "minlen \<le> min left off"
  proof (rule ccontr)
    assume "\<not> minlen \<le> min left off"
    then have "\<not> minlen < min left off" by linarith
    with len have "len = minlen"
      by (simp only: LZ_StringCompare_def LZ_StringCompare_loop.simps [of _ _ _ minlen] if_False) simp
    with \<open>3 < len\<close> \<open>minlen \<le> 3\<close> show False by simp
  qed
  from LZ_StringCompare_loop_correct [OF le, of inpos buf "inpos - off"] at off len
  have n: "minlen \<le> len" "len \<le> min left off"
    "\<forall>j. minlen \<le> j \<and> j < len \<longrightarrow> buf ! (inpos + j) = buf ! (inpos - off + j)"
    by (auto simp: LZ_StringCompare_def)
  have "buf ! (inpos + j) = buf ! (inpos - off + j)" if "j < len" for j
    using that n(3) pre by (cases "j < minlen") auto
  with n(2) \<open>3 < len\<close> off max show ?thesis by (auto simp: LZ_match_def)
qed

lemma LZ_compare_total:
  assumes "inpos + left \<le> length buf" and "off \<le> inpos"
  shows "\<exists>len. LZ_StringCompare buf inpos (inpos - off) minlen (min left off) = Some len"
proof (cases "minlen \<le> min left off")
  case True
  have "inpos + min left off \<le> length buf" "inpos - off + min left off \<le> length buf"
    using assms by auto
  from LZ_StringCompare_loop_correct [OF True this] show ?thesis
    by (auto simp: LZ_StringCompare_def)
next
  case False
  then have "\<not> minlen < min left off" by linarith
  then show ?thesis
    by (simp only: LZ_StringCompare_def LZ_StringCompare_loop.simps [of _ _ _ minlen] if_False) simp
qed

lemma LZ_try_offset_sound:
  assumes "LZ_try_offset buf inpos left off best = Some best'"
    and "inpos + left \<le> length buf" and "0 < off" "off \<le> inpos" "off \<le> LZ_MAX_OFFSET"
    and "LZ_match buf inpos left best"
  shows "LZ_match buf inpos left best'"
  using assms LZ_compare_match [of inpos left buf off best 0]
  by (auto simp: LZ_try_offset_def bind_eq_Some_conv split: prod.splits if_splits)

lemma LZ_match_best_le:
  assumes "LZ_match buf inpos left best" and "3 < left"
  shows "fst best \<le> left"
  using assms by (auto simp: LZ_match_def)

lemma LZ_try_offset_total:
  assumes "inpos + left < length buf" and "3 < left" and "0 < off" "off \<le> inpos"
    and "LZ_match buf inpos left best"
  shows "\<exists>best'. LZ_try_offset buf inpos left off best = Some best'"
proof -
  obtain len0 off0 where b: "best = (len0, off0)" by (cases best)
  with LZ_match_best_le [OF assms(5,2)] have "len0 \<le> left" by simp
  with assms LZ_compare_total [of inpos left buf off 0] show ?thesis
    by (auto simp: LZ_try_offset_def b)
qed

lemma LZ_search_sound:
  assumes "LZ_search buf inpos left maxoffset off best = Some best'"
    and "inpos + left \<le> length buf" and "0 < off" "maxoffset \<le> inpos" "maxoffset \<le> LZ_MAX_OFFSET"
    and "LZ_match buf inpos left best"
  shows "LZ_match buf inpos left best'"
  using assms
proof (induction buf inpos left maxoffset off best rule: LZ_search.induct)
  case (1 buf inpos left maxoffset off best)
  show ?case
  proof (cases "off \<le> maxoffset")
    case True
    with "1.prems"(1) obtain b where b: "LZ_try_offset buf inpos left off best = Some b"
      "LZ_search buf inpos left maxoffset (off + 1) b = Some best'"
      by (subst (asm) LZ_search.simps) (auto simp: bind_eq_Some_conv)
    have "LZ_match buf inpos left b"
      using LZ_try_offset_sound [OF b(1)] True "1.prems" by auto
    with "1.IH" [OF True b(1)] b(2) "1.prems" show ?thesis by blast
  next
    case False
    with "1.prems" show ?thesis by (subst (asm) LZ_search.simps) simp
  qed
qed

lemma LZ_search_total:
  assumes "inpos + left < length buf" and "3 < left" and "0 < off" "maxoffset \<le> inpos"
    and "maxoffset \<le> LZ_MAX_OFFSET" and "LZ_match buf inpos left best"
  shows "\<exists>best'. LZ_search buf inpos left maxoffset off best = Some best'"
  using assms
proof (induction buf inpos left maxoffset off best rule: LZ_search.induct)
  case (1 buf inpos left maxoffset off best)
  show ?case
  proof (cases "off \<le> maxoffset")
    case True
    with "1.prems" LZ_try_offset_total [of inpos left buf off best] obtain b
      where b: "LZ_try_offset buf inpos left off best = Some b" by auto
    have "LZ_match buf inpos left b"
      using LZ_try_offset_sound [OF b] True "1.prems" by auto
    with "1.IH" [OF True b] b "1.prems" True show ?thesis
      by (subst LZ_search.simps) auto
  next
    case False
    then show ?thesis by (subst LZ_search.simps) simp
  qed
qed

lemma LZ_match_none: "LZ_match buf inpos left (3, 0)"
  by (simp add: LZ_match_def)

interpretation lz_all: match_finder "\<lambda>buf insize inpos left. LZ_search_all buf inpos left"
proof (unfold_locales, goal_cases)
  case (1 buf insize inpos left best)
  then show ?case
    using LZ_search_sound [OF _ _ _ _ _ LZ_match_none]
    by (auto simp: LZ_search_all_def LZ_at_def split: if_splits)
next
  case (2 buf insize inpos left)
  show ?case
  proof (cases "inpos = 0")
    case True
    then show ?thesis by (simp add: LZ_search_all_def LZ_search.simps)
  next
    case False
    with 2 show ?thesis
      using LZ_search_total [OF _ _ _ _ _ LZ_match_none, of inpos left buf 3]
      by (auto simp: LZ_search_all_def LZ_at_def Let_def)
  qed
qed

subsection \<open>The search along the jump table is sound\<close>

definition LZ_pair :: "byte list \<Rightarrow> nat \<Rightarrow> nat" where
  "LZ_pair buf i = push_bit 8 (unat (buf ! i)) OR unat (buf ! (i + 1))"

lemma LZ_pair_sum: "LZ_pair buf i = unat (buf ! i) * 256 + unat (buf ! (i + 1))"
proof -
  have "push_bit 8 (unat (buf ! i)) AND unat (buf ! (i + 1)) = 0"
  proof (rule bit_eqI)
    fix n
    have "\<not> bit (unat (buf ! (i + 1))) n" if "8 \<le> n"
      using that bit_imp_le_length [of "buf ! (i + 1)" n] by (auto simp: bit_unsigned_iff)
    then show "bit (push_bit 8 (unat (buf ! i)) AND unat (buf ! (i + 1))) n = bit 0 n"
      by (auto simp: bit_simps)
  qed
  then show ?thesis
    by (simp add: LZ_pair_def push_bit_eq_mult flip: disjunctive_add_eq_or)
qed

lemma LZ_pair_eq: "LZ_pair buf i = LZ_pair buf j \<longleftrightarrow> buf ! i = buf ! j \<and> buf ! (i + 1) = buf ! (j + 1)"
proof
  assume "LZ_pair buf i = LZ_pair buf j"
  then have "(unat (buf ! i) * 256 + unat (buf ! (i + 1))) div 256 = (unat (buf ! j) * 256 + unat (buf ! (j + 1))) div 256"
    and "(unat (buf ! i) * 256 + unat (buf ! (i + 1))) mod 256 = (unat (buf ! j) * 256 + unat (buf ! (j + 1))) mod 256"
    by (simp_all add: LZ_pair_sum)
  then show "buf ! i = buf ! j \<and> buf ! (i + 1) = buf ! (j + 1)"
    by (auto intro: unsigned_word_eqI)
qed (simp add: LZ_pair_def)

text \<open>\<open>LZ_nearest f n s k\<close>: \<open>k\<close> is the last index below \<open>n\<close> where \<open>f\<close> is \<open>s\<close>, or no index.\<close>

definition LZ_nearest :: "(nat \<Rightarrow> nat) \<Rightarrow> nat \<Rightarrow> nat \<Rightarrow> nat \<Rightarrow> bool" where
  "LZ_nearest f n s k \<longleftrightarrow>
     (k = LZ_NONE \<and> (\<forall>j<n. f j \<noteq> s)) \<or> (k < n \<and> f k = s \<and> (\<forall>j. k < j \<and> j < n \<longrightarrow> f j \<noteq> s))"

lemma LZ_nearest_Suc:
  "LZ_nearest f n s k \<Longrightarrow> LZ_nearest f (Suc n) s (if f n = s then n else k)"
  by (auto simp: LZ_nearest_def less_Suc_eq)

lemma LZ_jump_fold:
  assumes "fold (LZ_jump_step buf) [0..<n] (\<lambda>_. LZ_NONE, j0) = (lastindex, jumptable)"
  shows "(\<forall>s. LZ_nearest (LZ_pair buf) n s (lastindex s))
    \<and> (\<forall>i<n. LZ_nearest (LZ_pair buf) i (LZ_pair buf i) (jumptable i))"
  using assms
proof (induction n arbitrary: lastindex jumptable)
  case 0
  then show ?case by (auto simp: LZ_nearest_def)
next
  case (Suc n)
  obtain l j where lj: "fold (LZ_jump_step buf) [0..<n] (\<lambda>_. LZ_NONE, j0) = (l, j)"
    by (metis surj_pair)
  note IH = Suc.IH [OF lj]
  have "LZ_jump_step buf n (l, j) = (l(LZ_pair buf n := n), j(n := l (LZ_pair buf n)))"
    by (simp add: LZ_jump_step_def LZ_pair_def Let_def)
  with Suc.prems lj have eq: "lastindex = l(LZ_pair buf n := n)" "jumptable = j(n := l (LZ_pair buf n))"
    by simp_all
  have "LZ_nearest (LZ_pair buf) (Suc n) s (lastindex s)" for s
    using LZ_nearest_Suc [of "LZ_pair buf" n s "l s"] IH by (auto simp: eq)
  moreover have "LZ_nearest (LZ_pair buf) i (LZ_pair buf i) (jumptable i)" if "i < Suc n" for i
    using that IH by (auto simp: eq less_Suc_eq)
  ultimately show ?case by blast
qed

lemma LZ_jumptable_nearest:
  assumes "i < insize - 1"
  shows "LZ_nearest (LZ_pair buf) i (LZ_pair buf i) (LZ_jumptable buf insize work i)"
proof -
  obtain l j where lj:
    "fold (LZ_jump_step buf) [0..<insize - 1] (\<lambda>_. LZ_NONE, \<lambda>i. work (65536 + i)) = (l, j)"
    by (metis surj_pair)
  from LZ_jump_fold [OF lj] assms lj show ?thesis by (simp add: LZ_jumptable_def)
qed

lemma LZ_jumptable_last: "LZ_jumptable buf insize work (insize - 1) = LZ_NONE"
  by (simp add: LZ_jumptable_def split: prod.splits)

text \<open>An index the search may stand at: none, or an earlier place with the same pair of bytes.\<close>

definition LZ_candidate :: "byte list \<Rightarrow> nat \<Rightarrow> nat \<Rightarrow> bool" where
  "LZ_candidate buf inpos index \<longleftrightarrow>
     index = LZ_NONE \<or> index < inpos \<and> LZ_pair buf index = LZ_pair buf inpos"

lemma LZ_candidate_start:
  assumes "inpos < insize"
  shows "LZ_candidate buf inpos (LZ_jumptable buf insize work inpos)"
proof (cases "inpos = insize - 1")
  case True
  then show ?thesis using LZ_jumptable_last [of buf insize work] by (simp add: LZ_candidate_def)
next
  case False
  with assms LZ_jumptable_nearest [of inpos insize buf work] show ?thesis
    by (auto simp: LZ_candidate_def LZ_nearest_def)
qed

lemma LZ_candidate_jump:
  assumes "LZ_candidate buf inpos index" and "index \<noteq> LZ_NONE" and "inpos < insize"
  shows "LZ_candidate buf inpos (LZ_jumptable buf insize work index)"
    and "LZ_jumptable buf insize work index \<noteq> LZ_NONE \<Longrightarrow> LZ_jumptable buf insize work index < index"
proof -
  from assms have "index < inpos" "index < insize - 1" by (auto simp: LZ_candidate_def)
  with assms LZ_jumptable_nearest [of index insize buf work]
  show "LZ_candidate buf inpos (LZ_jumptable buf insize work index)"
    and "LZ_jumptable buf insize work index \<noteq> LZ_NONE \<Longrightarrow> LZ_jumptable buf insize work index < index"
    by (auto simp: LZ_candidate_def LZ_nearest_def)
qed

lemma LZ_try_index_sound:
  assumes "LZ_try_index buf inpos left index best = Some best'"
    and "inpos + left \<le> length buf" and "LZ_candidate buf inpos index" and "index \<noteq> LZ_NONE"
    and "inpos - index < LZ_MAX_OFFSET" and "LZ_match buf inpos left best"
  shows "LZ_match buf inpos left best'"
proof -
  from assms(3,4) have c: "index < inpos" "buf ! index = buf ! inpos" "buf ! (index + 1) = buf ! (inpos + 1)"
    by (auto simp: LZ_candidate_def LZ_pair_eq)
  have pre: "buf ! (inpos + j) = buf ! (inpos - (inpos - index) + j)" if "j < 2" for j
    using that c by (cases j) auto
  from c have "inpos - (inpos - index) = index" by simp
  with assms c pre LZ_compare_match [of inpos left buf "inpos - index" best 2] show ?thesis
    by (auto simp: LZ_try_index_def bind_eq_Some_conv Let_def split: prod.splits if_splits)
qed

lemma LZ_try_index_total:
  assumes "inpos + left < length buf" and "3 < left" and "index < inpos"
    and "LZ_match buf inpos left best"
  shows "\<exists>best'. LZ_try_index buf inpos left index best = Some best'"
proof -
  obtain len0 off0 where b: "best = (len0, off0)" by (cases best)
  with LZ_match_best_le [OF assms(4,2)] have "len0 \<le> left" by simp
  with assms LZ_compare_total [of inpos left buf "inpos - index" 2] show ?thesis
    by (auto simp: LZ_try_index_def b Let_def)
qed

lemma LZ_search_index_sound:
  assumes "LZ_search_index buf (LZ_jumptable buf insize work) inpos left index best = Some best'"
    and "LZ_candidate buf inpos index" and "inpos < insize" and "inpos + left \<le> length buf"
    and "LZ_match buf inpos left best"
  shows "LZ_match buf inpos left best'"
  using assms
proof (induction index arbitrary: best rule: less_induct)
  case (less index)
  show ?case
  proof (cases "index \<noteq> LZ_NONE \<and> inpos - index < LZ_MAX_OFFSET")
    case True
    with less.prems(1) obtain b where b: "LZ_try_index buf inpos left index best = Some b"
      "LZ_search_index buf (LZ_jumptable buf insize work) inpos left
        (LZ_jumptable buf insize work index) b = Some best'"
      by (subst (asm) LZ_search_index.simps) (auto simp: bind_eq_Some_conv)
    have m: "LZ_match buf inpos left b"
      using LZ_try_index_sound [OF b(1)] True less.prems by auto
    note jump = LZ_candidate_jump [OF less.prems(2) _ less.prems(3), of work]
    show ?thesis
    proof (cases "LZ_jumptable buf insize work index = LZ_NONE")
      case True
      with b(2) m show ?thesis by (simp add: LZ_search_index.simps)
    next
      case False
      with less.IH b(2) m jump True less.prems show ?thesis by blast
    qed
  next
    case False
    with less.prems show ?thesis by (subst (asm) LZ_search_index.simps) auto
  qed
qed

lemma LZ_search_index_total:
  assumes "LZ_candidate buf inpos index" and "inpos < insize" and "inpos + left < length buf"
    and "3 < left" and "LZ_match buf inpos left best"
  shows "\<exists>best'. LZ_search_index buf (LZ_jumptable buf insize work) inpos left index best = Some best'"
  using assms
proof (induction index arbitrary: best rule: less_induct)
  case (less index)
  show ?case
  proof (cases "index \<noteq> LZ_NONE \<and> inpos - index < LZ_MAX_OFFSET")
    case True
    then have "index < inpos" using less.prems(1) by (auto simp: LZ_candidate_def)
    then obtain b where b: "LZ_try_index buf inpos left index best = Some b"
      using LZ_try_index_total less.prems by blast
    have m: "LZ_match buf inpos left b"
      using LZ_try_index_sound [OF b] True less.prems by auto
    note jump = LZ_candidate_jump [OF less.prems(1) _ less.prems(2), of work]
    have "\<exists>best'. LZ_search_index buf (LZ_jumptable buf insize work) inpos left
        (LZ_jumptable buf insize work index) b = Some best'"
    proof (cases "LZ_jumptable buf insize work index = LZ_NONE")
      case True
      then show ?thesis by (simp add: LZ_search_index.simps)
    next
      case False
      with less.IH m jump True less.prems show ?thesis by blast
    qed
    with b True show ?thesis by (subst LZ_search_index.simps) auto
  next
    case False
    then show ?thesis by (subst LZ_search_index.simps) auto
  qed
qed

interpretation lz_jump: match_finder
  "\<lambda>buf insize inpos left. LZ_search_jump buf (LZ_jumptable buf insize work) inpos left" for work
proof (unfold_locales, goal_cases)
  case (1 buf insize inpos left best)
  then show ?case
    using LZ_search_index_sound [OF _ LZ_candidate_start _ _ LZ_match_none]
    by (auto simp: LZ_search_jump_def LZ_at_def)
next
  case (2 buf insize inpos left)
  show ?case
  proof (cases "inpos = 0")
    case True
    with LZ_candidate_start [of 0 insize buf work] 2 show ?thesis
      by (auto simp: LZ_search_jump_def LZ_search_index.simps LZ_candidate_def LZ_at_def)
  next
    case False
    with 2 show ?thesis
      using LZ_search_index_total [OF LZ_candidate_start _ _ _ LZ_match_none]
      by (auto simp: LZ_search_jump_def LZ_at_def)
  qed
qed

subsection \<open>Both encoders\<close>

lemma LZ_Compress_total:
  assumes "insize < length buf" and "insize < 2 ^ 32"
  shows "LZ_Compress buf insize \<noteq> None" and "LZ_CompressFast buf insize work \<noteq> None"
  using assms lz_all.loop_total [of buf insize 0 insize] lz_jump.loop_total [of buf insize 0 insize]
  by (auto simp: LZ_Compress_def LZ_CompressFast_def Let_def LZ_at_def)

lemma LZ_Uncompress_Nil: "LZ_Uncompress [] = Some []"
  by (simp add: LZ_Uncompress_def)

lemma LZ_Compress_decodes:
  assumes "LZ_Compress buf insize = Some c" and "insize \<le> length buf" and "insize < 2 ^ 32"
  shows "LZ_Uncompress c = Some (take insize buf)" and "length c \<le> insize + insize div 256 + 1"
  using assms lz_all.compressed_decodes [of buf insize "find_marker (take insize buf)" c] find_marker_count [of "take insize buf"]
  by (auto simp: LZ_Compress_def Let_def LZ_Uncompress_Nil split: if_splits)

lemma LZ_CompressFast_decodes:
  assumes "LZ_CompressFast buf insize work = Some c" and "insize \<le> length buf" and "insize < 2 ^ 32"
  shows "LZ_Uncompress c = Some (take insize buf)" and "length c \<le> insize + insize div 256 + 1"
  using assms lz_jump.compressed_decodes [of buf insize work "find_marker (take insize buf)" c] find_marker_count [of "take insize buf"]
  by (auto simp: LZ_CompressFast_def Let_def LZ_Uncompress_Nil split: if_splits)

subsection \<open>Properties\<close>

text \<open>
  C4: \<open>LZ_Compress\<close>, given a buffer with at least one byte behind the input, reads nothing outside
  the buffer; \<open>LZ_Uncompress\<close> turns its output back into the input without a read outside its own
  buffers, and the output fits the buffer the comment asks for.
\<close>

theorem LZ_Compress_correct:
  assumes "insize < length buf" and "insize < 2 ^ 32"
  shows "\<exists>c. LZ_Compress buf insize = Some c \<and> LZ_Uncompress c = Some (take insize buf)
    \<and> length c \<le> insize + insize div 256 + 1"
  using LZ_Compress_total(1) [OF assms] LZ_Compress_decodes [of buf insize] assms by auto

theorem LZ_Compress_correct_witness:
  "\<exists>c. LZ_Compress [7, 7, 1, 2, 7, 7, 1, 2, 0] 8 = Some c
    \<and> LZ_Uncompress c = Some [7, 7, 1, 2, 7, 7, 1, 2] \<and> length c \<le> 9"
  using LZ_Compress_correct [of 8 "[7, 7, 1, 2, 7, 7, 1, 2, 0]"] by simp

text \<open>
  C13: the same for \<open>LZ_CompressFast\<close>, whatever its work area holds when it is called; in
  particular the walk along the jump table always ends.
\<close>

theorem LZ_CompressFast_correct:
  assumes "insize < length buf" and "insize < 2 ^ 32"
  shows "\<exists>c. LZ_CompressFast buf insize work = Some c \<and> LZ_Uncompress c = Some (take insize buf)
    \<and> length c \<le> insize + insize div 256 + 1"
  using LZ_Compress_total(2) [OF assms, of work] LZ_CompressFast_decodes [of buf insize work] assms
  by auto

theorem LZ_CompressFast_correct_witness:
  "\<exists>c. LZ_CompressFast [7, 7, 1, 2, 7, 7, 1, 2, 0] 8 (\<lambda>i. i) = Some c
    \<and> LZ_Uncompress c = Some [7, 7, 1, 2, 7, 7, 1, 2] \<and> length c \<le> 9"
  using LZ_CompressFast_correct [of 8 "[7, 7, 1, 2, 7, 7, 1, 2, 0]" "\<lambda>i. i"] by simp


text \<open>
  \<open>_LZ_ReadVarSize\<close> reads back every 32-bit value that \<open>_LZ_WriteVarSize\<close> writes, and leaves
  what follows; the code takes one byte for each seven bits of the value.
\<close>

theorem LZ_VarSize_roundtrip:
  "LZ_ReadVarSize (LZ_WriteVarSize x @ r) = Some (x, r)
    \<and> (\<forall>n\<in>{1..4}. length (LZ_WriteVarSize x) \<le> n \<longleftrightarrow> unat x < 2 ^ (7 * n))
    \<and> length (LZ_WriteVarSize x) \<le> 5"
proof -
  have "length (LZ_WriteVarSize x) \<le> n \<longleftrightarrow> unat x < 2 ^ (7 * n)" if "n \<in> {1, 2, 3, 4}" for n
    using that by (auto simp: length_LZ_WriteVarSize)
  moreover have "{1..4} = {1, 2, 3, 4 :: nat}" by auto
  ultimately show ?thesis by (simp add: LZ_ReadVarSize_Write length_LZ_WriteVarSize)
qed

theorem LZ_VarSize_roundtrip_witness:
  "LZ_ReadVarSize (LZ_WriteVarSize 100000 @ [7]) = Some (100000, [7])
    \<and> (length (LZ_WriteVarSize 100000) \<le> 3)"
  using LZ_VarSize_roundtrip [of 100000 "[7]"] by simp

text \<open>
  C15: the jump table is what the comment in \<open>LZ_CompressFast\<close> says: entry \<open>i\<close> is the nearest
  earlier position with the same two bytes as at \<open>i\<close>, or \<open>0xffffffff\<close> when there is none.
\<close>

theorem LZ_jumptable_correct:
  assumes "i + 1 < insize" and "insize < 2 ^ 32"
  shows "let k = LZ_jumptable buf insize work i;
             same = (\<lambda>j. buf ! j = buf ! i \<and> buf ! (j + 1) = buf ! (i + 1))
         in if k = 0xffffffff then \<forall>j<i. \<not> same j
            else k < i \<and> same k \<and> (\<forall>j. k < j \<and> j < i \<longrightarrow> \<not> same j)"
proof -
  have "\<not> LZ_NONE < i" using assms by (simp add: LZ_NONE_def)
  with LZ_jumptable_nearest [of i insize buf work] assms show ?thesis
    by (auto simp: LZ_nearest_def LZ_pair_eq Let_def simp flip: LZ_NONE_def)
qed

theorem LZ_jumptable_correct_witness:
  "LZ_jumptable [1, 2, 1, 2] 4 (\<lambda>_. 9) 2 < 2 \<or> LZ_jumptable [1, 2, 1, 2] 4 (\<lambda>_. 9) 2 = 0xffffffff"
  using LZ_jumptable_correct [of 2 4 "[1, 2, 1, 2]" "\<lambda>_. 9"] by (auto simp: Let_def split: if_splits)

end
