(* ===== verification/Bcl_Huffman.thy ===== *)
theory Bcl_Huffman
  imports Bcl_Symbols
begin

text \<open>
  The Huffman coder of the Basic Compression Library, \<open>codecs/bcl/src/huffman.c\<close>. A pointer to a
  tree node is the tree below it, since the links of a node are written once; the array
  \<open>nodes[MAX_TREE_NODES]\<close> of the encoder is a list of trees with their counts, the one of the
  decoder is the number of nodes taken from it. \<open>None\<close> is an access outside a buffer or array, a
  null pointer, or an undefined shift.
\<close>

subsection \<open>The encoder's tree\<close>

datatype huff_tree = HLeaf nat | HNode huff_tree huff_tree

record huff_encodenode =
  enTree :: huff_tree
  enCount :: nat

definition MAX_TREE_NODES :: nat where "MAX_TREE_NODES = 511"

definition Huffman_sym_index :: "huff_sym list \<Rightarrow> nat \<Rightarrow> nat" where
  "Huffman_sym_index tab a = length (takeWhile (\<lambda>e. symSymbol e \<noteq> a) (take 256 tab))"

fun Huffman_StoreTree ::
  "huff_tree \<Rightarrow> huff_sym list \<Rightarrow> bitstream \<Rightarrow> u32 \<Rightarrow> nat \<Rightarrow> (huff_sym list \<times> bitstream) option" where
  "Huffman_StoreTree (HLeaf a) tab s code bits =
     do {
       s \<leftarrow> Huffman_WriteBits s 1 1;
       s \<leftarrow> Huffman_WriteBits s (word_of_nat a) 8;
       let i = Huffman_sym_index tab a;
       if i < length tab then Some (tab[i := (tab ! i)\<lparr>symCode := code, symBits := bits\<rparr>], s)
       else None
     }"
| "Huffman_StoreTree (HNode ta tb) tab s code bits =
     do {
       s \<leftarrow> Huffman_WriteBits s 0 1;
       (tab, s) \<leftarrow> Huffman_StoreTree ta tab s (push_bit 1 code + 0) (bits + 1);
       Huffman_StoreTree tb tab s (push_bit 1 code + 1) (bits + 1)
     }"

definition Huffman_leaves :: "huff_sym list \<Rightarrow> huff_encodenode list" where
  "Huffman_leaves tab =
     map (\<lambda>e. \<lparr>enTree = HLeaf (symSymbol e), enCount = symCount e\<rparr>)
       (filter (\<lambda>e. 0 < symCount e) tab)"

text \<open>\<open>Find the two lightest nodes\<close>: the loop body and the loop; null pointers are \<open>None\<close>.\<close>

definition Huffman_lightest_step ::
  "huff_encodenode list \<Rightarrow> nat \<Rightarrow> nat option \<times> nat option \<Rightarrow> nat option \<times> nat option" where
  "Huffman_lightest_step nodes k n =
     (case n of (node_1, node_2) \<Rightarrow>
        if 0 < enCount (nodes ! k) then
          (if node_1 = None \<or> enCount (nodes ! k) \<le> enCount (nodes ! the node_1) then (Some k, node_1)
           else if node_2 = None \<or> enCount (nodes ! k) \<le> enCount (nodes ! the node_2) then (node_1, Some k)
           else (node_1, node_2))
        else (node_1, node_2))"

definition Huffman_two_lightest :: "huff_encodenode list \<Rightarrow> nat option \<times> nat option" where
  "Huffman_two_lightest nodes = fold (Huffman_lightest_step nodes) [0..<length nodes] (None, None)"

text \<open>\<open>Join the two nodes into a new parent node\<close>.\<close>

definition Huffman_join :: "huff_encodenode list \<Rightarrow> nat \<Rightarrow> nat \<Rightarrow> huff_encodenode list" where
  "Huffman_join nodes n1 n2 =
     (let root = \<lparr>enTree = HNode (enTree (nodes ! n1)) (enTree (nodes ! n2)),
                  enCount = enCount (nodes ! n1) + enCount (nodes ! n2)\<rparr>;
          nodes = nodes[n1 := (nodes ! n1)\<lparr>enCount := 0\<rparr>];
          nodes = nodes[n2 := (nodes ! n2)\<lparr>enCount := 0\<rparr>]
      in nodes @ [root])"

fun Huffman_build :: "nat \<Rightarrow> huff_encodenode list \<Rightarrow> huff_encodenode list option" where
  "Huffman_build nodes_left nodes =
     (if 1 < nodes_left then
        case Huffman_two_lightest nodes of
          (Some n1, Some n2) \<Rightarrow>
            if length nodes < MAX_TREE_NODES then Huffman_build (nodes_left - 1) (Huffman_join nodes n1 n2)
            else None
        | _ \<Rightarrow> None
      else Some nodes)"

declare Huffman_build.simps [simp del]

text \<open>\<open>root\<close> is the node that was joined last, or the only leaf; a single leaf gets one bit.\<close>

definition Huffman_MakeTree :: "huff_sym list \<Rightarrow> bitstream \<Rightarrow> (huff_sym list \<times> bitstream) option" where
  "Huffman_MakeTree tab s =
     (let leaves = Huffman_leaves tab
      in do {
           nodes \<leftarrow> Huffman_build (length leaves) leaves;
           if 1 < length leaves then Huffman_StoreTree (enTree (last nodes)) tab s 0 0
           else if nodes = [] then None
           else Huffman_StoreTree (enTree (nodes ! 0)) tab s 0 1
         })"

definition Huffman_Compress :: "byte list \<Rightarrow> byte list \<Rightarrow> byte list option" where
  "Huffman_Compress ins out =
     (if length ins < 1 then Some []
      else do {
        let s = Huffman_InitBitstream out;
        let tab = Huffman_Hist ins;
        (tab, s) \<leftarrow> Huffman_MakeTree tab s;
        let tab = bubble_sort (\<lambda>e. int (symSymbol e)) tab;
        s \<leftarrow> Huffman_encode tab ins s;
        Some (take (bs_total_bytes s) (bsBuf s))
      })"

subsection \<open>The decoder\<close>

datatype huff_decodenode = HDLeaf u32 | HDNode huff_decodenode huff_decodenode

text \<open>
  The result is the node, the count of nodes used and the stream. The first argument bounds the
  depth of the recursion; a tree deeper than \<open>MAX_TREE_NODES\<close> needs more nodes than there are,
  so with that bound \<open>None\<close> means that the node array or the input has run out.
\<close>

fun Huffman_RecoverTree ::
  "nat \<Rightarrow> nat \<Rightarrow> bitstream \<Rightarrow> (huff_decodenode \<times> nat \<times> bitstream) option" where
  "Huffman_RecoverTree 0 nodenum s = None"
| "Huffman_RecoverTree (Suc depth) nodenum s =
     (if nodenum < MAX_TREE_NODES then
        do {
          let nodenum = nodenum + 1;
          (x, s) \<leftarrow> Huffman_ReadBit s;
          if x \<noteq> 0 then
            do {
              (symbol, s) \<leftarrow> Huffman_Read8Bits s;
              Some (HDLeaf symbol, nodenum, s)
            }
          else
            do {
              (ta, nodenum, s) \<leftarrow> Huffman_RecoverTree depth nodenum s;
              (tb, nodenum, s) \<leftarrow> Huffman_RecoverTree depth nodenum s;
              Some (HDNode ta tb, nodenum, s)
            }
        }
      else None)"

fun Huffman_walk :: "huff_decodenode \<Rightarrow> bitstream \<Rightarrow> (u32 \<times> bitstream) option" where
  "Huffman_walk (HDLeaf x) s = Some (x, s)"
| "Huffman_walk (HDNode ta tb) s =
     do {
       (b, s) \<leftarrow> Huffman_ReadBit s;
       if b \<noteq> 0 then Huffman_walk tb s else Huffman_walk ta s
     }"

text \<open>The result are the bytes that were written.\<close>

definition Huffman_Uncompress :: "byte list \<Rightarrow> nat \<Rightarrow> byte list option" where
  "Huffman_Uncompress ins outsize =
     (if length ins < 1 then Some []
      else do {
        (root, node_count, s) \<leftarrow> Huffman_RecoverTree MAX_TREE_NODES 0 (Huffman_InitBitstream ins);
        Huffman_decode Huffman_walk root outsize s
      })"

subsection \<open>Trees and codes\<close>

fun leaves :: "huff_tree \<Rightarrow> nat list" where
  "leaves (HLeaf a) = [a]"
| "leaves (HNode ta tb) = leaves ta @ leaves tb"

fun tree_nodes :: "huff_tree \<Rightarrow> nat" where
  "tree_nodes (HLeaf a) = 1"
| "tree_nodes (HNode ta tb) = 1 + tree_nodes ta + tree_nodes tb"

fun tree_path :: "huff_tree \<Rightarrow> nat \<Rightarrow> bool list" where
  "tree_path (HLeaf a) b = []"
| "tree_path (HNode ta tb) b =
     (if b \<in> set (leaves ta) then False # tree_path ta b else True # tree_path tb b)"

fun tree_bits :: "huff_tree \<Rightarrow> bool list" where
  "tree_bits (HLeaf a) = True # word_bits 8 (word_of_nat a)"
| "tree_bits (HNode ta tb) = False # tree_bits ta @ tree_bits tb"

definition symbols_in_order :: "huff_sym list \<Rightarrow> bool" where
  "symbols_in_order tab \<longleftrightarrow> map symSymbol tab = [0..<256]"

lemma symbols_in_orderD: "symbols_in_order tab \<Longrightarrow> a < 256 \<Longrightarrow> symSymbol (tab ! a) = a"
  "symbols_in_order tab \<Longrightarrow> length tab = 256"
proof -
  assume s: "symbols_in_order tab"
  then show l: "length tab = 256" unfolding symbols_in_order_def by (metis length_map length_upt minus_nat.diff_0)
  assume "a < 256"
  with s l have "map symSymbol tab ! a = a" by (simp add: symbols_in_order_def)
  with \<open>a < 256\<close> l show "symSymbol (tab ! a) = a" by simp
qed

lemma Huffman_sym_index_in_order:
  assumes "symbols_in_order tab" and "a < 256"
  shows "Huffman_sym_index tab a = a"
proof -
  have "takeWhile (\<lambda>e. symSymbol e \<noteq> a) tab = take a tab"
    using symbols_in_orderD [OF assms(1)] assms(2) by (intro takeWhile_eq_take_P_nth) auto
  with symbols_in_orderD(2) [OF assms(1)] assms(2) show ?thesis
    by (simp add: Huffman_sym_index_def)
qed

lemma word_bits_1: "word_bits (Suc 0) x = [bit x 0]"
  by (simp add: word_bits_def)

text \<open>What storing a tree does to the stream and to the table.\<close>

definition table_set :: "huff_sym list \<Rightarrow> huff_tree \<Rightarrow> u32 \<Rightarrow> nat \<Rightarrow> huff_sym list \<Rightarrow> bool" where
  "table_set tab t code bits tab' \<longleftrightarrow>
     symbols_in_order tab' \<and>
     (\<forall>a<256. tab' ! a = (if a \<in> set (leaves t)
        then (tab ! a)\<lparr>symCode := fold code_step (tree_path t a) code, symBits := bits + length (tree_path t a)\<rparr>
        else tab ! a))"

lemma symbols_in_order_update:
  assumes "symbols_in_order tab" and "a < 256"
  shows "symbols_in_order (tab[a := (tab ! a)\<lparr>symCode := c, symBits := n\<rparr>])"
proof -
  have "map symSymbol (tab[a := (tab ! a)\<lparr>symCode := c, symBits := n\<rparr>]) = (map symSymbol tab)[a := symSymbol (tab ! a)]"
    by (simp add: map_update)
  also have "\<dots> = map symSymbol tab"
    using symbols_in_orderD(2) [OF assms(1)] assms(2) by (intro list_update_same_conv [THEN iffD2]) auto
  finally show ?thesis using assms(1) by (simp add: symbols_in_order_def)
qed

lemma Huffman_StoreTree_wrote:
  assumes "Huffman_StoreTree t tab s code bits = Some (tab', s')" and "bs_ok s"
    and "symbols_in_order tab" and "set (leaves t) \<subseteq> {..<256}" and "distinct (leaves t)"
  shows "bs_wrote s (tree_bits t) s' \<and> table_set tab t code bits tab'"
  using assms
proof (induction t arbitrary: tab s code bits tab' s')
  case (HLeaf a)
  from HLeaf(4) have a: "a < 256" by simp
  from HLeaf(1) obtain s1 where 1: "Huffman_WriteBits s 1 1 = Some s1"
    and 2: "Huffman_WriteBits s1 (word_of_nat a) 8 = Some s'"
    and tab': "tab' = tab[a := (tab ! a)\<lparr>symCode := code, symBits := bits\<rparr>]"
    using Huffman_sym_index_in_order [OF HLeaf(3) a] by (auto simp: bind_eq_Some_conv Let_def split: if_splits)
  have "bs_wrote s [True] s1" using Huffman_WriteBits_wrote [OF HLeaf(2) 1] by (simp add: word_bits_1)
  with Huffman_WriteBits_wrote [OF bs_wrote_ok [OF this] 2] have "bs_wrote s (tree_bits (HLeaf a)) s'"
    using bs_wrote_trans [of s "[True]" s1] by simp
  with symbols_in_order_update [OF HLeaf(3) a] symbols_in_orderD(2) [OF HLeaf(3)] show ?case
    by (auto simp: table_set_def tab' nth_list_update)
next
  case (HNode ta tb)
  from HNode.prems(1) obtain s1 tab1 s2 where 1: "Huffman_WriteBits s 0 1 = Some s1"
    and 2: "Huffman_StoreTree ta tab s1 (push_bit 1 code) (bits + 1) = Some (tab1, s2)"
    and 3: "Huffman_StoreTree tb tab1 s2 (push_bit 1 code + 1) (bits + 1) = Some (tab', s')"
    by (auto simp: bind_eq_Some_conv)
  have w1: "bs_wrote s [False] s1"
    using Huffman_WriteBits_wrote [OF HNode.prems(2) 1] by (simp add: word_bits_1)
  have A: "bs_wrote s1 (tree_bits ta) s2" "table_set tab ta (push_bit 1 code) (bits + 1) tab1"
    using HNode.IH(1) [OF 2 bs_wrote_ok [OF w1] HNode.prems(3)] HNode.prems by auto
  have B: "bs_wrote s2 (tree_bits tb) s'" "table_set tab1 tb (push_bit 1 code + 1) (bits + 1) tab'"
    using HNode.IH(2) [OF 3 bs_wrote_ok [OF A(1)]] A(2) HNode.prems by (auto simp: table_set_def)
  have "bs_wrote s (tree_bits (HNode ta tb)) s'"
    using bs_wrote_trans [OF w1 bs_wrote_trans [OF A(1) B(1)]] by simp
  moreover have "table_set tab (HNode ta tb) code bits tab'"
    using A(2) B(2) HNode.prems(5) by (auto simp: table_set_def code_step_def)
  ultimately show ?case by blast
qed

subsection \<open>Recovering the tree\<close>

fun tree_match :: "huff_tree \<Rightarrow> huff_decodenode \<Rightarrow> bool" where
  "tree_match (HLeaf a) (HDLeaf x) \<longleftrightarrow> (ucast x :: byte) = to_byte a"
| "tree_match (HNode ta tb) (HDNode da db) \<longleftrightarrow> tree_match ta da \<and> tree_match tb db"
| "tree_match _ _ \<longleftrightarrow> False"

fun Huffman_path :: "huff_decodenode \<Rightarrow> byte \<Rightarrow> bool list option" where
  "Huffman_path (HDLeaf x) b = (if ucast x = b then Some [] else None)"
| "Huffman_path (HDNode da db) b =
     (case Huffman_path da b of
        Some p \<Rightarrow> Some (False # p)
      | None \<Rightarrow> map_option (Cons True) (Huffman_path db b))"

lemma tree_nodes_pos: "0 < tree_nodes t"
  by (cases t) auto

lemma Huffman_RecoverTree_at:
  assumes "bs_at s (tree_bits t @ b # r)" and "nodenum + tree_nodes t \<le> MAX_TREE_NODES"
    and "tree_nodes t \<le> depth"
  shows "\<exists>d s'. Huffman_RecoverTree depth nodenum s = Some (d, nodenum + tree_nodes t, s') \<and>
    tree_match t d \<and> bs_at s' (b # r)"
  using assms
proof (induction t arbitrary: s nodenum depth b r)
  case (HLeaf a)
  obtain n where depth: "depth = Suc n" using HLeaf(3) by (cases depth) auto
  obtain s1 where 1: "Huffman_ReadBit s = Some (1, s1)" "bs_at s1 (word_bits 8 (word_of_nat a) @ b # r)"
    using Huffman_ReadBit_at [of s True] HLeaf(1) by auto
  obtain y s2 where 2: "Huffman_Read8Bits s1 = Some (y, s2)" "ucast y = (ucast (word_of_nat a :: u32) :: byte)"
    "bs_at s2 (b # r)"
    using Huffman_Read8Bits_at [OF 1(2)] by blast
  have "ucast (word_of_nat a :: u32) = to_byte a"
    by (rule bit_word_eqI) (auto simp: bit_ucast_iff bit_of_nat_iff possible_bit_word)
  with 2(2) have "ucast y = to_byte a" by simp
  with 1 2 HLeaf(2) show ?case by (simp add: depth Let_def)
next
  case (HNode ta tb)
  obtain n where depth: "depth = Suc n" using HNode.prems(3) by (cases depth) auto
  obtain s1 where 1: "Huffman_ReadBit s = Some (0, s1)" "bs_at s1 (tree_bits ta @ tree_bits tb @ b # r)"
    using Huffman_ReadBit_at [of s False] HNode.prems(1) by auto
  obtain c q where q: "tree_bits tb @ b # r = c # q" by (cases "tree_bits tb @ b # r") auto
  obtain da s2 where 2: "Huffman_RecoverTree n (nodenum + 1) s1 = Some (da, nodenum + 1 + tree_nodes ta, s2)"
    "tree_match ta da" "bs_at s2 (tree_bits tb @ b # r)"
    using HNode.IH(1) [of s1 c q "nodenum + 1" n] 1(2) HNode.prems tree_nodes_pos [of tb] by (auto simp: depth q)
  obtain db s3 where 3: "Huffman_RecoverTree n (nodenum + 1 + tree_nodes ta) s2
      = Some (db, nodenum + 1 + tree_nodes ta + tree_nodes tb, s3)"
    "tree_match tb db" "bs_at s3 (b # r)"
    using HNode.IH(2) [of s2 b r "nodenum + 1 + tree_nodes ta" n] 2(3) HNode.prems by (auto simp: depth)
  from 1(1) 2(1,2) 3 HNode.prems(2) show ?case by (simp add: depth Let_def)
qed

lemma Huffman_walk_path:
  "Huffman_path d b = Some p \<Longrightarrow> bs_at s (p @ r) \<Longrightarrow>
    \<exists>x s'. Huffman_walk d s = Some (x, s') \<and> ucast x = b \<and> bs_at s' r"
proof (induction d arbitrary: p s)
  case (HDNode da db)
  show ?case
  proof (cases "Huffman_path da b")
    case None
    with HDNode.prems obtain q where q: "p = True # q" "Huffman_path db b = Some q" by auto
    with HDNode.prems(2) obtain s1 where "Huffman_ReadBit s = Some (1, s1)" "bs_at s1 (q @ r)"
      using Huffman_ReadBit_at [of s True "q @ r"] by auto
    with HDNode.IH(2) [OF q(2), of s1] show ?thesis by auto
  next
    case (Some q)
    with HDNode.prems have q: "p = False # q" by auto
    with HDNode.prems(2) obtain s1 where "Huffman_ReadBit s = Some (0, s1)" "bs_at s1 (q @ r)"
      using Huffman_ReadBit_at [of s False "q @ r"] by auto
    with HDNode.IH(1) [OF Some, of s1] show ?thesis by auto
  qed
qed (simp split: if_splits)

interpretation huff: symbol_reader Huffman_walk Huffman_path
  by unfold_locales (rule Huffman_walk_path)

lemma tree_match_path:
  assumes "tree_match t d" and "set (leaves t) \<subseteq> {..<256}" 
  shows "Huffman_path d b = (if unat b \<in> set (leaves t) then Some (tree_path t (unat b)) else None)"
  using assms
proof (induction t d rule: tree_match.induct)
  case (1 a x)
  have "to_byte a = b \<longleftrightarrow> unat b = a"
    using 1(2) by (auto simp: word_eq_iff_unsigned)
  with 1 show ?case by auto
qed auto

subsection \<open>The two lightest nodes\<close>

definition live :: "huff_encodenode list \<Rightarrow> nat \<Rightarrow> bool" where
  "live nodes k \<longleftrightarrow> k < length nodes \<and> 0 < enCount (nodes ! k)"

text \<open>The state of the search after the first \<open>m\<close> nodes.\<close>

definition lightest_of :: "huff_encodenode list \<Rightarrow> nat \<Rightarrow> nat option \<times> nat option \<Rightarrow> bool" where
  "lightest_of nodes m n \<longleftrightarrow>
     (case n of
        (None, None) \<Rightarrow> \<forall>k<m. \<not> live nodes k
      | (Some i, None) \<Rightarrow> i < m \<and> live nodes i \<and> (\<forall>k<m. live nodes k \<longrightarrow> k = i)
      | (Some i, Some j) \<Rightarrow> i < m \<and> j < m \<and> i \<noteq> j \<and> live nodes i \<and> live nodes j \<and>
          enCount (nodes ! i) \<le> enCount (nodes ! j) \<and>
          (\<forall>k<m. live nodes k \<longrightarrow> k = i \<or> enCount (nodes ! j) \<le> enCount (nodes ! k))
      | (None, Some _) \<Rightarrow> False)"

lemma lightest_step:
  assumes "lightest_of nodes m n" and "m < length nodes"
  shows "lightest_of nodes (Suc m) (Huffman_lightest_step nodes m n)"
proof -
  obtain n1 n2 where n: "n = (n1, n2)" by fastforce
  note defs = lightest_of_def Huffman_lightest_step_def n
  have live: "live nodes m \<longleftrightarrow> 0 < enCount (nodes ! m)" using assms(2) by (simp add: live_def)
  show ?thesis
  proof (cases n1)
    case None
    with assms(1) live show ?thesis by (cases n2) (auto simp: defs less_Suc_eq)
  next
    case (Some i)
    show ?thesis
    proof (cases n2)
      case None
      with assms(1) live Some show ?thesis by (auto simp: defs less_Suc_eq)
    next
      case j: (Some j)
      with assms(1) Some have lo: "i < m" "j < m" "i \<noteq> j" "live nodes i" "live nodes j"
          "enCount (nodes ! i) \<le> enCount (nodes ! j)"
          "\<forall>k<m. live nodes k \<longrightarrow> k = i \<or> enCount (nodes ! j) \<le> enCount (nodes ! k)"
        by (auto simp: defs)
      have all: "(\<forall>k<Suc m. P k) \<longleftrightarrow> P m \<and> (\<forall>k<m. P k)" for P by (auto simp: less_Suc_eq)
      from lo(6,7) show ?thesis
        using lo(1-5) live unfolding defs Some j
        by (auto simp: all intro: order_trans less_imp_le)
    qed
  qed
qed

lemma Huffman_two_lightest_of: "lightest_of nodes (length nodes) (Huffman_two_lightest nodes)"
proof -
  have "lightest_of nodes m (fold (Huffman_lightest_step nodes) [0..<m] (None, None))"
    if "m \<le> length nodes" for m
    using that
  proof (induction m)
    case 0
    show ?case by (simp add: lightest_of_def)
  next
    case (Suc m)
    then show ?case by (simp add: lightest_step)
  qed
  then show ?thesis by (simp add: Huffman_two_lightest_def)
qed

text \<open>The live nodes as a multiset: joining takes the two lightest out and puts their parent in.\<close>

definition live_nodes :: "huff_encodenode list \<Rightarrow> huff_encodenode multiset" where
  "live_nodes nodes = filter_mset (\<lambda>n. 0 < enCount n) (mset nodes)"

definition huff_parent :: "huff_encodenode \<Rightarrow> huff_encodenode \<Rightarrow> huff_encodenode" where
  "huff_parent n1 n2 = \<lparr>enTree = HNode (enTree n1) (enTree n2), enCount = enCount n1 + enCount n2\<rparr>"

lemma live_nodes_join:
  assumes "i < length nodes" "j < length nodes" "i \<noteq> j"
    and "0 < enCount (nodes ! i)" "0 < enCount (nodes ! j)"
  shows "live_nodes nodes = live_nodes nodes - {#nodes ! i#} - {#nodes ! j#} + {#nodes ! i, nodes ! j#}"
    and "live_nodes (Huffman_join nodes i j)
      = add_mset (huff_parent (nodes ! i) (nodes ! j)) (live_nodes nodes - {#nodes ! i#} - {#nodes ! j#})"
proof -
  let ?z = "\<lambda>n. n\<lparr>enCount := 0 :: nat\<rparr>"
  let ?n1 = "nodes[i := ?z (nodes ! i)]"
  have "nodes ! i \<in># mset nodes" using assms(1) by simp
  then have M: "mset nodes = add_mset (nodes ! i) (mset nodes - {#nodes ! i#})" by simp
  have "mset ?n1 = add_mset (?z (nodes ! i)) (mset nodes - {#nodes ! i#})"
    by (rule mset_update [OF assms(1)])
  moreover have "nodes ! j = ?n1 ! j" using assms(3) by simp
  moreover have "?n1 ! j \<in># mset ?n1" using assms(2) by (intro nth_mem_mset) simp
  moreover have "nodes ! j \<noteq> ?z (nodes ! i)" using assms(5) by (metis huff_encodenode.select_convs(2) huff_encodenode.update_convs(2) huff_encodenode.surjective less_irrefl)
  ultimately have "nodes ! j \<in># mset nodes - {#nodes ! i#}"
    by (simp only: add_mset_eq_singleton_iff insert_iff set_mset_add_mset_insert simp_thms)
  then have M2: "mset nodes - {#nodes ! i#} = add_mset (nodes ! j) (mset nodes - {#nodes ! i#} - {#nodes ! j#})"
    by (rule insert_DiffM [symmetric])
  let ?R = "mset nodes - {#nodes ! i#} - {#nodes ! j#}"
  have N: "mset nodes = ?R + {#nodes ! i, nodes ! j#}" using M M2 by simp
  have L: "live_nodes nodes = filter_mset (\<lambda>n. 0 < enCount n) ?R + {#nodes ! i, nodes ! j#}"
    unfolding live_nodes_def by (subst N) (simp add: assms(4,5))
  then show "live_nodes nodes = live_nodes nodes - {#nodes ! i#} - {#nodes ! j#} + {#nodes ! i, nodes ! j#}"
    by simp
  have "mset (?n1[j := ?z (nodes ! j)]) = add_mset (?z (nodes ! j)) (mset ?n1 - {#nodes ! j#})"
    using mset_update [of j ?n1 "?z (nodes ! j)"] assms(2,3) by simp
  also have "mset ?n1 - {#nodes ! j#} = add_mset (?z (nodes ! i)) ?R"
  proof -
    have "mset ?n1 = add_mset (?z (nodes ! i)) (add_mset (nodes ! j) ?R)"
      unfolding mset_update [OF assms(1)] by (simp only: M2 [symmetric])
    then show ?thesis by (subst (asm) add_mset_commute) simp
  qed
  finally have "live_nodes (Huffman_join nodes i j)
      = add_mset (huff_parent (nodes ! i) (nodes ! j)) (filter_mset (\<lambda>n. 0 < enCount n) ?R)"
    using assms(3-5) by (simp add: live_nodes_def Huffman_join_def Let_def huff_parent_def)
  then show "live_nodes (Huffman_join nodes i j)
      = add_mset (huff_parent (nodes ! i) (nodes ! j)) (live_nodes nodes - {#nodes ! i#} - {#nodes ! j#})"
    unfolding L by simp
qed

lemma live_nodes_nth: "i < length nodes \<Longrightarrow> 0 < enCount (nodes ! i) \<Longrightarrow> nodes ! i \<in># live_nodes nodes"
  by (simp add: live_nodes_def)

lemma set_other:
  assumes "i < length xs" and "x \<in> set (take i xs @ drop (Suc i) xs)"
  shows "\<exists>k < length xs. k \<noteq> i \<and> x = xs ! k"
proof (cases "x \<in> set (take i xs)")
  case True
  then obtain k where "k < i" "x = xs ! k" by (auto simp: in_set_conv_nth)
  with assms(1) show ?thesis by (intro exI [of _ k]) simp
next
  case False
  with assms(2) obtain m where "m < length xs - Suc i" "x = xs ! (Suc i + m)"
    by (auto simp: in_set_conv_nth)
  then show ?thesis by (intro exI [of _ "Suc i + m"]) simp
qed

lemma live_two:
  assumes "1 < size (live_nodes nodes)"
  obtains i j where "Huffman_two_lightest nodes = (Some i, Some j)" "i < length nodes" "j < length nodes"
    "i \<noteq> j" "0 < enCount (nodes ! i)" "enCount (nodes ! i) \<le> enCount (nodes ! j)"
    "\<forall>n \<in># live_nodes nodes - {#nodes ! i#}. enCount (nodes ! j) \<le> enCount n"
proof -
  have s: "size (live_nodes nodes) = card {k. live nodes k}"
  proof -
    have "size (live_nodes nodes) = length (filter (\<lambda>n. 0 < enCount n) nodes)"
      by (simp add: live_nodes_def flip: mset_filter)
    then show ?thesis by (simp add: length_filter_conv_card live_def)
  qed
  obtain n1 n2 where n: "Huffman_two_lightest nodes = (n1, n2)" by fastforce
  have lo: "lightest_of nodes (length nodes) (n1, n2)"
    using Huffman_two_lightest_of [of nodes] n by simp
  have sub: "{k. live nodes k} \<subseteq> A \<Longrightarrow> finite A \<Longrightarrow> 1 < card A" for A
    using assms s card_mono [of A "{k. live nodes k}"] by simp
  show thesis
  proof (cases n1)
    case None
    with lo have "{k. live nodes k} \<subseteq> {}" by (auto simp: lightest_of_def live_def split: option.splits)
    from sub [OF this] show thesis by simp
  next
    case (Some i)
    show thesis
    proof (cases n2)
      case None
      with Some lo have "{k. live nodes k} \<subseteq> {i}" by (auto simp: lightest_of_def live_def)
      from sub [OF this] show thesis by simp
    next
      case (Some j)
      with \<open>n1 = Some i\<close> lo have ij: "i < length nodes" "j < length nodes" "i \<noteq> j"
        "0 < enCount (nodes ! i)" "enCount (nodes ! i) \<le> enCount (nodes ! j)"
        "\<And>k. live nodes k \<Longrightarrow> k = i \<or> enCount (nodes ! j) \<le> enCount (nodes ! k)"
        by (auto simp: lightest_of_def live_def)
      have "\<forall>n \<in># live_nodes nodes - {#nodes ! i#}. enCount (nodes ! j) \<le> enCount n"
      proof
        fix n
        assume n: "n \<in># live_nodes nodes - {#nodes ! i#}"
        let ?t = "take i nodes @ drop (Suc i) nodes"
        have "mset nodes = add_mset (nodes ! i) (mset ?t)"
          using ij(1) by (metis id_take_nth_drop mset.simps(2) mset_append union_mset_add_mset_right)
        then have "live_nodes nodes - {#nodes ! i#} = filter_mset (\<lambda>n. 0 < enCount n) (mset ?t)"
          using ij(4) by (simp add: live_nodes_def)
        with n have "n \<in> set ?t" "0 < enCount n" by auto
        then obtain k where "k < length nodes" "k \<noteq> i" "n = nodes ! k"
          using set_other [OF ij(1)] by blast
        with ij(6) [of k] \<open>0 < enCount n\<close> show "enCount (nodes ! j) \<le> enCount n"
          by (auto simp: live_def)
      qed
      with that ij n Some \<open>n1 = Some i\<close> show thesis by blast
    qed
  qed
qed

subsection \<open>Building the tree\<close>

text \<open>An invariant of the live nodes that joining the two lightest keeps holds of the root.\<close>

definition join_keeps :: "(huff_encodenode multiset \<Rightarrow> bool) \<Rightarrow> bool" where
  "join_keeps P \<longleftrightarrow>
     (\<forall>L n1 n2. P (add_mset n1 (add_mset n2 L)) \<longrightarrow> 0 < enCount n1 \<longrightarrow> enCount n1 \<le> enCount n2 \<longrightarrow>
        (\<forall>n\<in>#L. enCount n2 \<le> enCount n) \<longrightarrow> P (add_mset (huff_parent n1 n2) L))"

lemma Huffman_build_invariant:
  assumes "join_keeps P" and "P (live_nodes nodes)" and "size (live_nodes nodes) = n" and "0 < n"
    and "length nodes + n \<le> MAX_TREE_NODES + 1"
  shows "\<exists>nodes'. Huffman_build n nodes = Some nodes' \<and> P (live_nodes nodes') \<and>
    size (live_nodes nodes') = 1 \<and> (1 < n \<longrightarrow> nodes' \<noteq> [] \<and> last nodes' \<in># live_nodes nodes') \<and>
    (n = 1 \<longrightarrow> nodes' = nodes)"
  using assms(2-)
proof (induction n arbitrary: nodes)
  case (Suc n)
  show ?case
  proof (cases "n = 0")
    case True
    with Suc.prems show ?thesis by (simp add: Huffman_build.simps)
  next
    case False
    then have "1 < size (live_nodes nodes)" using Suc.prems(2) by simp
    then obtain i j where ij: "Huffman_two_lightest nodes = (Some i, Some j)" "i < length nodes" "j < length nodes"
      "i \<noteq> j" "0 < enCount (nodes ! i)" "enCount (nodes ! i) \<le> enCount (nodes ! j)"
      "\<forall>n \<in># live_nodes nodes - {#nodes ! i#}. enCount (nodes ! j) \<le> enCount n"
      by (rule live_two)
    let ?nodes = "Huffman_join nodes i j"
    let ?L = "live_nodes nodes - {#nodes ! i#} - {#nodes ! j#}"
    have j0: "0 < enCount (nodes ! j)" using ij(5,6) by simp
    note join = live_nodes_join [OF ij(2-5) j0]
    have L: "live_nodes nodes = add_mset (nodes ! i) (add_mset (nodes ! j) ?L)"
      using join(1) by simp
    have light: "\<forall>n\<in>#?L. enCount (nodes ! j) \<le> enCount n"
      using ij(7) by (meson in_diffD)
    have "P (live_nodes ?nodes)"
      using assms(1) Suc.prems(1) ij(5,6) light unfolding join(2) join_keeps_def by (metis L)
    moreover have "size (live_nodes ?nodes) = n"
      using Suc.prems(2) unfolding join(2) by (subst (asm) L) simp
    moreover have "length ?nodes = Suc (length nodes)" by (simp add: Huffman_join_def Let_def)
    moreover have "last ?nodes = huff_parent (nodes ! i) (nodes ! j)" "?nodes \<noteq> []"
      by (simp_all add: Huffman_join_def Let_def huff_parent_def)
    ultimately have IH: "\<exists>nodes'. Huffman_build n ?nodes = Some nodes' \<and> P (live_nodes nodes') \<and>
      size (live_nodes nodes') = 1 \<and> (1 < n \<longrightarrow> nodes' \<noteq> [] \<and> last nodes' \<in># live_nodes nodes') \<and>
      (n = 1 \<longrightarrow> nodes' = ?nodes)" and last: "?nodes \<noteq> [] \<and> last ?nodes \<in># live_nodes ?nodes"
      using Suc.IH [of ?nodes] False Suc.prems(4) by (simp_all add: join(2))
    moreover have "Huffman_build (Suc n) nodes = Huffman_build n ?nodes"
      using ij(1) False Suc.prems(4) by (subst Huffman_build.simps) simp
    ultimately show ?thesis using False by (cases "n = 1") auto
  qed
qed simp

text \<open>The leaves of the live trees stay the same.\<close>

definition live_leaves :: "huff_encodenode multiset \<Rightarrow> nat multiset" where
  "live_leaves L = (\<Sum>n\<in>#L. mset (leaves (enTree n)))"

lemma live_leaves_join: "join_keeps (\<lambda>L. live_leaves L = M)"
  by (auto simp: join_keeps_def live_leaves_def huff_parent_def ac_simps)

fun tree_weight :: "(nat \<Rightarrow> nat) \<Rightarrow> huff_tree \<Rightarrow> nat" where
  "tree_weight w (HLeaf a) = w a"
| "tree_weight w (HNode ta tb) = tree_weight w ta + tree_weight w tb"

fun tree_height :: "huff_tree \<Rightarrow> nat" where
  "tree_height (HLeaf a) = 0"
| "tree_height (HNode ta tb) = Suc (max (tree_height ta) (tree_height tb))"

fun subtrees :: "huff_tree \<Rightarrow> huff_tree set" where
  "subtrees (HLeaf a) = {}"
| "subtrees (HNode ta tb) = {ta, tb}"

fun fib :: "nat \<Rightarrow> nat" where
  "fib 0 = 0"
| "fib (Suc 0) = 1"
| "fib (Suc (Suc n)) = fib (Suc n) + fib n"

text \<open>
  A tree of height \<open>h\<close> weighs at least as much as a Fibonacci number, because no live tree is
  lighter than a child of another.
\<close>

fun fib_tree :: "(nat \<Rightarrow> nat) \<Rightarrow> huff_tree \<Rightarrow> bool" where
  "fib_tree w (HLeaf a) \<longleftrightarrow> 0 < w a"
| "fib_tree w (HNode ta tb) \<longleftrightarrow> fib_tree w ta \<and> fib_tree w tb \<and>
     fib (Suc (max (tree_height ta) (tree_height tb)) + 2) \<le> tree_weight w ta + tree_weight w tb"

definition fib_forest :: "(nat \<Rightarrow> nat) \<Rightarrow> huff_encodenode multiset \<Rightarrow> bool" where
  "fib_forest w L \<longleftrightarrow>
     (\<forall>n\<in>#L. enCount n = tree_weight w (enTree n) \<and> fib_tree w (enTree n) \<and>
        (\<forall>c\<in>subtrees (enTree n). \<forall>n'\<in>#L. tree_weight w c \<le> enCount n'))"

lemma tree_weight_pos: "fib_tree w t \<Longrightarrow> 0 < tree_weight w t"
  by (induction t) auto

lemma fib_tree_weight: "fib_tree w t \<Longrightarrow> fib (tree_height t + 2) \<le> tree_weight w t"
  by (cases t) (auto simp: numeral_2_eq_2)

lemma fib_tree_child:
  assumes "fib_tree w t" and "tree_height t = Suc h"
  obtains c where "c \<in> subtrees t" "fib (h + 2) \<le> tree_weight w c"
proof (cases t)
  case (HNode ta tb)
  with assms have h: "h = max (tree_height ta) (tree_height tb)" and "fib_tree w ta" "fib_tree w tb" by auto
  with fib_tree_weight [of w ta] fib_tree_weight [of w tb] that HNode show thesis
    by (cases "tree_height ta \<le> tree_height tb") auto
qed (use assms in simp)

lemma fib_join:
  assumes "fib_tree w s" and "fib_tree w t"
    and "\<And>c. c \<in> subtrees s \<Longrightarrow> tree_weight w c \<le> tree_weight w t"
    and "\<And>c. c \<in> subtrees t \<Longrightarrow> tree_weight w c \<le> tree_weight w s"
  shows "fib (Suc (max (tree_height s) (tree_height t)) + 2) \<le> tree_weight w s + tree_weight w t"
proof -
  have 2: "fib (Suc (tree_height x) + 2) \<le> tree_weight w x + tree_weight w y"
    if "fib_tree w x" "fib_tree w y" "\<And>c. c \<in> subtrees x \<Longrightarrow> tree_weight w c \<le> tree_weight w y" for x y
  proof (cases "tree_height x")
    case 0
    have "Suc 0 + 2 = Suc (Suc (Suc 0))" by simp
    then have "fib (Suc (tree_height x) + 2) = 2" unfolding 0 by simp
    then show ?thesis
      using tree_weight_pos [OF that(1)] tree_weight_pos [OF that(2)] by simp
  next
    case (Suc h)
    note fx = that(1)
    obtain c where "c \<in> subtrees x" "fib (h + 2) \<le> tree_weight w c"
      by (rule fib_tree_child [OF fx Suc])
    with that(3) have "fib (h + 2) \<le> tree_weight w y" by (meson order_trans)
    with fib_tree_weight [OF that(1)] show ?thesis by (simp add: Suc)
  qed
  show ?thesis
    using 2 [of s t] 2 [of t s] assms by (cases "tree_height s \<le> tree_height t") (auto simp: max_def)
qed

lemma fib_forest_join: "join_keeps (fib_forest w)"
proof -
  have "fib_forest w (add_mset (huff_parent n1 n2) L)"
    if f: "fib_forest w (add_mset n1 (add_mset n2 L))" and "enCount n1 \<le> enCount n2"
      and light: "\<forall>n\<in>#L. enCount n2 \<le> enCount n" for L n1 n2
  proof -
    from f have n: "fib_tree w (enTree n1)" "fib_tree w (enTree n2)"
      "enCount n1 = tree_weight w (enTree n1)" "enCount n2 = tree_weight w (enTree n2)"
      "\<And>c. c \<in> subtrees (enTree n1) \<Longrightarrow> tree_weight w c \<le> tree_weight w (enTree n2)"
      "\<And>c. c \<in> subtrees (enTree n2) \<Longrightarrow> tree_weight w c \<le> tree_weight w (enTree n1)"
      unfolding fib_forest_def by auto
    have "fib_tree w (HNode (enTree n1) (enTree n2))"
      using fib_join [OF n(1,2,5,6)] n(1,2) by simp
    moreover have "\<forall>n\<in>#L. enCount n = tree_weight w (enTree n) \<and> fib_tree w (enTree n)"
      using f by (simp add: fib_forest_def)
    moreover have "tree_weight w c \<le> enCount n'"
      if "n \<in># add_mset (huff_parent n1 n2) L" "c \<in> subtrees (enTree n)" "n' \<in># add_mset (huff_parent n1 n2) L"
      for n c n'
    proof -
      have m: "x \<in># L \<Longrightarrow> x \<in># add_mset n1 (add_mset n2 L)" for x by simp
      have "tree_weight w c \<le> enCount x" if "n \<in># L" "x \<in># add_mset n1 (add_mset n2 L)" for x
        using f m [OF that(1)] that(2) \<open>c \<in> subtrees (enTree n)\<close> unfolding fib_forest_def by blast
      then have old: "tree_weight w c \<le> enCount n2 \<and> (\<forall>n'\<in>#L. tree_weight w c \<le> enCount n')"
        if "n \<in># L" using that by simp
      have new: "tree_weight w c \<le> enCount n2" if "n = huff_parent n1 n2"
        using that \<open>c \<in> subtrees (enTree n)\<close> n(3,4) \<open>enCount n1 \<le> enCount n2\<close>
        by (auto simp: huff_parent_def)
      have "tree_weight w c \<le> enCount n2 \<and> (\<forall>n'\<in>#L. tree_weight w c \<le> enCount n')"
        using old new light that(1) by (auto intro: order_trans)
      with that(3) show ?thesis by (auto simp: huff_parent_def intro: trans_le_add2)
    qed
    ultimately show ?thesis
      using n(3,4) unfolding fib_forest_def by (auto simp: huff_parent_def)
  qed
  then show ?thesis by (auto simp: join_keeps_def)
qed

lemma tree_path_height: "a \<in> set (leaves t) \<Longrightarrow> length (tree_path t a) \<le> tree_height t"
  by (induction t) (auto simp: max_def)

lemma fib_mono: "m \<le> n \<Longrightarrow> fib m \<le> fib n"
proof (induction rule: inc_induct)
  case (step n)
  have "fib n \<le> fib (Suc n)" by (cases n rule: fib.cases) auto
  with step show ?case by simp
qed simp

lemma tree_weight_leaves: "tree_weight w t = (\<Sum>a\<in>#mset (leaves t). w a)"
  by (induction t) auto

subsection \<open>The whole block\<close>

definition used_symbols :: "byte list \<Rightarrow> nat list" where
  "used_symbols ins = filter (\<lambda>k. to_byte k \<in> set ins) [0..<256]"

lemma set_used_symbols: "set (used_symbols ins) = unat ` set ins"
proof
  show "set (used_symbols ins) \<subseteq> unat ` set ins"
  proof
    fix k
    assume "k \<in> set (used_symbols ins)"
    then have "k < 256" "to_byte k \<in> set ins" by (auto simp: used_symbols_def)
    then show "k \<in> unat ` set ins" by (metis image_eqI unat_to_byte)
  qed
  show "unat ` set ins \<subseteq> set (used_symbols ins)"
    by (auto simp: used_symbols_def)
qed

lemma distinct_used_symbols: "distinct (used_symbols ins)"
  by (simp add: used_symbols_def)

lemma Huffman_Hist_map:
  "Huffman_Hist ins = map (\<lambda>k. \<lparr>symSymbol = k, symCount = count_list ins (to_byte k), symCode = 0, symBits = 0\<rparr>) [0..<256]"
  by (rule nth_equalityI) (simp_all add: Huffman_Hist_index)

lemma Huffman_Hist_in_order: "symbols_in_order (Huffman_Hist ins)"
  by (simp add: symbols_in_order_def Huffman_Hist_map comp_def)

lemma Huffman_leaves_Hist:
  "Huffman_leaves (Huffman_Hist ins)
    = map (\<lambda>k. \<lparr>enTree = HLeaf k, enCount = count_list ins (to_byte k)\<rparr>) (used_symbols ins)"
  by (simp add: Huffman_leaves_def Huffman_Hist_map used_symbols_def filter_map comp_def count_pos)

lemma used_symbols_weight: "(\<Sum>a\<in>#mset (used_symbols ins). count_list ins (to_byte a)) = length ins"
proof -
  have "(\<Sum>a\<in>#mset (used_symbols ins). count_list ins (to_byte a))
    = (\<Sum>a\<in>set (used_symbols ins). count_list ins (to_byte a))"
    using distinct_used_symbols [of ins] by (metis mset_set_set sum_unfold_sum_mset)
  also have "\<dots> = (\<Sum>b\<in>set ins. count_list ins b)"
    unfolding set_used_symbols by (subst sum.reindex) (auto intro: inj_onI unsigned_word_eqI)
  also have "\<dots> = length ins" by (rule sum_count_list) auto
  finally show ?thesis .
qed

lemma length_used_symbols: "length (used_symbols ins) \<le> 256"
  using length_filter_le [of "\<lambda>k. to_byte k \<in> set ins" "[0..<256]"] by (simp add: used_symbols_def)

lemma used_symbols_Nil: "used_symbols ins = [] \<longleftrightarrow> ins = []"
  using set_used_symbols [of ins] by (metis empty_set image_is_empty set_empty)

text \<open>The tree of a block and the number of bits at which its codes start.\<close>

definition huff_tree_of :: "byte list \<Rightarrow> huff_tree \<Rightarrow> bool" where
  "huff_tree_of ins t \<longleftrightarrow>
     mset (leaves t) = mset (used_symbols ins) \<and> fib_tree (\<lambda>a. count_list ins (to_byte a)) t"

definition single_symbol :: "byte list \<Rightarrow> bool" where
  "single_symbol ins \<longleftrightarrow> length (used_symbols ins) = 1"

lemma Huffman_MakeTree_root:
  assumes "ins \<noteq> []"
  obtains t where "huff_tree_of ins t"
    and "\<And>s. Huffman_MakeTree (Huffman_Hist ins) s
      = Huffman_StoreTree t (Huffman_Hist ins) s 0 (if single_symbol ins then 1 else 0)"
proof -
  let ?w = "\<lambda>a. count_list ins (to_byte a)"
  let ?nodes = "Huffman_leaves (Huffman_Hist ins)"
  let ?P = "\<lambda>L. live_leaves L = mset (used_symbols ins) \<and> fib_forest ?w L"
  have pos: "\<forall>a\<in>set (used_symbols ins). 0 < ?w a" by (simp add: used_symbols_def count_pos)
  have all: "live_nodes ?nodes = mset ?nodes"
    unfolding live_nodes_def mset_filter [symmetric]
    by (subst filter_True) (use pos in \<open>auto simp: Huffman_leaves_Hist\<close>)
  have len: "length ?nodes = length (used_symbols ins)" by (simp add: Huffman_leaves_Hist)
  have n0: "0 < length ?nodes" using used_symbols_Nil [of ins] assms by (simp add: len)
  have "join_keeps ?P"
    using live_leaves_join [of "mset (used_symbols ins)"] fib_forest_join [of ?w] unfolding join_keeps_def by blast
  moreover have "?P (live_nodes ?nodes)"
    unfolding all using pos
    by (auto simp: Huffman_leaves_Hist live_leaves_def fib_forest_def image_mset.compositionality comp_def)
  ultimately obtain nodes' where build: "Huffman_build (length ?nodes) ?nodes = Some nodes'"
    and P: "?P (live_nodes nodes')" and one: "size (live_nodes nodes') = 1"
    and last: "1 < length ?nodes \<longrightarrow> nodes' \<noteq> [] \<and> last nodes' \<in># live_nodes nodes'"
    and single: "length ?nodes = 1 \<longrightarrow> nodes' = ?nodes"
    using Huffman_build_invariant [of ?P ?nodes "length ?nodes"] n0 length_used_symbols [of ins]
    by (auto simp: all len MAX_TREE_NODES_def)
  from one obtain r where r: "live_nodes nodes' = {#r#}" using size_1_singleton_mset by blast
  have t: "huff_tree_of ins (enTree r)"
    using P r by (auto simp: huff_tree_of_def live_leaves_def fib_forest_def)
  have "Huffman_MakeTree (Huffman_Hist ins) s
      = Huffman_StoreTree (enTree r) (Huffman_Hist ins) s 0 (if single_symbol ins then 1 else 0)" for s
  proof (cases "length ?nodes = 1")
    case True
    with single have "nodes' = ?nodes" "?nodes \<noteq> []" by auto
    moreover have "?nodes ! 0 = r"
      using True r all \<open>nodes' = ?nodes\<close> by (cases ?nodes) auto
    ultimately show ?thesis using build True len by (simp add: Huffman_MakeTree_def single_symbol_def Let_def)
  next
    case False
    with n0 have "1 < length ?nodes" by linarith
    with last r have "last nodes' = r" by simp
    with build False \<open>1 < length ?nodes\<close> len show ?thesis
      by (simp add: Huffman_MakeTree_def single_symbol_def Let_def)
  qed
  with t that show thesis by blast
qed

lemma huff_tree_ofD:
  assumes "huff_tree_of ins t"
  shows "set (leaves t) = unat ` set ins" and "distinct (leaves t)" and "set (leaves t) \<subseteq> {..<256}"
    and "length (leaves t) = length (used_symbols ins)" and "tree_weight (\<lambda>a. count_list ins (to_byte a)) t = length ins"
proof -
  have m: "mset (leaves t) = mset (used_symbols ins)" using assms by (simp add: huff_tree_of_def)
  from m show "set (leaves t) = unat ` set ins" by (metis set_mset_mset set_used_symbols)
  then show "set (leaves t) \<subseteq> {..<256}" by auto
  from m show "distinct (leaves t)" by (metis distinct_used_symbols mset_eq_imp_distinct_iff)
  from m show "length (leaves t) = length (used_symbols ins)" by (rule mset_eq_length)
  from m show "tree_weight (\<lambda>a. count_list ins (to_byte a)) t = length ins"
    by (simp only: tree_weight_leaves used_symbols_weight)
qed

lemma leaves_1: "length (leaves t) = 1 \<Longrightarrow> \<exists>a. t = HLeaf a"
proof (cases t)
  case (HNode ta tb)
  have "0 < length (leaves u)" for u by (induction u) auto
  from this [of ta] this [of tb] show "length (leaves t) = 1 \<Longrightarrow> ?thesis" by (simp add: HNode)
qed simp

lemma tree_nodes_leaves: "Suc (tree_nodes t) = 2 * length (leaves t)"
  by (induction t) auto

text \<open>The code of a byte; when there is only one, its code is a single 0 that the decoder does not read.\<close>

definition huff_code :: "byte list \<Rightarrow> huff_tree \<Rightarrow> byte \<Rightarrow> bool list" where
  "huff_code ins t b = (if single_symbol ins then [False] else tree_path t (unat b))"

lemma huff_table_holds:
  assumes t: "huff_tree_of ins t"
    and set: "table_set (Huffman_Hist ins) t 0 (if single_symbol ins then 1 else 0) tab"
  shows "table_holds (bubble_sort (\<lambda>e. int (symSymbol e)) tab) (huff_code ins t) (set ins)"
proof -
  have order: "map symSymbol tab = [0..<256]"
    using set by (simp add: table_set_def symbols_in_order_def)
  then have "map (\<lambda>e. int (symSymbol e)) tab = map int [0..<256]"
    by (metis (no_types) comp_apply list.map_comp map_ext)
  then have "sorted (map (\<lambda>e. int (symSymbol e)) tab)"
    by (simp only: sorted_map sorted_upt) (simp add: sorted_wrt_upt sorted_wrt_map)
  then have sort: "bubble_sort (\<lambda>e. int (symSymbol e)) tab = tab" by (rule bubble_sort_id)
  have "symCode (tab ! unat b) = code_word (huff_code ins t b) \<and> symBits (tab ! unat b) = length (huff_code ins t b)"
    if "b \<in> set ins" for b
  proof -
    have "unat b \<in> set (leaves t)" using that huff_tree_ofD(1) [OF t] by auto
    then have "tab ! unat b = (Huffman_Hist ins ! unat b)\<lparr>symCode := fold code_step (tree_path t (unat b)) 0,
        symBits := (if single_symbol ins then 1 else 0) + length (tree_path t (unat b))\<rparr>"
      using set by (simp add: table_set_def)
    moreover have "tree_path t (unat b) = []" if "single_symbol ins"
      using that leaves_1 [of t] huff_tree_ofD(4) [OF t] by (auto simp: single_symbol_def)
    ultimately show ?thesis
      by (auto simp: huff_code_def code_word_def code_step_def)
  qed
  then show ?thesis by (simp add: table_holds_def sort)
qed

lemma InitBitstream_ok: "bs_ok (Huffman_InitBitstream out)"
  by (simp add: bs_ok_def bs_pos_def Huffman_InitBitstream_def)

lemma Huffman_Compress_wrote:
  assumes "Huffman_Compress ins out = Some z" and "ins \<noteq> []"
  obtains t s where "huff_tree_of ins t"
    and "bs_wrote (Huffman_InitBitstream out) (tree_bits t @ concat (map (huff_code ins t) ins)) s"
    and "z = take (bs_total_bytes s) (bsBuf s)"
proof -
  obtain t where t: "huff_tree_of ins t" and make: "\<And>s. Huffman_MakeTree (Huffman_Hist ins) s
      = Huffman_StoreTree t (Huffman_Hist ins) s 0 (if single_symbol ins then 1 else 0)"
    using Huffman_MakeTree_root [OF assms(2)] by blast
  let ?s0 = "Huffman_InitBitstream out"
  from assms obtain tab s1 s where
    store: "Huffman_StoreTree t (Huffman_Hist ins) ?s0 0 (if single_symbol ins then 1 else 0) = Some (tab, s1)"
    and enc: "Huffman_encode (bubble_sort (\<lambda>e. int (symSymbol e)) tab) ins s1 = Some s"
    and z: "z = take (bs_total_bytes s) (bsBuf s)"
    unfolding Huffman_Compress_def Let_def make by (auto simp: bind_eq_Some_conv split: if_splits)
  have st: "bs_wrote ?s0 (tree_bits t) s1"
    "table_set (Huffman_Hist ins) t 0 (if single_symbol ins then 1 else 0) tab"
    using Huffman_StoreTree_wrote [OF store InitBitstream_ok Huffman_Hist_in_order]
      huff_tree_ofD(2,3) [OF t] by auto
  have "bs_wrote s1 (concat (map (huff_code ins t) ins)) s"
    using Huffman_encode_wrote [OF huff_table_holds [OF t st(2)] subset_refl bs_wrote_ok [OF st(1)] enc] by simp
  from that [OF t bs_wrote_trans [OF st(1) this] z] show thesis .
qed

lemma huff_code_nonempty: "huff_tree_of ins t \<Longrightarrow> b \<in> set ins \<Longrightarrow> huff_code ins t b \<noteq> []"
  using huff_tree_ofD(1,4) [of ins t] used_symbols_Nil [of ins]
  by (cases t) (auto simp: huff_code_def single_symbol_def)

lemma huff_decode_all:
  assumes t: "huff_tree_of ins t" and d: "tree_match t d"
    and at: "bs_at s (concat (map (huff_code ins t) ins) @ r)"
  shows "Huffman_decode Huffman_walk d (length ins) s = Some ins"
proof -
  have path: "Huffman_path d x = Some (tree_path t (unat x))" if "x \<in> set ins" for x
    using tree_match_path [OF d huff_tree_ofD(3) [OF t], of x] that huff_tree_ofD(1) [OF t] by auto
  show ?thesis
  proof (cases "single_symbol ins")
    case True
    then have "tree_path t (unat x) = []" for x :: byte
      using leaves_1 [of t] huff_tree_ofD(4) [OF t] by (auto simp: single_symbol_def)
    then have "\<forall>x\<in>set ins. Huffman_path d x = Some []" using path by simp
    from huff.decode_all [OF this, of s "concat (map (huff_code ins t) ins) @ r"] at show ?thesis
      by (simp add: map_replicate_const)
  next
    case False
    with path have "\<forall>x\<in>set ins. Huffman_path d x = Some (huff_code ins t x)" by (simp add: huff_code_def)
    from huff.decode_all [OF this at] show ?thesis .
  qed
qed



subsection \<open>When the encoder succeeds\<close>

lemma Huffman_StoreTree_total:
  assumes "bs_ok s" and "symbols_in_order tab" and "set (leaves t) \<subseteq> {..<256}" and "distinct (leaves t)"
    and "bs_pos s + length (tree_bits t) \<le> 8 * length (bsBuf s)"
  shows "\<exists>tab' s'. Huffman_StoreTree t tab s code bits = Some (tab', s')"
  using assms
proof (induction t arbitrary: tab s code bits)
  case (HLeaf a)
  then have len: "bs_pos s + 9 \<le> 8 * length (bsBuf s)" and a: "a < 256" by simp_all
  obtain s1 where 1: "Huffman_WriteBits s 1 1 = Some s1" and w: "bs_wrote s (word_bits 1 1) s1"
    by (rule Huffman_WriteBits_total [of s 1 1]) (use HLeaf(1) len in auto)
  have p: "bs_pos s1 = bs_pos s + 1" "length (bsBuf s1) = length (bsBuf s)"
    using bs_wrote_pos [OF HLeaf(1) w] w by (simp_all add: bs_wrote_def)
  obtain s2 where 2: "Huffman_WriteBits s1 (word_of_nat a) 8 = Some s2"
    by (rule Huffman_WriteBits_total [of s1 8 "word_of_nat a"]) (use bs_wrote_ok [OF w] p len in auto)
  from 1 2 a symbols_in_orderD(2) [OF HLeaf(2)] Huffman_sym_index_in_order [OF HLeaf(2) a]
  show ?case by simp
next
  case (HNode ta tb)
  then have len: "bs_pos s + 1 + length (tree_bits ta) + length (tree_bits tb) \<le> 8 * length (bsBuf s)" by simp
  obtain s1 where 1: "Huffman_WriteBits s 0 1 = Some s1" and w: "bs_wrote s (word_bits 1 0) s1"
    by (rule Huffman_WriteBits_total [of s 1 0]) (use HNode.prems(1) len in auto)
  have p: "bs_pos s1 = bs_pos s + 1" "length (bsBuf s1) = length (bsBuf s)"
    using bs_wrote_pos [OF HNode.prems(1) w] w by (simp_all add: bs_wrote_def)
  obtain tab2 s2 where 2: "Huffman_StoreTree ta tab s1 (push_bit 1 code + 0) (bits + 1) = Some (tab2, s2)"
    using HNode.IH(1) [OF bs_wrote_ok [OF w] HNode.prems(2)] HNode.prems(3,4) p len by fastforce
  have st: "bs_wrote s1 (tree_bits ta) s2" "table_set tab ta (push_bit 1 code + 0) (bits + 1) tab2"
    using Huffman_StoreTree_wrote [OF 2 bs_wrote_ok [OF w] HNode.prems(2)] HNode.prems(3,4) by auto
  have p2: "bs_pos s2 = bs_pos s1 + length (tree_bits ta)" "length (bsBuf s2) = length (bsBuf s1)"
    using bs_wrote_pos [OF bs_wrote_ok [OF w] st(1)] st(1) by (simp_all add: bs_wrote_def)
  have "symbols_in_order tab2" using st(2) by (simp add: table_set_def)
  then obtain tab3 s3 where "Huffman_StoreTree tb tab2 s2 (push_bit 1 code + 1) (bits + 1) = Some (tab3, s3)"
    using HNode.IH(2) [OF bs_wrote_ok [OF st(1)]] HNode.prems(3,4) p p2 len by fastforce
  with 1 2 show ?case by simp
qed

lemma length_tree_bits: "length (tree_bits t) + 1 = 10 * length (leaves t)"
  by (induction t) auto

fun fib_from :: "nat \<Rightarrow> nat \<Rightarrow> nat \<Rightarrow> nat" where
  "fib_from a b 0 = a"
| "fib_from a b (Suc n) = fib_from b (a + b) n"

lemma fib_from: "fib_from (fib m) (fib (Suc m)) n = fib (m + n)"
proof (induction n arbitrary: m)
  case (Suc n)
  from Suc [of "Suc m"] show ?case by (simp add: add.commute)
qed simp

lemma fib_from_numeral: "fib_from a b (numeral v) = fib_from b (a + b) (pred_numeral v)"
  by (simp add: numeral_eq_Suc)

lemma fib_from_1: "fib_from a b 1 = b"
  by simp

lemma fib_35: "fib 35 = 9227465"
  using fib_from [of 0 35] by (simp add: fib_from_numeral fib_from_1 del: One_nat_def)

lemma huff_height:
  assumes "huff_tree_of ins t" and "length ins < 9227465"
  shows "tree_height t \<le> 32"
proof (rule ccontr)
  assume "\<not> tree_height t \<le> 32"
  then have "fib 35 \<le> fib (tree_height t + 2)" by (intro fib_mono) simp
  also have "\<dots> \<le> length ins"
    using fib_tree_weight [of "\<lambda>a. count_list ins (to_byte a)" t] assms(1) huff_tree_ofD(5) [OF assms(1)]
    by (simp add: huff_tree_of_def)
  finally show False using assms(2) by (simp add: fib_35)
qed

lemma Huffman_Compress_Some:
  assumes "length ins < 9227465" and "320 + 4 * length ins \<le> length out"
  shows "\<exists>z. Huffman_Compress ins out = Some z"
proof (cases "ins = []")
  case False
  obtain t where t: "huff_tree_of ins t" and make: "\<And>s. Huffman_MakeTree (Huffman_Hist ins) s
      = Huffman_StoreTree t (Huffman_Hist ins) s 0 (if single_symbol ins then 1 else 0)"
    using Huffman_MakeTree_root [OF False] by blast
  let ?s0 = "Huffman_InitBitstream out"
  have bits: "length (tree_bits t) \<le> 2560"
    using length_tree_bits [of t] huff_tree_ofD(4) [OF t] length_used_symbols [of ins] by simp
  have pos0: "bs_pos ?s0 = 0" "bsBuf ?s0 = out" by (simp_all add: bs_pos_def Huffman_InitBitstream_def)
  obtain tab s1 where
    store: "Huffman_StoreTree t (Huffman_Hist ins) ?s0 0 (if single_symbol ins then 1 else 0) = Some (tab, s1)"
    using Huffman_StoreTree_total [OF InitBitstream_ok Huffman_Hist_in_order huff_tree_ofD(3) [OF t] huff_tree_ofD(2) [OF t]]
      bits assms(2) by (fastforce simp: pos0)
  have st: "bs_wrote ?s0 (tree_bits t) s1"
    "table_set (Huffman_Hist ins) t 0 (if single_symbol ins then 1 else 0) tab"
    using Huffman_StoreTree_wrote [OF store InitBitstream_ok Huffman_Hist_in_order]
      huff_tree_ofD(2,3) [OF t] by auto
  have pos1: "bs_pos s1 = length (tree_bits t)" "length (bsBuf s1) = length out"
    using bs_wrote_pos [OF InitBitstream_ok st(1)] st(1) by (simp_all add: pos0 bs_wrote_def)
  have len: "huff_code ins t b \<noteq> [] \<and> length (huff_code ins t b) \<le> 32" if "b \<in> set ins" for b
    using tree_path_height [of "unat b" t] huff_height [OF t assms(1)] that huff_tree_ofD(1,4) [OF t]
    by (cases t) (auto simp: huff_code_def single_symbol_def)
  have "(\<Sum>b\<leftarrow>bs. length (huff_code ins t b)) \<le> 32 * length bs" if "set bs \<subseteq> set ins" for bs
    using that len by (induction bs) force+
  then have "bs_pos s1 + (\<Sum>b\<leftarrow>ins. length (huff_code ins t b)) \<le> 8 * length (bsBuf s1)"
    using bits assms(2) pos1 by fastforce
  with Huffman_encode_total [OF huff_table_holds [OF t st(2)] subset_refl bs_wrote_ok [OF st(1)]] len
  obtain s where "Huffman_encode (bubble_sort (\<lambda>e. int (symSymbol e)) tab) ins s1 = Some s" by blast
  with store show ?thesis
    using False by (simp add: Huffman_Compress_def Let_def make Suc_le_eq)
qed (simp add: Huffman_Compress_def)


text \<open>C18: On every block shorter than the 35th Fibonacci number no code is longer than 32 bits, so the
  encoder makes no undefined shift and, with an output buffer of 320 bytes for the tree and four
  bytes per byte of the block, does not write outside it.\<close>

theorem Huffman_Compress_total:
  assumes "length ins < 9227465" and "320 + 4 * length ins \<le> length out"
  shows "\<exists>z. Huffman_Compress ins out = Some z"
  using assms by (rule Huffman_Compress_Some)

theorem Huffman_Compress_total_witness:
  "\<exists>z. Huffman_Compress [7, 9, 7] (replicate 332 0) = Some z"
  using Huffman_Compress_total [of "[7, 9, 7]" "replicate 332 0"] by simp


end
