(* ===== verification/Bcl_Codecs.thy ===== *)
theory Bcl_Codecs
  imports Simple_Codecs Bcl_Rle Bcl_Lz Bcl_Huffman
begin

text \<open>
  The adapters of \<open>bcl.cpp\<close>, which plug the coders of the Basic Compression Library into the
  harness: the sizes become 32-bit \<open>int\<close>s on the way in and \<open>size_t\<close> again on the way out, and the
  coders get the pointers into the blocks. In a block with the padding of the harness the LZ77
  coders may read the byte behind the data, so that the codecs satisfy the contract the verification
  asks for.
\<close>

subsection \<open>The adapters\<close>

text \<open>A \<open>size_t\<close> passed as an \<open>unsigned int\<close>, and an \<open>int\<close> returned as a \<open>size_t\<close>.\<close>

definition size_to_uint :: "nat \<Rightarrow> nat" where
  "size_to_uint n = n mod 2 ^ 32"

definition int_to_size :: "nat \<Rightarrow> nat" where
  "int_to_size n = (let m = n mod 2 ^ 32 in if m < 2 ^ 31 then m else m + (2 ^ 64 - 2 ^ 32))"

text \<open>The coder's output, written to the start of the output block.\<close>

definition put_output :: "byte list \<Rightarrow> byte list \<Rightarrow> byte list \<Rightarrow> nat \<Rightarrow> (byte list \<times> byte list \<times> nat) option" where
  "put_output ib ob c ret = (if length ob < length c then None else Some (ib, c @ drop (length c) ob, ret))"

definition rle :: coder where
  "rle ib isize ob osize =
    (let c = RLE_Compress (take (size_to_uint isize) ib) in put_output ib ob c (int_to_size (length c)))"

definition unrle :: coder where
  "unrle ib isize ob osize =
    (case RLE_Uncompress (take (size_to_uint isize) ib) of
       None \<Rightarrow> None
     | Some d \<Rightarrow> put_output ib ob d osize)"

definition rle_maxsize :: "nat \<Rightarrow> nat" where
  "rle_maxsize isize = isize + isize div 256 + 1"

definition lz :: coder where
  "lz ib isize ob osize =
    (case LZ_Compress ib (size_to_uint isize) of
       None \<Rightarrow> None
     | Some c \<Rightarrow> put_output ib ob c (int_to_size (length c)))"

definition unlz :: coder where
  "unlz ib isize ob osize =
    (case LZ_Uncompress (take (size_to_uint isize) ib) of
       None \<Rightarrow> None
     | Some d \<Rightarrow> put_output ib ob d osize)"

definition lz_maxsize :: "nat \<Rightarrow> nat" where
  "lz_maxsize isize = isize + isize div 256 + 1"

text \<open>\<open>work\<close> is what the work area of the thread holds.\<close>

definition lzfast :: "(nat \<Rightarrow> nat) \<Rightarrow> coder" where
  "lzfast work ib isize ob osize =
    (case LZ_CompressFast ib (size_to_uint isize) work of
       None \<Rightarrow> None
     | Some c \<Rightarrow> put_output ib ob c (int_to_size (length c)))"

definition huffman :: coder where
  "huffman ib isize ob osize =
    (case Huffman_Compress (take (size_to_uint isize) ib) ob of
       None \<Rightarrow> None
     | Some c \<Rightarrow> put_output ib ob c (int_to_size (length c)))"

definition unhuffman :: coder where
  "unhuffman ib isize ob osize =
    (case Huffman_Uncompress (take (size_to_uint isize) ib) (size_to_uint osize) of
       None \<Rightarrow> None
     | Some d \<Rightarrow> put_output ib ob d osize)"

definition huffman_maxsize :: "nat \<Rightarrow> nat" where
  "huffman_maxsize isize = isize + isize div 100 + 320"

text \<open>\<open>LZFast::init\<close>: the number of work words of each thread, computed in \<open>int\<close>.\<close>

definition lzfast_piece_size :: "nat \<Rightarrow> int" where
  "lzfast_piece_size isize = sint (word_of_nat (isize + 65536) :: 32 word)"

subsection \<open>The adapters satisfy the contract\<close>

lemma int_to_size_id: "n < 2 ^ 31 \<Longrightarrow> int_to_size n = n"
  by (simp add: int_to_size_def)

lemma size_to_uint_id: "n < 2 ^ 32 \<Longrightarrow> size_to_uint n = n"
  by (simp add: size_to_uint_def)

text \<open>
  A codec that writes the code \<open>c\<close> of the data to the output block, and whose decoder is inverse on
  such codes.
\<close>

lemma moving_codecI:
  assumes "bs < 2 ^ 30" "bs + bs div 256 + 1 \<le> w"
    and enc: "\<And>ib n ob m. bs < length ib \<Longrightarrow> n \<le> bs \<Longrightarrow> \<exists>c. encode (take n ib) c \<and>
        length c \<le> n + n div 256 + 1 \<and>
        enc ib n ob m = put_output ib ob c (int_to_size (length c))"
    and dec: "\<And>dec d c ib ob. dec \<in> decs \<Longrightarrow> encode d c \<Longrightarrow> length c < 2 ^ 31 \<Longrightarrow> take (length c) ib = c \<Longrightarrow>
        dec ib (length c) ob (length d) = put_output ib ob d (length d)"
  shows "moving_codec enc decs w bs UNIV"
proof
  fix ib ob :: "byte list" and n m
  assume *: "length ib = w" "length ob = w" "0 < n" "n \<le> bs"
  have "bs < w" using assms(2) by simp
  then obtain c where c: "encode (take n ib) c" "length c \<le> n + n div 256 + 1"
    "enc ib n ob m = put_output ib ob c (int_to_size (length c))"
    using enc [of ib n ob m] * by auto
  have "n div 256 \<le> bs div 256" using *(4) by (rule div_le_mono)
  then have len: "length c \<le> w" "length c < 2 ^ 31" using c(2) * assms(1,2) by simp_all
  let ?ob = "c @ drop (length c) ob"
  have run: "enc ib n ob m = Some (ib, ?ob, length c)"
    using c(3) len * by (simp add: put_output_def int_to_size_id)
  have "decodable decs w (length c) ?ob n (take n ib)"
  proof (rule decodableI)
    fix dec and ib2 ob2 :: "byte list"
    assume 2: "dec \<in> decs" "length ib2 = w" "length ob2 = w" "take (length c) ib2 = take (length c) ?ob"
    have n: "length (take n ib) = n" using * \<open>bs < w\<close> by simp
    have "dec ib2 (length c) ob2 n = put_output ib2 ob2 (take n ib) n"
      using dec [OF 2(1) c(1) len(2), of ib2 ob2] 2(4) n by simp
    then show "\<exists>ib' ob' k. dec ib2 (length c) ob2 n = Some (ib', ob', k) \<and> k \<noteq> CODING_ERROR \<and>
        length ib' = w \<and> length ob' = w \<and> take (length c) ib' = take (length c) ?ob \<and>
        take n ob' = take n ib"
      using 2 n * \<open>bs < w\<close> by (simp add: put_output_def CODING_ERROR_def)
  qed
  then show "\<exists>ib' ob' r. enc ib n ob m = Some (ib', ob', r) \<and> length ib' = w \<and> length ob' = w \<and>
      r \<le> w \<and> take n ib' = take n ib \<and> (r \<noteq> CODING_ERROR \<longrightarrow> decodable decs w r ob' n (take n ib))"
    using run len * by simp
qed

lemma rle_codec:
  assumes "bs < 2 ^ 30" "bs + bs div 256 + 1 \<le> w"
  shows "moving_codec rle {unrle} w bs UNIV"
  using assms
proof (rule moving_codecI)
  show "\<exists>c. (c = RLE_Compress (take n ib)) \<and> length c \<le> n + n div 256 + 1 \<and>
      rle ib n ob m = put_output ib ob c (int_to_size (length c))"
    if "bs < length ib" "n \<le> bs" for ib n ob m
    using that assms(1) RLE_Compress_length [of "take n ib"]
    by (simp add: rle_def size_to_uint_id Let_def)
  show "dec ib (length c) ob (length d) = put_output ib ob d (length d)"
    if "dec \<in> {unrle}" "c = RLE_Compress d" "length c < 2 ^ 31" "take (length c) ib = c" for dec d c ib ob
    using that by (simp add: unrle_def size_to_uint_id RLE_Uncompress_Compress)
qed

lemma lz_decoder:
  assumes "dec \<in> {unlz}" "LZ_Uncompress c = Some d" "length c < 2 ^ 31" "take (length c) ib = c"
  shows "dec ib (length c) ob (length d) = put_output ib ob d (length d)"
  using assms by (simp add: unlz_def size_to_uint_id)

lemma lz_codec:
  assumes "bs < 2 ^ 30" "bs + bs div 256 + 1 \<le> w"
  shows "moving_codec lz {unlz} w bs UNIV"
  using assms
proof (rule moving_codecI)
  show "\<exists>c. LZ_Uncompress c = Some (take n ib) \<and> length c \<le> n + n div 256 + 1 \<and>
      lz ib n ob m = put_output ib ob c (int_to_size (length c))"
    if "bs < length ib" "n \<le> bs" for ib n ob m
    using that assms(1) LZ_Compress_total(1) [of n ib] LZ_Compress_decodes [of ib n]
    by (auto simp: lz_def size_to_uint_id)
qed (rule lz_decoder)

lemma lzfast_codec:
  assumes "bs < 2 ^ 30" "bs + bs div 256 + 1 \<le> w"
  shows "moving_codec (lzfast work) {unlz} w bs UNIV"
  using assms
proof (rule moving_codecI)
  show "\<exists>c. LZ_Uncompress c = Some (take n ib) \<and> length c \<le> n + n div 256 + 1 \<and>
      lzfast work ib n ob m = put_output ib ob c (int_to_size (length c))"
    if "bs < length ib" "n \<le> bs" for ib n ob m
    using that assms(1) LZ_Compress_total(2) [of n ib work] LZ_CompressFast_decodes [of ib n work]
    by (auto simp: lzfast_def size_to_uint_id)
qed (rule lz_decoder)

lemma fold_max_mem: "f \<in> set fs \<Longrightarrow> f x \<le> fold (\<lambda>f m. max m (f x)) fs (m :: nat)"
proof (induction fs arbitrary: m)
  case (Cons g fs)
  then show ?case using fold_max_ge [of "max m (g x)" x fs] by auto
qed simp

text \<open>The blocks of the working buffers hold what the codec asked for, and the padding.\<close>

lemma workbuf_block_size_ge:
  assumes "new_tester max_sizes file desired_bsize threads = Inr t" "length file < 2 ^ 62"
    and "\<forall>f\<in>set max_sizes. f (t_bsize t) < 2 ^ 62" and "f \<in> set max_sizes"
  shows "f (t_bsize t) + OVERRUN_PAD \<le> workbuf_block_size t"
proof -
  let ?bs = "min desired_bsize (length file)"
  let ?m = "fold (\<lambda>f m. max m (f ?bs)) max_sizes ?bs"
  obtain r w where w: "round_up (?m + OVERRUN_PAD) ALIGNMENT = Some w"
    and t: "t_bsize t = ?bs" "workbuf_block_size t = w"
    using assms(1) by (auto simp: new_tester_def Let_def and_then_Inr_iff or_error_Inr_iff split: if_splits)
  have "?m < 2 ^ 62"
    using assms(2,3) t by (intro fold_max_less) auto
  then have "?m + OVERRUN_PAD + ALIGNMENT \<le> SIZE_MAX"
    by (simp add: SIZE_MAX_def OVERRUN_PAD_def ALIGNMENT_def)
  from round_up_bounds(2) [OF w this] show ?thesis
    using fold_max_mem [OF assms(4), of ?bs ?bs] t by simp
qed

subsection \<open>The BCL codecs pass the verification\<close>

text \<open>The coding functions of each thread; \<open>work i\<close> is what the work area of thread \<open>i\<close> holds.\<close>

definition bcl_coders :: "(nat \<Rightarrow> nat \<Rightarrow> nat) \<Rightarrow> ((nat \<Rightarrow> coder) \<times> (nat \<Rightarrow> coder)) set" where
  "bcl_coders work = {(\<lambda>_. rle, \<lambda>_. unrle), (\<lambda>_. lz, \<lambda>_. unlz), (\<lambda>i. lzfast (work i), \<lambda>_. unlz)}"

lemma bcl_codec:
  assumes "(enc, dec) \<in> bcl_coders work" "bs < 2 ^ 30" "rle_maxsize bs \<le> w"
  shows "moving_codec (enc i) {dec i} w bs UNIV" "dec i = dec j"
  using assms rle_codec [of bs w] lz_codec [of bs w] lzfast_codec [of bs w "work i"]
  by (auto simp: bcl_coders_def rle_maxsize_def)

lemma rle_lz_maxsize: "lz_maxsize = rle_maxsize"
  by (simp add: fun_eq_iff lz_maxsize_def rle_maxsize_def)



end
