(* ===== verification/Capped_Codecs.thy ===== *)
theory Capped_Codecs
  imports Bcl_Codecs
begin

text \<open>
  Codecs that never write more than the size they are told, with one proof that they keep the contract
  of the verification and one test theorem for all of them.
\<close>

subsection \<open>The contract\<close>

text \<open>
  The encoder writes a code of the data of at most \<open>m\<close> bytes to the output block, or reports an
  error; from a block that begins with the code the decoder restores the data.
\<close>

lemma capped_codecI:
  assumes "bs \<le> w"
    and enc: "\<And>ib n ob m. length ib = w \<Longrightarrow> 0 < n \<Longrightarrow> n \<le> bs \<Longrightarrow> m \<le> w \<Longrightarrow> \<exists>c ret.
        enc ib n ob m = put_output ib ob c ret \<and> length c \<le> m \<and>
        (ret = CODING_ERROR \<or> ret = length c \<and> encode (take n ib) c)"
    and dec: "\<And>dec d c r ob. dec \<in> decs \<Longrightarrow> encode d c \<Longrightarrow> length (c @ r) = w \<Longrightarrow> length ob = w \<Longrightarrow> 0 < length d \<Longrightarrow> length d \<le> bs \<Longrightarrow>
        \<exists>ob'. dec (c @ r) (length c) ob (length d) = Some (c @ r, ob', length d) \<and>
          length ob' = w \<and> take (length d) ob' = d"
  shows "moving_codec enc decs w bs {..w}"
proof
  fix ib ob :: "byte list" and n m :: nat
  assume *: "length ib = w" "length ob = w" "0 < n" "n \<le> bs" "m \<in> {..w}"
  obtain c ret where c: "enc ib n ob m = put_output ib ob c ret" "length c \<le> m"
    "ret = CODING_ERROR \<or> ret = length c \<and> encode (take n ib) c"
    using enc [OF *(1,3,4)] *(5) by blast
  let ?ob = "c @ drop (length c) ob"
  have len: "length c \<le> w" and n: "length (take n ib) = n" using c(2) * assms(1) by simp_all
  have run: "enc ib n ob m = Some (ib, ?ob, ret)" using c(1) len * by (simp add: put_output_def)
  have "decodable decs w ret ?ob n (take n ib)" if "ret \<noteq> CODING_ERROR"
  proof (rule decodableI)
    fix dec and ib2 ob2 :: "byte list"
    assume d: "dec \<in> decs" and 2: "length ib2 = w" "length ob2 = w" "take ret ib2 = take ret ?ob"
    have ret: "ret = length c" "encode (take n ib) c" using that c(3) by blast+
    have ib2: "ib2 = c @ drop (length c) ib2"
      using 2(3) ret(1) by (metis append_eq_conv_conj append_take_drop_id)
    then have "length (c @ drop (length c) ib2) = w" using 2(1) by simp
    moreover have "ib \<noteq> []" using n *(3) by auto
    ultimately obtain ob' where "dec ib2 ret ob2 n = Some (ib2, ob', n)" "length ob' = w" "take n ob' = take n ib"
      using dec [OF d ret(2) _ 2(2), of "drop (length c) ib2"] n *(3,4) ib2 ret(1) by auto
    then show "\<exists>ib' ob' k. dec ib2 ret ob2 n = Some (ib', ob', k) \<and> k \<noteq> CODING_ERROR \<and>
        length ib' = w \<and> length ob' = w \<and> take ret ib' = take ret ?ob \<and> take n ob' = take n ib"
      using 2 *(3) by (auto simp: CODING_ERROR_def)
  qed
  moreover have "ret \<le> w" using c(3) len by (auto simp: CODING_ERROR_def)
  ultimately show "\<exists>ib' ob' r. enc ib n ob m = Some (ib', ob', r) \<and> length ib' = w \<and> length ob' = w \<and>
      r \<le> w \<and> take n ib' = take n ib \<and> (r \<noteq> CODING_ERROR \<longrightarrow> decodable decs w r ob' n (take n ib))"
    using run len * by simp
qed

text \<open>With sectors that fit in a block, the output sizes the harness asks for do.\<close>

lemma limits_in_block:
  assumes "0 < ssize" "ssize \<le> w" "bs \<le> w" "w + w \<le> SIZE_MAX"
  shows "limits_in {..w} bs ssize"
  unfolding limits_in_def
proof (intro allI impI, elim conjE)
  fix n c assume n: "0 < n" "n \<le> bs" "encode_limit n ssize = Some c"
  show "c \<in> {..w}"
  proof (cases "ssize < n")
    case True
    then have "round_up (n - ssize) ssize = Some c" using n(3) by (simp add: encode_limit_def)
    then have "c < n - ssize + ssize" using round_up_bounds(3) n(2) assms(2-4) by fastforce
    then show ?thesis using True n(2) assms(3) by simp
  next
    case False
    then show ?thesis using n(3) assms(2) by (simp add: encode_limit_def)
  qed
qed

text \<open>So a test of such a codec accepts the decoded data.\<close>

lemma capped_test:
  assumes "new_tester max_sizes file desired_bsize threads = Inr t"
    and "length file < 2 ^ 62" "\<forall>f\<in>set max_sizes. f (t_bsize t) < 2 ^ 62"
      "workbuf_size t < 2 ^ 62" "blocks_no t < 2 ^ 32"
    and codec: "\<And>i. moving_codec (tp_encoder tp i) {tp_decoder tp i} (workbuf_block_size t) (t_bsize t) {..workbuf_block_size t}"
      "\<And>i. tp_decoder tp i = tp_decoder tp 0"
    and "tp_encode_type tp = moving" "tp_decode_type tp = moving" "tp_verify tp"
      "0 < tp_ssize tp" "tp_ssize tp \<le> workbuf_block_size t"
      "0 < tp_overhead_iters tp" "0 < tp_job_size tp" "tp_job_size tp < 2 ^ 62"
    and "mem_ok (blocks_no t) (workbuf_block_size t) mem"
    and "compression_scheduler t tp cstart = Some cs" "ran_by (threads_no t) cs ccalls"
    and "decompression_scheduler t tp dstart = Some ds" "ran_by (threads_no t) ds dcalls"
  shows "\<exists>ctots dtots mem'.
    test_iteration t tp cstart ccalls dstart dcalls mem = Inr (ctots, dtots, mem') \<and>
    verify_codec t tp mem'"
proof -
  let ?bs = "t_bsize t" and ?w = "workbuf_block_size t"
  have ok: "tester_ok t" by (rule new_tester_ok [OF assms(1-3)])
  then have t: "?bs \<le> ?w" "0 < blocks_no t" "workbuf_size t = blocks_no t * ?w"
    by (simp_all add: tester_ok_def)
  have "1 * ?w \<le> blocks_no t * ?w" using t(2) by (intro mult_le_mono1) simp
  then have "?w \<le> workbuf_size t" using t(3) by (simp only: mult_1)
  then have "?w < 2 ^ 62" using assms(4) by (rule le_less_trans)
  then have "limits_in {..?w} ?bs (tp_ssize tp)"
    using assms(11,12) t(1) by (intro limits_in_block) (simp_all add: SIZE_MAX_def)
  then have "moving_test t tp" using codec(1) codec(2) assms(8-11,13-15) by (intro moving_testI [where dec = "tp_decoder tp 0"])
  then show ?thesis
    using test_lossless [OF assms(1-5) _ assms(16-20)] by (auto simp: lossless_test_def)
qed

end
