(* ===== verification/Zfs_Codecs.thy ===== *)
theory Zfs_Codecs
  imports Zfs_Fletcher Zfs_Lzjb Capped_Codecs Abstract_Codecs
begin

text \<open>
  The adapters of \<open>simple_codecs.cpp\<close> for the coder and the checksums of ZFS, as the harness runs
  them: LZJB keeps the contract of a codec that moves its data, for the output sizes that fit in a
  block; fletcher-2 reads behind its data, where the harness keeps the digest.
\<close>

subsection \<open>LZJB\<close>

definition LZJB_c :: "nat \<Rightarrow> coder" where
  "LZJB_c base ib isize ob osize =
    (case lzjb_compress2010 base ib isize osize of
       None \<Rightarrow> None
     | Some (c, ret) \<Rightarrow> put_output ib ob c (if ret = isize then CODING_ERROR else ret))"

definition LZJB_d :: coder where
  "LZJB_d ib isize ob osize =
    (case lzjb_decompress2010 ib ob osize of
       None \<Rightarrow> None
     | Some (ob', ret) \<Rightarrow> Some (ib, ob', ret))"

lemma lzjb_codec:
  assumes "bs \<le> w"
  shows "moving_codec (LZJB_c base) {LZJB_d} w bs {..w}"
  using assms
proof (rule capped_codecI)
  let ?code = "\<lambda>d c. \<exists>ib m ret. lzjb_compress2010 base ib (length d) m = Some (c, ret) \<and> ret \<noteq> length d \<and>
    take (length d) ib = d"
  show "\<exists>c ret. LZJB_c base ib n ob m = put_output ib ob c ret \<and> length c \<le> m \<and>
      (ret = CODING_ERROR \<or> ret = length c \<and> ?code (take n ib) c)"
    if "length ib = w" "n \<le> bs" for ib n ob m
  proof -
    have n: "n \<le> length ib" using that assms by simp
    then obtain c ret where c: "lzjb_compress2010 base ib n m = Some (c, ret)"
      by (cases "lzjb_compress2010 base ib n m") (auto simp: lzjb_compress2010_def)
    have "ret = length c" if "ret \<noteq> n" using lzjb_compress_decompress [OF c that n] by simp
    then show ?thesis
      using c lzjb_compress_bound [OF c] n
      by (intro exI [of _ c] exI [of _ "if ret = n then CODING_ERROR else ret"]) (auto simp: LZJB_c_def)
  qed
  show "\<exists>ob'. dec (c @ r) (length c) ob (length d) = Some (c @ r, ob', length d) \<and> length ob' = w \<and>
      take (length d) ob' = d"
    if "dec \<in> {LZJB_d}" "?code d c" "length ob = w" "length d \<le> bs" for dec d c r ob
    using that assms lzjb_compress_decompress [of base _ "length d" _ c _ ob r] by (fastforce simp: LZJB_d_def)
qed

interpretation lzjb: moving_codec "LZJB_c base" "{LZJB_d}" "bs + k" bs "{..bs + k}" for base bs k
  by (rule lzjb_codec) simp

subsection \<open>The checksums\<close>

text \<open>The adapters: the four sums, stored as the digest.\<close>

definition zcp_bytes :: "u64 \<times> u64 \<times> u64 \<times> u64 \<Rightarrow> byte list" where
  "zcp_bytes = (\<lambda>(x, y, z, w). le_store 8 x @ le_store 8 y @ le_store 8 z @ le_store 8 w)"

definition fletcher2 :: checksum_t where
  "fletcher2 buf isize = map_option zcp_bytes (fletcher_2_native buf isize)"

definition fletcher4 :: checksum_t where
  "fletcher4 buf isize = map_option zcp_bytes (fletcher_4_native buf isize)"

lemma length_zcp_bytes [simp]: "length (zcp_bytes z) = 32"
  by (simp add: zcp_bytes_def split: prod.split)

text \<open>The digest of fletcher-4 depends on the data only, so that its codec passes the verification.\<close>

lemma fletcher4_digest:
  assumes "n \<le> length b"
  shows "\<exists>z. fletcher4 b n = Some (zcp_bytes z) \<and> fletcher4 (take n b) n = Some (zcp_bytes z)"
proof -
  have "take 4 (drop (4 * i) (take n b)) = take 4 (drop (4 * i) b)" if "i < n div 4" for i
  proof -
    have "4 \<le> n - 4 * i" using that by linarith
    then show ?thesis by (simp add: drop_take min_absorb1)
  qed
  then have "(le_words 4 (take n b) (n div 4) :: u32 list) = le_words 4 b (n div 4)"
    by (simp add: le_words_def)
  moreover have "4 * (n div 4) \<le> n" "4 * (n div 4) \<le> length b" using assms by linarith+
  ultimately have "fletcher_4_native (take n b) n = fletcher_4_native b n"
    using assms by (simp add: fletcher_4_native_def Let_def)
  moreover have "4 * (n div 4) \<le> length b" using assms by linarith
  then obtain z where "fletcher_4_native b n = Some z" by (simp add: fletcher_4_native_def Let_def)
  ultimately show ?thesis by (intro exI [of _ z]) (simp add: fletcher4_def)
qed

interpretation fletcher4: checksum_function fletcher4 "\<lambda>d. the (fletcher4 d (length d))" 32
proof
  show "fletcher4 b n = Some (the (fletcher4 (take n b) (length (take n b))))" if "n \<le> length b" for b n
    using fletcher4_digest [OF that] that by auto
  show "32 \<le> length (the (fletcher4 d (length d)))" for d
    using fletcher4_digest [of "length d" d] by auto
qed

interpretation fletcher4: in_place_codec "checksum_encode 32 (Some (Checksummer fletcher4))"
  "{checksum_decode 32 (Some (Checksummer fletcher4))}" "bs + 32 + k" bs for bs k
  by (rule fletcher4.keeps_data) simp


text \<open>
  With an odd number of 64-bit words the last turn of the loop reads the eight bytes behind the data.
\<close>

lemma fletcher_2_last_turn:
  assumes "n mod 16 = 8" "n + 8 \<le> length mem"
  shows "\<exists>a0 b0 a1 b1 x. \<forall>y r. length y = 8 \<longrightarrow>
    fletcher_2_native (take n mem @ y @ r) n =
      Some (a0 + x, a1 + le_load y, b0 + (a0 + x), b1 + (a1 + le_load y))"
proof -
  define k where "k = n div 16"
  have n: "n = 8 * (2 * k + 1)" using assms(1) div_mult_mod_eq [of n 16] by (simp add: k_def)
  have turns: "(n div 8 + 1) div 2 = Suc k" by (simp add: n)
  let ?ip = "\<lambda>y r. le_words 8 (take n mem @ y @ r) (2 * Suc k) :: u64 list"
  let ?w = "le_words 8 (take n mem) (2 * k + 1) :: u64 list"
  have ip: "?ip y r = ?w @ [le_load y]" if "length y = 8" for y r
  proof -
    have "length (take n mem) = 8 * (2 * k + 1)" using assms(2) n by simp
    moreover have "le_words 8 (y @ r) 1 = [le_load y :: u64]" using that by (simp add: le_words_def)
    ultimately show ?thesis using le_words_append [of "take n mem" 8 "2 * k + 1" "y @ r" 1, where 'a = 64] by simp
  qed
  obtain a0 b0 a1 b1 where loop: "fold (\<lambda>i. fletcher_2_step (?w ! (2 * i)) (?w ! (2 * i + 1))) [0..<k] (0, 0, 0, 0) =
      (a0, b0, a1, b1)"
    by (rule prod_cases4)
  have "fletcher_2_native (take n mem @ y @ r) n =
      Some (a0 + ?w ! (2 * k), a1 + le_load y, b0 + (a0 + ?w ! (2 * k)), b1 + (a1 + le_load y))"
    if y: "length y = 8" for y r
  proof -
    have "fold (\<lambda>i. fletcher_2_step (?ip y r ! (2 * i)) (?ip y r ! (2 * i + 1))) [0..<k] (0, 0, 0, 0) = (a0, b0, a1, b1)"
      unfolding loop [symmetric] ip [OF y] by (rule fold_cong) (auto simp: nth_append)
    then have final: "fold (\<lambda>i. fletcher_2_step (?ip y r ! (2 * i)) (?ip y r ! (2 * i + 1))) [0..<Suc k] (0, 0, 0, 0) =
        fletcher_2_step (?w ! (2 * k)) (le_load y) (a0, b0, a1, b1)"
      unfolding ip [OF y] by (simp add: nth_append)
    have "\<not> length (take n mem @ y @ r) < 8 * (2 * Suc k)" using y assms(2) n by simp
    note long = this
    show ?thesis
      unfolding fletcher_2_native_def turns Let_def if_not_P [OF long] final
      by (simp add: fletcher_2_step_def Let_def)
  qed
  then show ?thesis by blast
qed

text \<open>
  C35: fletcher-2 on a block with an odd number of 64-bit words. The digest the encoder appends covers
  the eight bytes behind the data, which the digest then overwrites: the decoder rejects the block it
  has not been changed, unless these bytes were those of the digest before.
\<close>

theorem fletcher2_reads_digest:
  assumes "n mod 16 = 8" "n + 32 \<le> length ib"
  shows "\<exists>ib'. checksum_encode 32 (Some (Checksummer fletcher2)) ib n ob m = Some (ib', ob, n + 32) \<and>
    take n ib' = take n ib \<and>
    checksum_decode 32 (Some (Checksummer fletcher2)) ib' (n + 32) ob m =
      Some (ib', ob, if load ib n 8 = load ib' n 8 then n else CODING_ERROR)"
proof -
  have len: "n + 8 \<le> length ib" using assms(2) by simp
  obtain a0 b0 a1 b1 x where run: "\<And>y r. length y = 8 \<Longrightarrow> fletcher_2_native (take n ib @ y @ r) n =
      Some (a0 + x, a1 + le_load y, b0 + (a0 + x), b1 + (a1 + le_load y))"
    using fletcher_2_last_turn [OF assms(1) len] by blast
  let ?y = "load ib n 8" and ?y' = "le_store 8 (a0 + x)"
  let ?D = "\<lambda>y. zcp_bytes (a0 + x, a1 + le_load y, b0 + (a0 + x), b1 + (a1 + le_load y))"
  have y: "length ?y = 8" "length ?y' = 8" using len by simp_all
  have ib: "ib = take n ib @ ?y @ drop (n + 8) ib"
    by (simp add: load_def) (metis append_take_drop_id drop_drop add.commute)
  define ib' where "ib' = take n ib @ ?D ?y @ drop (n + 32) ib"
  have D: "?D y = ?y' @ le_store 8 (a1 + le_load y) @ le_store 8 (b0 + (a0 + x)) @ le_store 8 (b1 + (a1 + le_load y))"
    for y by (simp add: zcp_bytes_def)
  have ib': "ib' = take n ib @ ?y' @ drop 8 (?D ?y) @ drop (n + 32) ib" unfolding ib'_def D by simp
  have n: "length (take n ib) = n" using len by simp
  have enc: "checksum_encode 32 (Some (Checksummer fletcher2)) ib n ob m = Some (ib', ob, n + 32)"
    using run [OF y(1), of "drop (n + 8) ib", folded ib] assms(2)
    by (simp add: checksum_encode_def fletcher2_def ib'_def store_def)
  have dec: "fletcher2 ib' n = Some (?D ?y')"
    using run [OF y(2), of "drop 8 (?D ?y) @ drop (n + 32) ib"] by (simp add: fletcher2_def ib')
  have stored: "load ib' n 32 = ?D ?y" "load ib' n 8 = ?y'"
    using n by (simp add: ib'_def load_def, simp add: ib' load_def)
  have "?D ?y = ?D ?y' \<longleftrightarrow> ?y = ?y'"
  proof
    assume "?D ?y = ?D ?y'"
    then have "le_store 8 (a1 + le_load ?y) = le_store 8 (a1 + le_load ?y' :: u64)" by (simp add: D)
    then have "le_load (le_store 8 (a1 + le_load ?y)) = (le_load (le_store 8 (a1 + le_load ?y' :: u64)) :: u64)" by simp
    then have "a1 + le_load ?y = (a1 + le_load ?y' :: u64)" by (simp add: le_load_store)
    then show "?y = ?y'" using y by (intro le_load_inject [where 'a = 64]) simp_all
  qed simp
  then have "checksum_decode 32 (Some (Checksummer fletcher2)) ib' (n + 32) ob m =
      Some (ib', ob, if ?y = ?y' then n else CODING_ERROR)"
    using n assms(2) by (simp add: checksum_decode_def dec stored) (simp add: ib'_def)
  then show ?thesis using enc n by (intro exI [of _ ib']) (simp add: stored, simp add: ib'_def)
qed

theorem fletcher2_reads_digest_witness:
  "\<exists>ib'. checksum_encode 32 (Some (Checksummer fletcher2)) (1 # replicate 47 0) 8 [] 9 = Some (ib', [], 40) \<and>
    take 8 ib' = take 8 (1 # replicate 47 0) \<and>
    checksum_decode 32 (Some (Checksummer fletcher2)) ib' 40 [] 9 =
      Some (ib', [], if load (1 # replicate 47 0) 8 8 = load ib' 8 8 then 8 else CODING_ERROR)"
  using fletcher2_reads_digest [of 8 "1 # replicate 47 0" "[]" 9] by simp

end
