(* ===== verification/Lzf_Codecs.thy ===== *)
theory Lzf_Codecs
  imports Lzf Zfs_Codecs
begin

text \<open>
  The adapters of \<open>simple_codecs.cpp\<close> for LibLZF, and the verification of the codecs that keep the
  output size they are given.
\<close>

subsection \<open>The adapters\<close>

text \<open>The coders take \<open>unsigned int\<close>s. \<open>htab\<close> is what the stack held where the hash table is.\<close>

definition LZF_c :: "(nat \<Rightarrow> u32) \<Rightarrow> coder" where
  "LZF_c htab ib isize ob osize =
    (case lzf_compress htab ib (size_to_uint isize) (size_to_uint osize) of
       None \<Rightarrow> None
     | Some c \<Rightarrow> put_output ib ob c (length c))"

definition LZF_very_c :: "(nat \<Rightarrow> u32) \<Rightarrow> coder" where
  "LZF_very_c htab ib isize ob osize =
    (case lzf_compress_very htab ib (size_to_uint isize) (size_to_uint osize) of
       None \<Rightarrow> None
     | Some c \<Rightarrow> put_output ib ob c (length c))"

definition LZF_ultra_c :: "(nat \<Rightarrow> u32) \<Rightarrow> coder" where
  "LZF_ultra_c htab ib isize ob osize =
    (case lzf_compress_ultra htab ib (size_to_uint isize) (size_to_uint osize) of
       None \<Rightarrow> None
     | Some c \<Rightarrow> put_output ib ob c (length c))"

definition LZF_d :: coder where
  "LZF_d ib isize ob osize =
    (case lzf_decompress ib (size_to_uint isize) ob (size_to_uint osize) of
       None \<Rightarrow> None
     | Some (ob', ret) \<Rightarrow> Some (ib, ob', ret))"

lemma lzf_codec:
  assumes "bs \<le> w" "2 \<le> w" "w < 2 ^ 32" "enc \<in> {LZF_c htab, LZF_very_c htab, LZF_ultra_c htab}"
  shows "moving_codec enc {LZF_d} w bs {..w}"
proof -
  obtain v where enc: "enc ib isize ob osize =
      (case lzf_compress_with v htab ib (size_to_uint isize) (size_to_uint osize) of
         None \<Rightarrow> None | Some c \<Rightarrow> put_output ib ob c (length c))" for ib isize ob osize
    using assms(4)
    by (auto simp: LZF_c_def LZF_very_c_def LZF_ultra_c_def lzf_compress_def lzf_compress_very_def lzf_compress_ultra_def)
  let ?code = "\<lambda>d c. \<exists>ib m. lzf_compress_with v htab ib (length d) m = Some c \<and> c \<noteq> [] \<and> take (length d) ib = d"
  show ?thesis
    using assms(1)
  proof (rule capped_codecI)
    show "\<exists>c ret. enc ib n ob m = put_output ib ob c ret \<and> length c \<le> m \<and>
        (ret = CODING_ERROR \<or> ret = length c \<and> ?code (take n ib) c)"
      if "length ib = w" "0 < n" "n \<le> bs" "m \<le> w" for ib n ob m
    proof -
      have n: "n \<le> length ib" "n < 2 ^ 32" "size_to_uint n = n" "size_to_uint m = m"
        using that assms(1,3) by (simp_all add: size_to_uint_id)
      have "2 \<le> length ib" using that(1) assms(2) by simp
      then obtain c where c: "lzf_compress_with v htab ib n m = Some c"
        using lzf_compress_total [OF n(1)] by blast
      then have run: "enc ib n ob m = put_output ib ob c (length c)" by (simp add: enc n)
      show ?thesis
      proof (cases "c = []")
        case True
        then show ?thesis using run by (intro exI [of _ "[]"] exI [of _ 0]) (simp add: CODING_ERROR_def)
      next
        case False
        then show ?thesis
          using run lzf_compress_ok [OF c n(2) False] c n(1) by (intro exI [of _ c] exI [of _ "length c"]) auto
      qed
    qed
    show "\<exists>ob'. dec (c @ r) (length c) ob (length d) = Some (c @ r, ob', length d) \<and> length ob' = w \<and>
        take (length d) ob' = d"
      if dec: "dec \<in> {LZF_d}" and code: "?code d c"
        and len: "length (c @ r) = w" "length ob = w" "length d \<le> bs" for dec d c r ob
    proof -
      obtain ib m where c: "lzf_compress_with v htab ib (length d) m = Some c" "c \<noteq> []" "take (length d) ib = d"
        using code by blast
      have "size_to_uint (length c) = length c" "size_to_uint (length d) = length d" "length d < 2 ^ 32"
        using len assms(1,3) by (simp_all add: size_to_uint_id)
      then show ?thesis
        using lzf_compress_decompress [OF c(1) _ c(2), of ob r] c(3) len assms(1) dec by (auto simp: LZF_d_def)
    qed
  qed
qed

subsection \<open>The verification\<close>

text \<open>The coding functions of each thread, whose hash tables have different contents.\<close>

definition capped_coders :: "nat \<Rightarrow> (nat \<Rightarrow> nat \<Rightarrow> u32) \<Rightarrow> ((nat \<Rightarrow> coder) \<times> (nat \<Rightarrow> coder)) set" where
  "capped_coders base htab =
    {(\<lambda>_. LZJB_c base, \<lambda>_. LZJB_d), (\<lambda>i. LZF_c (htab i), \<lambda>_. LZF_d),
     (\<lambda>i. LZF_very_c (htab i), \<lambda>_. LZF_d), (\<lambda>i. LZF_ultra_c (htab i), \<lambda>_. LZF_d)}"

lemma capped_codec:
  assumes "(enc, dec) \<in> capped_coders base htab" "bs \<le> w" "2 \<le> w" "w < 2 ^ 32"
  shows "moving_codec (enc i) {dec i} w bs {..w}" "dec i = dec j"
  using assms lzjb_codec [OF assms(2), of base] lzf_codec [OF assms(2-4), of "enc i" "htab i"]
  by (auto simp: capped_coders_def)



end
