(* ===== verification/Verified_Run.thy ===== *)
theory Verified_Run
  imports Tester_Run Lzf_Codecs
begin

text \<open>
  The program linked with the coders of this development: a run of the codecs whose coders are proved
  lossless, in any order and with any settings, reports every one of them as verified.
\<close>

subsection \<open>The codecs\<close>

text \<open>
  The entries of the codec table that are proved to pass the verification, and what their functions
  are. \<open>base\<close> and \<open>htab\<close> are the address of the blocks and the contents of the memory that LZJB and
  LZF do not initialise.
\<close>

definition verified_entries :: "table_entry list" where
  "verified_entries =
    [Codec_entry ''bcl-lz'' ''1.2.0'' (Some ''FsBenchBCL::lz'') (Some ''FsBenchBCL::unlz'') (Named_size ''FsBenchBCL::lz_maxsize'') moving moving,
     Codec_entry ''bcl-rle'' ''1.2.0'' (Some ''FsBenchBCL::rle'') (Some ''FsBenchBCL::unrle'') (Named_size ''FsBenchBCL::rle_maxsize'') moving moving,
     Codec_entry ''lzjb'' ''FreeBSD r263244'' (Some ''LZJB_c'') (Some ''LZJB_d'') No_blowup moving moving,
     Multifunction_entry ''LZF'' ''3.6'' LZF_args '''' No_blowup,
     Checksum_entry 32 ''fletcher4'' ''FreeBSD r263244'' ''fletcher4'',
     Codec_entry ''memcpy'' ''0'' (Some ''c_memcpy'') (Some ''c_memcpy'') No_blowup moving moving,
     Codec_entry ''memmove'' ''0'' (Some ''c_memmove'') (Some ''c_memmove'') No_blowup moving moving]"

definition linked :: "nat \<Rightarrow> (nat \<Rightarrow> u32) \<Rightarrow> library \<Rightarrow> bool" where
  "linked base htab L \<longleftrightarrow>
    lib_fn L ''FsBenchBCL::lz'' = (\<lambda>_. lz) \<and> lib_fn L ''FsBenchBCL::unlz'' = (\<lambda>_. unlz) \<and>
    lib_fn L ''FsBenchBCL::rle'' = (\<lambda>_. rle) \<and> lib_fn L ''FsBenchBCL::unrle'' = (\<lambda>_. unrle) \<and>
    lib_fn L ''LZJB_c'' = (\<lambda>_. LZJB_c base) \<and> lib_fn L ''LZJB_d'' = (\<lambda>_. LZJB_d) \<and>
    lib_fn L ''LZF_c'' = (\<lambda>_. LZF_c htab) \<and> lib_fn L ''LZF_very_c'' = (\<lambda>_. LZF_very_c htab) \<and>
    lib_fn L ''LZF_ultra_c'' = (\<lambda>_. LZF_ultra_c htab) \<and> lib_fn L ''LZF_d'' = (\<lambda>_. LZF_d) \<and>
    lib_fn L ''c_memcpy'' = (\<lambda>_. c_memcpy) \<and> lib_fn L ''c_memmove'' = (\<lambda>_. c_memmove) \<and>
    lib_size L ''FsBenchBCL::lz_maxsize'' = lz_maxsize \<and> lib_size L ''FsBenchBCL::rle_maxsize'' = rle_maxsize \<and>
    lib_checksum L ''fletcher4'' = fletcher4"

text \<open>An object that was made from an entry, between two tests.\<close>

fun fixed_coders :: "table_entry \<Rightarrow> bool" where
  "fixed_coders (Multifunction_entry name version args dflt sz) \<longleftrightarrow> False"
| "fixed_coders _ \<longleftrightarrow> True"

definition object_of :: "library \<Rightarrow> table_entry \<Rightarrow> codec \<Rightarrow> bool" where
  "object_of L e c \<longleftrightarrow>
    codec_name c = entry_name e \<and> codec_class c = codec_class (codec_of L e) \<and>
    encode_transform_type c = encode_transform_type (codec_of L e) \<and>
    decode_transform_type c = decode_transform_type (codec_of L e) \<and>
    max_size c = max_size (codec_of L e) \<and> eparams c = None \<and> dparams c = None \<and>
    (fixed_coders e \<longrightarrow> codec_encoder c = codec_encoder (codec_of L e) \<and> codec_decoder c = codec_decoder (codec_of L e))"

fun accepts_args :: "library \<Rightarrow> table_entry \<Rightarrow> string \<Rightarrow> bool" where
  "accepts_args L (Multifunction_entry name version args dflt sz) a \<longleftrightarrow>
    (\<exists>(n, e, d)\<in>set args. case_insensitive_compare n (default_args dflt a) = 0)"
| "accepts_args L _ a \<longleftrightarrow> True"

definition verified_codec :: "library \<Rightarrow> store \<Rightarrow> nat \<times> string \<Rightarrow> bool" where
  "verified_codec L st = (\<lambda>(k, args). k < length st \<and>
    (\<exists>e\<in>set verified_entries. object_of L e (st ! k) \<and> accepts_args L e args))"

lemma object_of_codec_of: "e \<in> set verified_entries \<Longrightarrow> object_of L e (codec_of L e)"
  by (auto simp: verified_entries_def object_of_def new_codec_def)

lemma object_of_unique:
  assumes "e \<in> set verified_entries" "e' \<in> set verified_entries" "object_of L e c" "object_of L e' c"
  shows "e = e'"
proof -
  have "entry_name e = entry_name e'" using assms(3,4) by (simp add: object_of_def)
  moreover have "distinct (map entry_name verified_entries)" by (simp add: verified_entries_def)
  then have "inj_on entry_name (set verified_entries)" by (simp only: distinct_map)
  ultimately show ?thesis using assms(1,2) by (simp add: inj_on_def)
qed

subsection \<open>The coders\<close>

lemma moving_codec_caps:
  "moving_codec enc decs w bs UNIV \<Longrightarrow> moving_codec enc decs w bs {..w}"
  by (simp add: moving_codec_def)

text \<open>Encoders and decoders with the room the codec asks for.\<close>

definition verified_coders :: "nat \<Rightarrow> (nat \<Rightarrow> u32) \<Rightarrow> (coder \<times> coder \<times> (nat \<Rightarrow> nat)) set" where
  "verified_coders base htab =
    {(rle, unrle, rle_maxsize), (lz, unlz, lz_maxsize), (LZJB_c base, LZJB_d, no_blowup),
     (LZF_c htab, LZF_d, no_blowup), (LZF_very_c htab, LZF_d, no_blowup), (LZF_ultra_c htab, LZF_d, no_blowup),
     (c_memcpy, c_memcpy, no_blowup), (c_memmove, c_memmove, no_blowup)}"

lemma memmove_memcpy: "c_memmove = c_memcpy"
  by (simp add: fun_eq_iff c_memmove_def c_memcpy_def)

lemma verified_coder:
  assumes "(enc, dec, msize) \<in> verified_coders base htab"
    and "bs < 2 ^ 30" "msize bs + OVERRUN_PAD \<le> w" "bs \<le> w" "w < 2 ^ 32"
  shows "moving_codec enc {dec} w bs {..w}"
proof -
  have w: "2 \<le> w" using assms(3) by (simp add: OVERRUN_PAD_def)
  have "moving_codec rle {unrle} w bs {..w}" "moving_codec lz {unlz} w bs {..w}" if "bs + bs div 256 + 1 \<le> w"
    using assms(2) that by (simp_all add: moving_codec_caps rle_codec lz_codec)
  moreover have "moving_codec c_memcpy {c_memcpy} w bs {..w}"
    using assms(4) memcpy.moving_codec_axioms [of bs "w - bs"] by (simp add: moving_codec_caps)
  ultimately show ?thesis
    using assms lzjb_codec [of bs w base] lzf_codec [of bs w enc htab] w
    by (auto simp: verified_coders_def memmove_memcpy rle_maxsize_def lz_maxsize_def OVERRUN_PAD_def)
qed

text \<open>The layout of a run, for a codec that asks for \<open>msize\<close>.\<close>

definition room_for :: "tester \<Rightarrow> settings \<Rightarrow> (nat \<Rightarrow> nat) \<Rightarrow> bool" where
  "room_for t s msize \<longleftrightarrow>
    t_bsize t < 2 ^ 30 \<and> t_bsize t \<le> workbuf_block_size t \<and> workbuf_block_size t < 2 ^ 32 \<and>
    msize (t_bsize t) + OVERRUN_PAD \<le> workbuf_block_size t \<and>
    opt_verify s \<and> opt_ssize s \<noteq> 0 \<and> unat (opt_ssize s) \<le> workbuf_block_size t \<and>
    opt_overhead_iterations s \<noteq> 0 \<and> opt_job_size s \<noteq> 0 \<and> unat (opt_job_size s) < 2 ^ 62"

lemma call_fn_Fn: "k < length st \<Longrightarrow> call_fn (length st) st (Fn f) = f"
  by (cases "length st") (simp_all add: fun_eq_iff)

lemma params_at_eparams:
  assumes "k < length st" "refs (codec_class (st ! k)) = []"
  shows "codec_eparams (length st) st k = eparams (st ! k)" "codec_dparams (length st) st k = dparams (st ! k)"
  using assms by (cases "length st"; simp add: refs_def split: codec_class.splits)+

lemma moving_object:
  assumes coder: "(enc, dec, msize) \<in> verified_coders base htab" and room: "room_for t s msize"
    and k: "k < length st" "codec_encoder (st ! k) = Some (Fn (\<lambda>_. enc))" "codec_decoder (st ! k) = Some (Fn (\<lambda>_. dec))"
      "encode_transform_type (st ! k) = moving" "decode_transform_type (st ! k) = moving"
  shows "lossless_test t (codec_test s st k)"
proof -
  let ?w = "workbuf_block_size t" and ?bs = "t_bsize t"
  have "moving_codec enc {dec} ?w ?bs {..?w}"
    using room unfolding room_for_def by (intro verified_coder [OF coder]) blast+
  moreover have "limits_in {..?w} ?bs (unat (opt_ssize s))"
    using room by (intro limits_in_block) (simp_all add: room_for_def SIZE_MAX_def unat_gt_0)
  ultimately have "moving_test t (codec_test s st k)"
    using room k
    by (intro moving_testI [where caps = "{..?w}" and dec = dec])
       (simp_all add: codec_test_def call_fn_Fn [OF k(1)] room_for_def unat_gt_0)
  then show ?thesis by (simp add: lossless_test_def)
qed

lemma checksum_object:
  assumes room: "room_for t s (checksum_max_size 32)"
    and k: "k < length st" "codec_class (st ! k) = Checksum_codec fletcher4"
      "codec_encoder (st ! k) = Some (Fn (checksum_encode 32))" "codec_decoder (st ! k) = Some (Fn (checksum_decode 32))"
      "encode_transform_type (st ! k) = in_place" "decode_transform_type (st ! k) = in_place"
      "eparams (st ! k) = Some (replicate (threads_no t) (Some (Checksummer fletcher4)))" "dparams (st ! k) = eparams (st ! k)"
  shows "lossless_test t (codec_test s st k)"
proof -
  let ?w = "workbuf_block_size t" and ?bs = "t_bsize t"
  have "in_place_codec (checksum_encode 32 (Some (Checksummer fletcher4)))
      {checksum_decode 32 (Some (Checksummer fletcher4))} ?w ?bs"
    using room by (intro fletcher4.keeps_data) (simp add: room_for_def checksum_max_size_def)
  moreover have "tp_encoder (codec_test s st k) i = checksum_encode 32 (Some (Checksummer fletcher4))"
    "tp_decoder (codec_test s st k) i = checksum_decode 32 (Some (Checksummer fletcher4))" if "i < threads_no t" for i
    using that k by (simp_all add: codec_test_def call_fn_Fn [OF k(1)] params_at_eparams refs_def param_at_def)
  ultimately have "\<forall>i<threads_no t. in_place_codec (tp_encoder (codec_test s st k) i)
      {checksum_decode 32 (Some (Checksummer fletcher4))} ?w ?bs \<and>
      tp_decoder (codec_test s st k) i \<in> {checksum_decode 32 (Some (Checksummer fletcher4))}" by simp
  then have "in_place_test t (codec_test s st k)"
    using room k unfolding in_place_test_def
    by (intro conjI exI [of _ "{checksum_decode 32 (Some (Checksummer fletcher4))}"])
       (simp_all add: codec_test_def room_for_def unat_gt_0)
  then show ?thesis by (simp add: lossless_test_def)
qed

subsection \<open>The objects\<close>

lemma verified_entry_cases [consumes 2]:
  assumes "e \<in> set verified_entries" "linked base htab L"
  obtains (plain) name version f g sz enc dec where
      "e = Codec_entry name version (Some f) (Some g) sz moving moving" "lib_fn L f = (\<lambda>_. enc)"
      "lib_fn L g = (\<lambda>_. dec)" "(enc, dec, size_of L sz) \<in> verified_coders base htab"
  | (LZF) "e = Multifunction_entry ''LZF'' ''3.6'' LZF_args '''' No_blowup"
  | (fletcher4) "e = Checksum_entry 32 ''fletcher4'' ''FreeBSD r263244'' ''fletcher4''"
  using assms unfolding verified_entries_def linked_def
  by (auto simp: verified_coders_def size_of_def)

lemma init_depth: "k < length st \<Longrightarrow> \<exists>depth. length st = Suc depth"
  by (cases "length st") simp_all

lemma plain_object:
  assumes e: "e = Codec_entry name version (Some f) (Some g) sz moving moving"
    and fns: "lib_fn L f = (\<lambda>_. enc)" "lib_fn L g = (\<lambda>_. dec)" "(enc, dec, size_of L sz) \<in> verified_coders base htab"
    and obj: "object_of L e (st ! k)" "k < length st" and room: "room_for t s (max_size (st ! k))"
  shows "\<exists>c c'. codec_init (length st) alloc k args (threads_no t) True True st = Inr (st[k := c]) \<and> check_codec c \<and>
    lossless_test t (codec_test s (st[k := c]) k) \<and> codec_cleanup (length st) k (st[k := c]) = st[k := c'] \<and>
    object_of L e c'"
proof -
  let ?c = "(st ! k)\<lparr>codec_args := args\<rparr>"
  have c: "codec_class ?c = Plain_codec" "codec_encoder ?c = Some (Fn (\<lambda>_. enc))" "codec_decoder ?c = Some (Fn (\<lambda>_. dec))"
    "encode_transform_type ?c = moving" "decode_transform_type ?c = moving" "max_size ?c = size_of L sz"
    using obj(1) fns by (simp_all add: object_of_def e new_codec_def fn_of_def)
  obtain depth where d: "length st = Suc depth" using init_depth obj(2) by blast
  have "codec_init (length st) alloc k args (threads_no t) True True st = Inr (st[k := ?c])"
    "codec_cleanup (length st) k (st[k := ?c]) = st[k := ?c]"
    using c(1) obj(2) d by simp_all
  moreover have "lossless_test t (codec_test s (st[k := ?c]) k)"
    using room c obj(2) by (intro moving_object [OF fns(3)]) simp_all
  moreover have "object_of L e ?c" using obj(1) by (simp add: object_of_def)
  ultimately show ?thesis using c by (auto simp: check_codec_def)
qed

lemma get_type_table:
  "(\<exists>(n, e, d)\<in>set args. case_insensitive_compare n a = 0) \<Longrightarrow>
    \<exists>n e d. (n, e, d) \<in> set args \<and>
      get_type (map (\<lambda>(n, e, d). \<lparr>arg_name = n, arg_encoder = fn_of L (Some e), arg_decoder = fn_of L (Some d)\<rparr>) args) a =
        Some \<lparr>arg_name = n, arg_encoder = fn_of L (Some e), arg_decoder = fn_of L (Some d)\<rparr>"
proof (induction args)
  case (Cons x xs)
  obtain n e d where x: "x = (n, e, d)" by (cases x)
  show ?case
  proof (cases "case_insensitive_compare n a = 0")
    case True
    then show ?thesis unfolding x by (intro exI [of _ n] exI [of _ e] exI [of _ d]) simp
  next
    case False
    then have "\<exists>(n, e, d)\<in>set xs. case_insensitive_compare n a = 0" using Cons.prems unfolding x by auto
    from Cons.IH [OF this] show ?thesis using False unfolding x by (elim exE conjE) (intro exI conjI, auto)
  qed
qed simp

lemma LZF_coders:
  "(n, e, d) \<in> set LZF_args \<Longrightarrow> linked base htab L \<Longrightarrow>
    \<exists>enc dec. lib_fn L e = (\<lambda>_. enc) \<and> lib_fn L d = (\<lambda>_. dec) \<and> (enc, dec, no_blowup) \<in> verified_coders base htab"
  by (auto simp: LZF_args_def linked_def verified_coders_def)

lemma LZF_object:
  assumes e: "e = Multifunction_entry ''LZF'' ''3.6'' LZF_args '''' No_blowup" and L: "linked base htab L"
    and obj: "object_of L e (st ! k)" "k < length st" "accepts_args L e args" and room: "room_for t s (max_size (st ! k))"
  shows "\<exists>c c'. codec_init (length st) alloc k args (threads_no t) True True st = Inr (st[k := c]) \<and> check_codec c \<and>
    lossless_test t (codec_test s (st[k := c]) k) \<and> codec_cleanup (length st) k (st[k := c]) = st[k := c'] \<and>
    object_of L e c'"
proof -
  obtain n f g where a: "(n, f, g) \<in> set LZF_args"
    "get_type (map (\<lambda>(n, e, d). \<lparr>arg_name = n, arg_encoder = fn_of L (Some e), arg_decoder = fn_of L (Some d)\<rparr>) LZF_args)
      (default_args '''' args) = Some \<lparr>arg_name = n, arg_encoder = fn_of L (Some f), arg_decoder = fn_of L (Some g)\<rparr>"
    using get_type_table [of LZF_args "default_args '''' args" L] obj(3) unfolding e by auto
  obtain enc dec where fns: "lib_fn L f = (\<lambda>_. enc)" "lib_fn L g = (\<lambda>_. dec)"
    "(enc, dec, no_blowup) \<in> verified_coders base htab" using LZF_coders [OF a(1) L] by blast
  let ?c = "(st ! k)\<lparr>codec_args := default_args '''' args, codec_encoder := Some (Fn (\<lambda>_. enc)),
    codec_decoder := Some (Fn (\<lambda>_. dec))\<rparr>"
  have c: "codec_class (st ! k) = codec_class (codec_of L e)" "encode_transform_type ?c = moving"
    "decode_transform_type ?c = moving" "max_size (st ! k) = no_blowup"
    using obj(1) by (simp_all add: object_of_def e new_codec_def size_of_def)
  obtain depth where d: "length st = Suc depth" using init_depth obj(2) by blast
  have "codec_init (length st) alloc k args (threads_no t) True True st = Inr (st[k := ?c])"
    "codec_cleanup (length st) k (st[k := ?c]) = st[k := ?c]"
    using c(1) obj(2) a(2) fns d by (simp_all add: e new_codec_def multifunction_init_def fn_of_def)
  moreover have "lossless_test t (codec_test s (st[k := ?c]) k)"
    using room c obj(2) by (intro moving_object [OF fns(3)]) simp_all
  moreover have "object_of L e ?c" using obj(1) by (simp add: object_of_def e)
  moreover have "check_codec ?c" by (simp add: check_codec_def)
  ultimately show ?thesis by blast
qed

lemma fletcher4_object:
  assumes e: "e = Checksum_entry 32 ''fletcher4'' ''FreeBSD r263244'' ''fletcher4''" and L: "linked base htab L"
    and obj: "object_of L e (st ! k)" "k < length st" and room: "room_for t s (max_size (st ! k))"
  shows "\<exists>c c'. codec_init (length st) alloc k args (threads_no t) True True st = Inr (st[k := c]) \<and> check_codec c \<and>
    lossless_test t (codec_test s (st[k := c]) k) \<and> codec_cleanup (length st) k (st[k := c]) = st[k := c'] \<and>
    object_of L e c'"
proof -
  let ?ps = "Some (replicate (threads_no t) (Some (Checksummer fletcher4)))"
  let ?c = "(st ! k)\<lparr>eparams := ?ps, dparams := ?ps\<rparr>"
  let ?c' = "?c\<lparr>eparams := None, dparams := None\<rparr>"
  have c: "codec_class (st ! k) = Checksum_codec fletcher4" "codec_encoder ?c = Some (Fn (checksum_encode 32))"
    "codec_decoder ?c = Some (Fn (checksum_decode 32))"
    "encode_transform_type ?c = in_place" "decode_transform_type ?c = in_place"
    "max_size (st ! k) = checksum_max_size 32" "eparams (st ! k) = None"
    using obj(1) L by (simp_all add: object_of_def e new_codec_def linked_def)
  obtain depth where d: "length st = Suc depth" using init_depth obj(2) by blast
  have "codec_init (length st) alloc k args (threads_no t) True True st = Inr (st[k := ?c])"
    "codec_cleanup (length st) k (st[k := ?c]) = st[k := ?c']"
    using c(1,7) obj(2) d by (simp_all add: checksum_init_def Let_def)
  moreover have "lossless_test t (codec_test s (st[k := ?c]) k)"
    using room c obj(2) by (intro checksum_object) simp_all
  moreover have "object_of L e ?c'" using obj(1) by (simp add: object_of_def)
  moreover have "check_codec ?c" using c by (simp add: check_codec_def)
  ultimately show ?thesis by blast
qed

lemma verified_object:
  assumes "e \<in> set verified_entries" "linked base htab L" "object_of L e (st ! k)" "k < length st"
    "accepts_args L e args" "room_for t s (max_size (st ! k))"
  shows "\<exists>c c'. codec_init (length st) alloc k args (threads_no t) True True st = Inr (st[k := c]) \<and> check_codec c \<and>
    lossless_test t (codec_test s (st[k := c]) k) \<and> codec_cleanup (length st) k (st[k := c]) = st[k := c'] \<and>
    object_of L e c'"
  using assms(1,2)
proof (cases rule: verified_entry_cases)
  case plain
  then show ?thesis using assms by (intro plain_object)
next
  case LZF
  then show ?thesis using assms by (intro LZF_object)
next
  case fletcher4
  then show ?thesis using assms by (intro fletcher4_object)
qed

subsection \<open>The run\<close>

text \<open>What the codecs ask for is bounded, so that the buffers of a test of a file below 1 GiB are small.\<close>

lemma verified_max_size:
  assumes "verified_codec L st (k, args)" "linked base htab L"
  shows "max_encoded_size (length st) st k = max_size (st ! k)" "max_size (st ! k) n \<le> n + n div 256 + 33"
proof -
  obtain e where k: "k < length st" and e: "e \<in> set verified_entries" "object_of L e (st ! k)"
    using assms(1) by (auto simp: verified_codec_def)
  obtain depth where d: "length st = Suc depth" using init_depth k by blast
  have "refs (codec_class (codec_of L e)) = [] \<and> max_size (codec_of L e) n \<le> n + n div 256 + 33"
    using e(1) assms(2)
    by (cases rule: verified_entry_cases)
       (auto simp: new_codec_def refs_def verified_coders_def size_of_def rle_maxsize_def lz_maxsize_def
         no_blowup_def OVERRUN_PAD_def checksum_max_size_def)
  then have *: "refs (codec_class (st ! k)) = []" "max_size (st ! k) n \<le> n + n div 256 + 33"
    using e(2) by (simp_all add: object_of_def)
  then show "max_size (st ! k) n \<le> n + n div 256 + 33" by blast
  show "max_encoded_size (length st) st k = max_size (st ! k)"
    using *(1) by (simp add: fun_eq_iff d refs_def split: codec_class.splits)
qed

lemma workbuf_block_size_le:
  assumes "new_tester max_sizes contents desired_bsize threads = Inr t"
    and "\<forall>f\<in>set max_sizes. f (t_bsize t) \<le> m" "t_bsize t \<le> m" "m < 2 ^ 62"
  shows "workbuf_block_size t < m + 48"
proof -
  let ?bs = "min desired_bsize (length contents)"
  let ?m = "fold (\<lambda>f m. max m (f ?bs)) max_sizes ?bs"
  obtain w where w: "round_up (?m + OVERRUN_PAD) ALIGNMENT = Some w"
    and t: "t_bsize t = ?bs" "workbuf_block_size t = w"
    using assms(1) by (auto simp: new_tester_def Let_def and_then_Inr_iff or_error_Inr_iff split: if_splits)
  have "?m < m + 1" using assms(2,3) t by (intro fold_max_less) auto
  then have m: "?m \<le> m" by simp
  then have "?m + OVERRUN_PAD + ALIGNMENT \<le> SIZE_MAX"
    using assms(4) by (simp add: SIZE_MAX_def OVERRUN_PAD_def ALIGNMENT_def)
  from round_up_bounds(3) [OF w this] show ?thesis using m t by (simp add: OVERRUN_PAD_def ALIGNMENT_def)
qed

text \<open>A run with settings that \<open>main\<close> accepts, of codecs that are proved lossless.\<close>

definition verified_run :: "library \<Rightarrow> settings \<Rightarrow> store \<Rightarrow> tester \<Rightarrow> (nat \<Rightarrow> nat \<Rightarrow> run_clock) \<Rightarrow> bool" where
  "verified_run L s st t clock \<longleftrightarrow>
    (\<forall>c\<in>set (opt_codecs s). verified_codec L st c) \<and> opt_verify s \<and> input_size t < 2 ^ 30 \<and>
    unat (opt_ssize s) \<le> workbuf_block_size t \<and> unat (opt_job_size s) < 2 ^ 62 \<and> clock_ok t s clock"

lemma verified_run_sizes:
  assumes "linked base htab L" "start_tester s st contents = Inr t" "verified_run L s st t clock"
  defines "max_sizes \<equiv> map (\<lambda>(k, _). max_encoded_size (length st) st k) (opt_codecs s)"
  shows "sizes_ok t s max_sizes contents" "workbuf_block_size t < 2 ^ 32" "t_bsize t < 2 ^ 30"
    "t_bsize t \<le> workbuf_block_size t" "\<forall>(k, args)\<in>set (opt_codecs s). max_size (st ! k) (t_bsize t) + OVERRUN_PAD \<le> workbuf_block_size t"
proof -
  let ?bs = "t_bsize t" and ?w = "workbuf_block_size t" and ?N = "blocks_no t"
  have t: "new_tester max_sizes contents (unat (opt_bsize s)) (nat (opt_threads s)) = Inr t"
    using assms(2) by (simp add: start_tester_def max_sizes_def)
  then have L: "length contents = input_size t" "?bs \<le> length contents"
    by (auto simp: new_tester_def Let_def and_then_Inr_iff or_error_Inr_iff split: if_splits)
  then have len: "length contents < 2 ^ 30" and bs: "?bs < 2 ^ 30"
    using assms(3) by (simp_all add: verified_run_def)
  have bound: "\<forall>f\<in>set max_sizes. f ?bs \<le> ?bs + ?bs div 256 + 33"
    using assms(3) verified_max_size [OF _ assms(1)] by (fastforce simp: max_sizes_def verified_run_def)
  have m: "?bs + ?bs div 256 + 33 < 2 ^ 31" using bs by simp
  then have small: "length contents < 2 ^ 62" "\<forall>f\<in>set max_sizes. f ?bs < 2 ^ 62"
    using bound len by (simp, fastforce)
  have w: "?w < 2 ^ 31 + 48" using workbuf_block_size_le [OF t bound] m by simp
  have ok: "tester_ok t" by (rule new_tester_ok [OF t small])
  have "(?N - 1) * 1 \<le> (?N - 1) * ?bs" using ok by (intro mult_le_mono2) (simp add: tester_ok_def)
  then have "?N - 1 \<le> (?N - 1) * ?bs" by simp
  also have "\<dots> < length contents" using ok L by (simp add: tester_ok_def)
  finally have N: "?N \<le> 2 ^ 30" using len by simp
  have "?N * ?w \<le> 2 ^ 30 * (2 ^ 31 + 48)" using N w by (intro mult_le_mono) simp_all
  then have "workbuf_size t < 2 ^ 62" using ok by (simp add: tester_ok_def)
  then show "sizes_ok t s max_sizes contents"
    using small N assms(3) unfolding sizes_ok_def verified_run_def by simp
  show "?w < 2 ^ 32" using w by simp
  show "?bs < 2 ^ 30" by (rule bs)
  show "?bs \<le> ?w" using ok by (simp add: tester_ok_def)
  show "\<forall>(k, args)\<in>set (opt_codecs s). max_size (st ! k) ?bs + OVERRUN_PAD \<le> ?w"
  proof (intro ballI, clarify)
    fix k args assume k: "(k, args) \<in> set (opt_codecs s)"
    then have "verified_codec L st (k, args)" using assms(3) by (simp add: verified_run_def)
    then have "max_size (st ! k) \<in> set max_sizes"
      using verified_max_size(1) [OF _ assms(1)] k by (force simp: max_sizes_def)
    then show "max_size (st ! k) ?bs + OVERRUN_PAD \<le> ?w" by (rule workbuf_block_size_ge [OF t small])
  qed
qed

lemma object_of_fixed: "object_of L e c \<Longrightarrow> object_of L e c' \<Longrightarrow> max_size c' = max_size c"
  by (simp add: object_of_def)

lemma verified_run_ok:
  assumes L: "linked base htab L" and t: "start_tester s st contents = Inr t" and run: "verified_run L s st t clock"
    and s: "settings_ok s st" and mem: "mem_ok (blocks_no t) (workbuf_block_size t) mem"
  shows "\<exists>st' mem'. tester_test t s alloc clock st mem =
    Inr (replicate (length (opt_codecs s)) (Checked True), st', mem')"
proof -
  note sizes = verified_run_sizes [OF L t run]
  have starts: "starts t s clock"
    using t run s sizes(1) unfolding starts_def start_tester_def verified_run_def settings_ok_def by blast
  let ?I = "\<lambda>st'. (\<forall>c\<in>set (opt_codecs s). verified_codec L st' c) \<and>
    (\<forall>(k, args)\<in>set (opt_codecs s). max_size (st' ! k) = max_size (st ! k))"
  have step: "\<exists>st2. codec_init (length st1) alloc k args (threads_no t) True True st1 = Inr st2 \<and> check_codec (st2 ! k) \<and>
      lossless_test t (codec_test s st2 k) \<and> ?I (codec_cleanup (length st2) k st2)"
    if k: "(k, args) \<in> set (opt_codecs s)" and I: "?I st1" for k args st1
  proof -
    obtain e where kl: "k < length st1" and e: "e \<in> set verified_entries" "object_of L e (st1 ! k)" "accepts_args L e args"
      using I k by (auto simp: verified_codec_def)
    have "max_size (st1 ! k) = max_size (st ! k)" using I k by auto
    then have "room_for t s (max_size (st1 ! k))"
      using sizes k run s by (auto simp: room_for_def verified_run_def settings_ok_def)
    from verified_object [OF e(1) L e(2) kl e(3) this]
    obtain c c' where c: "codec_init (length st1) alloc k args (threads_no t) True True st1 = Inr (st1[k := c])"
      "check_codec c" "lossless_test t (codec_test s (st1[k := c]) k)"
      "codec_cleanup (length st1) k (st1[k := c]) = st1[k := c']" "object_of L e c'" by blast
    have same: "object_of L e' (st1[k := c'] ! j)" if "e' \<in> set verified_entries" "object_of L e' (st1 ! j)" for e' j
      using that c(5) object_of_unique [OF e(1) that(1) e(2)] kl by (cases "j = k") auto
    have "?I (st1[k := c'])"
    proof (intro conjI ballI)
      fix q assume "q \<in> set (opt_codecs s)"
      then show "verified_codec L (st1[k := c']) q"
        using I same by (fastforce simp: verified_codec_def)
    next
      fix q assume q: "q \<in> set (opt_codecs s)"
      have "max_size c' = max_size (st1 ! k)" by (rule object_of_fixed [OF e(2) c(5)])
      then show "case q of (j, args) \<Rightarrow> max_size (st1[k := c'] ! j) = max_size (st ! j)"
        using I q kl by (auto simp: nth_list_update)
    qed
    then show ?thesis using c kl by auto
  qed
  have "\<exists>st' mem'. test_codecs t s alloc clock (opt_codecs s) st (warmup t (nat (opt_warmup_iters s)) mem) =
      Inr (replicate (length (opt_codecs s)) (Checked True), st', mem') \<and> ?I st' \<and> buffers_ok t mem'"
  proof (rule codecs_ok [where I = ?I, OF starts])
    show "opt_verify s" "?I st" using run by (simp_all add: verified_run_def)
    show "buffers_ok t (warmup t (nat (opt_warmup_iters s)) mem)"
      by (rule warmup_ok [OF starts_tester_ok [OF starts] mem])
  qed (rule step)
  then show ?thesis unfolding tester_test_def by blast
qed

subsection \<open>From the command line to the verdict\<close>


text \<open>A library linked like this, and a run of two codecs on three bytes.\<close>

definition verified_library :: library where
  "verified_library = \<lparr>
    lib_fn = (\<lambda>n _. if n = ''FsBenchBCL::lz'' then lz else if n = ''FsBenchBCL::unlz'' then unlz
      else if n = ''FsBenchBCL::rle'' then rle else if n = ''FsBenchBCL::unrle'' then unrle
      else if n = ''LZJB_c'' then LZJB_c 0 else if n = ''LZJB_d'' then LZJB_d
      else if n = ''LZF_c'' then LZF_c (\<lambda>_. 0) else if n = ''LZF_very_c'' then LZF_very_c (\<lambda>_. 0)
      else if n = ''LZF_ultra_c'' then LZF_ultra_c (\<lambda>_. 0) else if n = ''LZF_d'' then LZF_d
      else if n = ''c_memcpy'' then c_memcpy else c_memmove),
    lib_size = (\<lambda>n. if n = ''FsBenchBCL::lz_maxsize'' then lz_maxsize
      else if n = ''FsBenchBCL::rle_maxsize'' then rle_maxsize else no_blowup),
    lib_const = (\<lambda>_. 64), lib_checksum = (\<lambda>_. fletcher4),
    lib_object = (\<lambda>name. new_codec name [] None None no_blowup moving moving True Plain_codec)\<rparr>"

lemma verified_library_linked: "linked 0 (\<lambda>_. 0) verified_library"
  by (simp add: linked_def verified_library_def)

text \<open>A run of \<open>memcpy\<close> on three bytes, in a build without optional codecs.\<close>

lemma bare_codecs: "enabled (\<lambda>_. False) codec_table = snd (hd pseudo_codecs)"
proof -
  have append: "enabled cfg (xs @ ys) = enabled cfg xs @ enabled cfg ys" for cfg xs ys
    by (simp add: enabled_def)
  have none: "\<forall>(ms, es)\<in>set table. ms \<noteq> [] \<Longrightarrow> enabled (\<lambda>_. False) table = []" for table
    by (auto simp: enabled_def filter_empty_conv)
  have "enabled (\<lambda>_. False) pseudo_codecs = snd (hd pseudo_codecs)"
    by (simp only: enabled_def pseudo_codecs_def) simp
  moreover have "enabled (\<lambda>_. False) multifunction_codecs = []" "enabled (\<lambda>_. False) int_mode_codecs = []"
    "enabled (\<lambda>_. False) plain_codecs = []" "enabled (\<lambda>_. False) nakamichi_codecs = []"
    "enabled (\<lambda>_. False) other_codecs = []" "enabled (\<lambda>_. False) checksum_codecs = []"
    "enabled (\<lambda>_. False) sha3_codecs = []" "enabled (\<lambda>_. False) more_checksums = []"
    "enabled (\<lambda>_. False) cipher_codecs = []"
    by (rule none, simp add: multifunction_codecs_def int_mode_codecs_def plain_codecs_def nakamichi_codecs_def
      other_codecs_def checksum_codecs_def sha3_codecs_def more_checksums_def cipher_codecs_def)+
  ultimately show ?thesis by (simp only: codec_table_def append append_Nil)
qed

definition memcpy_entry :: table_entry where
  "memcpy_entry = Codec_entry ''memcpy'' ''0'' (Some ''c_memcpy'') (Some ''c_memcpy'') No_blowup moving moving"

lemma memcpy_found:
  assumes "st = map (codec_of L) (snd (hd pseudo_codecs)) @ added"
  shows "find_codec ''memcpy'' st = (Some 4, st)" "st ! 4 = codec_of L memcpy_entry" "4 < length st"
proof -
  have "raw_find_codec ''memcpy'' st = Some 4"
    by (simp add: assms raw_find_codec_def pseudo_codecs_def toupper_def del: codec_of.simps)
  then show "find_codec ''memcpy'' st = (Some 4, st)" by (simp add: find_codec.simps)
  show "st ! 4 = codec_of L memcpy_entry" "4 < length st"
    by (simp_all add: assms pseudo_codecs_def memcpy_entry_def del: codec_of.simps)
qed

definition small_settings :: settings where
  "small_settings = default_settings\<lparr>opt_bsize := 2, opt_verify := True, opt_iter_time := 0, opt_codecs := [(4, [])]\<rparr>"

lemma small_args:
  assumes "find_codec ''memcpy'' st = (Some 4, st)"
  shows "parse_args ps [''-v'', ''-b2'', ''-s0'', ''memcpy'', ''file''] (default_settings, st) =
    Inr (''file'', small_settings, st)"
proof -
  have "pseudocodec ps ''memcpy'' = None" by (simp add: pseudocodec_def toupper_def)
  moreover have "atoi ''2'' = Some 2" "atoi ''0'' = Some 0"
    by (simp_all add: atoi_def read_sign_def is_space_def digit_def)
  ultimately show ?thesis
    using assms by (simp add: parse_arg_def apply_option_def number_option_def select_codecs_def split_args_def
      default_settings_def small_settings_def)
qed

abbreviation small_clock :: "nat \<Rightarrow> nat \<Rightarrow> run_clock" where
  "small_clock \<equiv> \<lambda>_ _. \<lparr>enc_start = \<lparr>tv_sec = 0, tv_nsec = 0\<rparr>, enc_calls = small_calls,
    dec_start = \<lparr>tv_sec = 0, tv_nsec = 0\<rparr>, dec_calls = small_calls\<rparr>"

lemma small_clock_ok: "clock_ok small_tester small_settings small_clock"
proof -
  have "compression_scheduler small_tester (codec_test small_settings st k) \<lparr>tv_sec = 0, tv_nsec = 0\<rparr> = Some (small_scheduler 81)"
    "decompression_scheduler small_tester (codec_test small_settings st k) \<lparr>tv_sec = 0, tv_nsec = 0\<rparr> = Some (small_scheduler 160)" for st k
    by (simp_all add: compression_scheduler_def decompression_scheduler_def small_tester_def codec_test_def
        small_settings_def default_settings_def small_scheduler_def size_in_blocks_def round_up_def new_scheduler_def)
  moreover have "ran_by (threads_no small_tester) (small_scheduler n) small_calls" if "0 < n" "n < 2 ^ 18" for n
    unfolding small_threads_no using that by (rule small_ran_by)
  ultimately show ?thesis by (simp add: clock_ok_def)
qed


end
