(* ===== verification/Spec2Isabelle.thy ===== *)
theory Spec2Isabelle
  imports Bcl_Rice Bcl_ShannonFano Lrrle Verified_Run
begin

text \<open>
  \<^bold>\<open>fsbench, a benchmark of compressors and checksums.\<close> The program reads a file, cuts it into
  blocks, lets a number of threads encode and decode the blocks with one codec after the other,
  measures the time, and checks the decoded data. This library models the harness
  (\<open>src/src/*.cpp\<close>) and the codecs whose C sources are small enough to be followed to the bit:
  the Basic Compression Library, the checksums and the LZJB coder of ZFS, LibLZF, and lrrle.

  \<^bold>\<open>How the parts interact.\<close> The command line selects codec objects and the settings of a test; a
  \<open>Tester\<close> lays the file out in blocks of its working buffers; for each iteration a \<open>Scheduler\<close> hands
  out work items, stretches of blocks, to the threads; each thread calls the coding function of the
  codec on every block of its items and records in the block's metadata what became of it; a second
  scheduler does the same for decoding; at the end the checksum of the restored data is compared with
  the checksum of the file. A coding function sees two blocks, in the model as byte lists, and
  returns them with its result: \<open>coder\<close> of the theory \<open>Codec\<close>. A result \<open>None\<close> means that the code
  has left a buffer or done something else that C++ does not define, so that every theorem with
  \<open>Some\<close> in its conclusion includes memory safety.

  \<^bold>\<open>Theories and sources.\<close>
  \<^item> \<open>Bench_Prelude\<close>: types of the C sources, list lemmas, the locale \<open>stream_decoder\<close> of decoders that
    consume a code piece by piece, the byte histogram.
  \<^item> \<open>Tools\<close> (\<open>tools.hpp\<close>, \<open>tools.cpp\<close>): rounding, elapsed time, comparison of names, the checksum.
  \<^item> \<open>Codec\<close> (\<open>codecs.hpp\<close>): the type of coding functions, buffers, errors as sums.
  \<^item> \<open>Scheduler\<close> (\<open>scheduler.cpp\<close>): the record \<open>scheduler\<close> holds the data members, \<open>getChunk\<close> is the
    member function; its abstraction is a cyclic counter over the chunks of the array.
  \<^item> \<open>Benchmark\<close> (\<open>benchmark.cpp\<close>): \<open>tester\<close>, \<open>encode\<close>, \<open>decode\<close>, \<open>check_decoding\<close> and one iteration
    of \<open>Tester::test\<close>; the locales \<open>moving_codec\<close> and \<open>in_place_codec\<close> state what the harness needs of a
    codec that moves its data and of one that keeps it in place.
  \<^item> \<open>Bench_Correct\<close> and \<open>Bench_In_Place\<close>: the proofs that a codec with one of these contracts passes
    the verification. The locale \<open>worker\<close> is the loop of a thread, interpreted for encoding and for
    decoding.
  \<^item> \<open>Simple_Codecs\<close> (\<open>simple_codecs.cpp\<close>, last part): nop, memcpy, memmove, memset, byte swapping.
  \<^item> \<open>Abstract_Codecs\<close> (\<open>abstractCodecs.cpp\<close>, \<open>codecs.cpp\<close>): the classes of codec objects, their
    initialisation, combinations and pipelines, and \<open>find_codec\<close>. Objects live in a store; a pointer
    to an object is its index. The locale \<open>checksum_function\<close> says what a checksum codec needs.
  \<^item> \<open>Codec_Table\<close> (\<open>codecs.cpp\<close>): the table of codecs with the preprocessor macros each entry needs,
    and the lists that the pseudocodecs of the command line stand for. The record \<open>library\<close> holds the
    functions the program is linked with, by name.
  \<^item> \<open>Command_Line\<close> (\<open>main.cpp\<close>): options, codecs and error exits up to the construction of the \<open>Tester\<close>.
  \<^item> \<open>Tester_Run\<close> (\<open>benchmark.cpp\<close>): \<open>Tester::test\<close> as a whole, warm-up, codec objects one after the
    other, iterations, the check of the data, clean-up. \<open>Verified_Run\<close> puts all parts together.
  \<^item> \<open>Bcl_Rle\<close>, \<open>Bcl_Lz\<close>, \<open>Bcl_Rice\<close>, \<open>Bcl_Huffman\<close>, \<open>Bcl_ShannonFano\<close> (\<open>codecs/bcl/src/*.c\<close>): the
    five coders of the Basic Compression Library, with \<open>Bit_Stream\<close> (a buffer as a string of bits),
    \<open>Bcl_Bits\<close> (the bit streams of two of the files) and \<open>Bcl_Symbols\<close> (their symbol table and sort,
    the locale \<open>symbol_reader\<close> of decoders that read one symbol at a time).
    \<open>Bcl_Codecs\<close> (\<open>bcl.cpp\<close>) are the adapters.
  \<^item> \<open>Machine_Words\<close>: integers in little-endian memory, copying inside a buffer.
  \<^item> \<open>Zfs_Fletcher\<close> (\<open>codecs/zfs/zfs_fletcher.c\<close>), \<open>Zfs_Lzjb\<close> (\<open>codecs/zfs/zfs_lzjb2010.c\<close>), \<open>Lzf\<close>
    (\<open>codecs/lzf/lzf_*.c\<close>), \<open>Zfs_Codecs\<close> and \<open>Lzf_Codecs\<close> (their adapters in \<open>simple_codecs.cpp\<close>),
    \<open>Capped_Codecs\<close> (codecs that write no more than they are told), \<open>Lrrle\<close> (\<open>codecs/lrrle.c\<close>: one
    definition for the four variants, which differ in the number of words of a group).

  \<^bold>\<open>What is proved.\<close> The coders: decoding gives back the data, whatever lies in the buffers behind the
  code and in uninitialised tables, and neither direction leaves its buffers; where this holds under a
  condition only, the condition is a hypothesis and a second theorem shows what happens without it.
  The harness: every codec that satisfies one of the two contracts passes the verification, with any
  number of threads, any order in which they ask for work and any clock; the coders above and the
  checksum fletcher-4 are interpretations of these locales. \<open>Verified_Run\<close> draws this together: a
  command line that selects such codecs leads to a run that reports all of them as verified. The scheduler refines a counter, ends, and covers the array. The checksum of the
  verification is CRC-32 and notices every change within four bytes. Whatever the command line, a test
  starts only with settings in their ranges and with codecs that exist.

  \<^bold>\<open>Bounds and fuel.\<close> Lengths are natural numbers with the bound \<open>2 ^ 32\<close> or \<open>2 ^ 64\<close> as a hypothesis where
  the code stores them in a narrower type; sums that may wrap are written with \<open>mod\<close>. The virtual
  functions of composed codecs (\<open>codec_init\<close>, \<open>call_fn\<close>, \<open>max_encoded_size\<close>) take a bound on the depth
  of the calls: composed codecs refer to older codecs only (\<open>store_ok\<close>), so the number of objects is
  enough. The loops of the coders are recursive functions with termination proofs and need no fuel.
  Work items of one pass touch disjoint blocks, so an item is processed as a whole, in the order in
  which the mutex lets the threads take it. A coding function is a function of the two blocks: where it
  reads an address or uninitialised memory, the theorems hold for all such values, but within a run
  they are the same for all calls of a thread. Assertions are those of a release build: none.

  \<^bold>\<open>Not modelled.\<close> Third-party coders, checksums and ciphers (most of \<open>codecs/\<close>): the harness uses
  them through the coder contract, which is a parameter here. Printing of results and the speeds in
  floating point, memory exhaustion, reading of the file, thread creation and process priority:
  input and output or library calls.
\<close>

end
